(* ===== verification/Prelude.thy ===== *)
theory Prelude
  imports Main "HOL-Library.Word"
begin

unbundle bit_operations_syntax

text \<open>
  Shared vocabulary of the development: the machine integers of the Rust code, the value
  of a fallible computation (\<open>Ok\<close>, \<open>Err\<close> or a panic), stateful computations
  that thread a state explicitly, unchecked \<open>u64\<close> arithmetic with its overflow
  written out, little-endian byte codecs, and the lemma collections the components use.
\<close>

section \<open>Machine integers\<close>

text \<open>
  \<open>u8\<close> to \<open>u64\<close> are words of the Rust width. \<open>usize\<close> is \<open>nat\<close>: on the
  64-bit targets of the crate a \<open>usize\<close> is a value below \<open>2 ^ 64\<close>, and the places
  where the source guards a \<open>usize\<close> operation (\<open>checked_add\<close>) have the bound
  written out.
\<close>

type_synonym u8 = "8 word"
type_synonym u16 = "16 word"
type_synonym u32 = "32 word"
type_synonym u64 = "64 word"
type_synonym i32 = "32 word"
type_synonym usize = nat

section \<open>Outcomes\<close>

text \<open>
  \<open>('a, 'e) outcome\<close> is Rust's \<open>Result<T, E>\<close> with the third way a call can end:
  a panic (an arithmetic overflow in a build with overflow checks, a slice index out of
  range, an impossible allocation).
\<close>

datatype ('a, 'e) outcome = Ok 'a | Err 'e | Panic

fun and_then :: "('a, 'e) outcome \<Rightarrow> ('a \<Rightarrow> ('b, 'e) outcome) \<Rightarrow> ('b, 'e) outcome" where
  "and_then (Ok a) f = f a"
| "and_then (Err e) f = Err e"
| "and_then Panic f = Panic"

fun map_err :: "('e \<Rightarrow> 'f) \<Rightarrow> ('a, 'e) outcome \<Rightarrow> ('a, 'f) outcome" where
  "map_err g (Ok a) = Ok a"
| "map_err g (Err e) = Err (g e)"
| "map_err g Panic = Panic"

fun ok :: "('a, 'e) outcome \<Rightarrow> 'a option" where
  "ok (Ok a) = Some a"
| "ok (Err e) = None"
| "ok Panic = None"

definition ok_or :: "'a option \<Rightarrow> 'e \<Rightarrow> ('a, 'e) outcome" where
  "ok_or v e = (case v of None \<Rightarrow> Err e | Some a \<Rightarrow> Ok a)"

lemma and_then_eq_Ok [simp]:
  "and_then m f = Ok b \<longleftrightarrow> (\<exists>a. m = Ok a \<and> f a = Ok b)"
  by (cases m) auto

lemma and_then_eq_Panic:
  "and_then m f = Panic \<longleftrightarrow> m = Panic \<or> (\<exists>a. m = Ok a \<and> f a = Panic)"
  by (cases m) auto

lemma map_err_eq_Ok [simp]: "map_err g m = Ok a \<longleftrightarrow> m = Ok a"
  by (cases m) auto

lemma map_err_eq_Panic [simp]: "map_err g m = Panic \<longleftrightarrow> m = Panic"
  by (cases m) auto

lemma ok_eq_Some [simp]: "ok m = Some a \<longleftrightarrow> m = Ok a"
  by (cases m) auto

lemma ok_or_eq_Ok [simp]: "ok_or v e = Ok a \<longleftrightarrow> v = Some a"
  by (auto simp: ok_or_def split: option.splits)

lemma ok_or_not_Panic [simp]: "ok_or v e \<noteq> Panic"
  by (auto simp: ok_or_def split: option.splits)

lemma ok_or_simps [simp]: "ok_or None e = Err e" "ok_or (Some a) e = Ok a"
  by (simp_all add: ok_or_def)

lemma and_then_cong [fundef_cong]:
  assumes "m = m'" and "\<And>a. m' = Ok a \<Longrightarrow> f a = f' a"
  shows "and_then m f = and_then m' f'"
  using assms by (cases m') auto

section \<open>Stateful computations\<close>

text \<open>
  A method taking \<open>&mut self\<close> is a function from the state to the outcome and the
  state it leaves. \<open>seq\<close> is the \<open>?\<close> operator: it stops at the first error
  or panic and keeps the state reached there.
\<close>

type_synonym ('s, 'a, 'e) act = "'s \<Rightarrow> ('a, 'e) outcome \<times> 's"

definition ret :: "'a \<Rightarrow> ('s, 'a, 'e) act" where
  "ret a = (\<lambda>s. (Ok a, s))"

definition fail :: "'e \<Rightarrow> ('s, 'a, 'e) act" where
  "fail e = (\<lambda>s. (Err e, s))"

definition lift_outcome :: "('a, 'e) outcome \<Rightarrow> ('s, 'a, 'e) act" where
  "lift_outcome v = (\<lambda>s. (v, s))"

definition seq :: "('s, 'a, 'e) act \<Rightarrow> ('a \<Rightarrow> ('s, 'b, 'e) act) \<Rightarrow> ('s, 'b, 'e) act" where
  "seq m f = (\<lambda>s. case m s of
      (Ok a, s') \<Rightarrow> f a s'
    | (Err e, s') \<Rightarrow> (Err e, s')
    | (Panic, s') \<Rightarrow> (Panic, s'))"

definition with_err :: "('e \<Rightarrow> 'f) \<Rightarrow> ('s, 'a, 'e) act \<Rightarrow> ('s, 'a, 'f) act" where
  "with_err g m = (\<lambda>s. case m s of (v, s') \<Rightarrow> (map_err g v, s'))"

lemma ret_apply [simp]: "ret a s = (Ok a, s)"
  by (simp add: ret_def)

lemma fail_apply [simp]: "fail e s = (Err e, s)"
  by (simp add: fail_def)

lemma lift_outcome_apply [simp]: "lift_outcome v s = (v, s)"
  by (simp add: lift_outcome_def)

lemma seq_Ok [simp]: "m s = (Ok a, s') \<Longrightarrow> seq m f s = f a s'"
  by (simp add: seq_def)

lemma seq_Err [simp]: "m s = (Err e, s') \<Longrightarrow> seq m f s = (Err e, s')"
  by (simp add: seq_def)

lemma seq_Panic [simp]: "m s = (Panic, s') \<Longrightarrow> seq m f s = (Panic, s')"
  by (simp add: seq_def)

lemma seq_eq_Ok:
  "seq m f s = (Ok b, t) \<longleftrightarrow> (\<exists>a s'. m s = (Ok a, s') \<and> f a s' = (Ok b, t))"
  by (auto simp: seq_def split: prod.splits outcome.splits)

lemma seq_eq_Panic:
  "fst (seq m f s) = Panic \<longleftrightarrow>
     fst (m s) = Panic \<or> (\<exists>a s'. m s = (Ok a, s') \<and> fst (f a s') = Panic)"
  by (auto simp: seq_def split: prod.splits outcome.splits)

text \<open>
  \<open>fine m s\<close>: the computation \<open>m\<close> does not panic from \<open>s\<close>. The rules follow the
  sequencing, so that \<open>auto intro!: seq_fine\<close> walks down a method body.
\<close>

definition fine :: "('s, 'a, 'e) act \<Rightarrow> 's \<Rightarrow> bool" where
  "fine m s \<longleftrightarrow> fst (m s) \<noteq> Panic"

lemma seq_fine:
  assumes "fine m s" and "\<And>a s'. m s = (Ok a, s') \<Longrightarrow> fine (f a) s'"
  shows "fine (seq m f) s"
  using assms by (auto simp: fine_def seq_eq_Panic)

lemma fine_ret [simp]: "fine (ret a) s"
  by (simp add: fine_def)

lemma fine_fail [simp]: "fine (fail e) s"
  by (simp add: fine_def)

lemma fine_lift_outcome [simp]: "fine (lift_outcome v) s \<longleftrightarrow> v \<noteq> Panic"
  by (simp add: fine_def)

lemma fine_with_err [simp]: "fine (with_err g m) s \<longleftrightarrow> fine m s"
  by (auto simp: fine_def with_err_def split: prod.splits)

lemma fine_if [simp]:
  "fine (\<lambda>s. if P s then f s else g s) s' \<longleftrightarrow> (if P s' then fine f s' else fine g s')"
  by (simp add: fine_def)

lemma fine_pair [simp]: "fine (\<lambda>s. (h s, g s)) s' \<longleftrightarrow> h s' \<noteq> Panic"
  by (simp add: fine_def)

lemma fineI: "m s = m' s \<Longrightarrow> fine m' s \<Longrightarrow> fine m s"
  by (simp add: fine_def)

lemma fineD: "fine m s \<Longrightarrow> fst (m s) \<noteq> Panic"
  by (simp add: fine_def)

lemma fine_no_Panic: "fine m s \<Longrightarrow> m s \<noteq> (Panic, s')"
  by (auto simp: fine_def)

lemma with_err_Ok [simp]: "with_err g m s = (Ok a, s') \<longleftrightarrow> m s = (Ok a, s')"
  by (auto simp: with_err_def split: prod.splits)

lemma with_err_OkI [simp]: "m s = (Ok a, s') \<Longrightarrow> with_err g m s = (Ok a, s')"
  by (simp add: with_err_def)

lemma with_err_apply: "m s = (v, s') \<Longrightarrow> with_err g m s = (map_err g v, s')"
  by (simp add: with_err_def)

lemma fst_with_err_Panic [simp]: "fst (with_err g m s) = Panic \<longleftrightarrow> fst (m s) = Panic"
  by (auto simp: with_err_def split: prod.splits)

lemma snd_with_err [simp]: "snd (with_err g m s) = snd (m s)"
  by (auto simp: with_err_def split: prod.splits)

lemma seq_cong [fundef_cong]:
  assumes "s = s'" and "m s' = m' s'" and "\<And>a t. m' s' = (Ok a, t) \<Longrightarrow> f a t = f' a t"
  shows "seq m f s = seq m' f' s'"
  using assms by (auto simp: seq_def split: prod.splits outcome.splits)

lemma fine_seq_lift:
  "v \<noteq> Panic \<Longrightarrow> (\<And>a. v = Ok a \<Longrightarrow> fine (f a) s) \<Longrightarrow> fine (seq (lift_outcome v) f) s"
  by (rule seq_fine) auto

text \<open>\<open>yields P m\<close>: whatever the state, a result of \<open>m\<close> satisfies \<open>P\<close>.\<close>

definition yields :: "('a \<Rightarrow> bool) \<Rightarrow> ('s, 'a, 'e) act \<Rightarrow> bool" where
  "yields P m \<longleftrightarrow> (\<forall>s a s'. m s = (Ok a, s') \<longrightarrow> P a)"

lemma yieldsD: "yields P m \<Longrightarrow> m s = (Ok a, s') \<Longrightarrow> P a"
  unfolding yields_def by blast

lemma yields_seq: "(\<And>a. yields P (f a)) \<Longrightarrow> yields P (seq m f)"
  unfolding yields_def by (auto simp: seq_eq_Ok)

lemma yields_ret: "P a \<Longrightarrow> yields P (ret a)" and yields_fail: "yields P (fail e)"
  by (simp_all add: yields_def)

lemma yields_if: "(b \<Longrightarrow> yields P m) \<Longrightarrow> (\<not> b \<Longrightarrow> yields P m') \<Longrightarrow> yields P (if b then m else m')"
  by simp

lemma yields_prod: "(\<And>a b. yields P (f a b)) \<Longrightarrow> yields P (case p of (a, b) \<Rightarrow> f a b)"
  by (simp split: prod.split)

section \<open>Unchecked arithmetic\<close>

text \<open>
  Rust's plain \<open>+\<close> and \<open>-\<close> on \<open>u64\<close> panic on overflow when overflow checks are
  on (the dev, test and fuzz profiles) and wrap otherwise. The model takes the checked
  reading: where a theorem excludes \<open>Panic\<close> both builds compute the same value.
\<close>

definition add64 :: "u64 \<Rightarrow> u64 \<Rightarrow> (u64, 'e) outcome" where
  "add64 a b = (if unat a + unat b < 2 ^ 64 then Ok (a + b) else Panic)"

definition sub64 :: "u64 \<Rightarrow> u64 \<Rightarrow> (u64, 'e) outcome" where
  "sub64 a b = (if b \<le> a then Ok (a - b) else Panic)"

definition checked_add64 :: "u64 \<Rightarrow> u64 \<Rightarrow> u64 option" where
  "checked_add64 a b = (if unat a + unat b < 2 ^ 64 then Some (a + b) else None)"

definition checked_sub64 :: "u64 \<Rightarrow> u64 \<Rightarrow> u64 option" where
  "checked_sub64 a b = (if b \<le> a then Some (a - b) else None)"

definition saturating_add64 :: "u64 \<Rightarrow> u64 \<Rightarrow> u64" where
  "saturating_add64 a b = (if unat a + unat b < 2 ^ 64 then a + b else - 1)"

definition saturating_sub64 :: "u64 \<Rightarrow> u64 \<Rightarrow> u64" where
  "saturating_sub64 a b = (if b \<le> a then a - b else 0)"

definition checked_add_usize :: "usize \<Rightarrow> usize \<Rightarrow> usize option" where
  "checked_add_usize a b = (if a + b < 2 ^ 64 then Some (a + b) else None)"

lemma unat_lt64 [simp]: "unat (x :: u64) < 18446744073709551616"
  using unsigned_less [of x] by simp

lemma unat_lt32 [simp]: "unat (x :: u32) < 4294967296"
  using unsigned_less [of x] by simp

lemma unat_lt16 [simp]: "unat (x :: u16) < 65536"
  using unsigned_less [of x] by simp

lemma unat_ucast16: "unat (ucast (w :: u16) :: u64) = unat w"
proof -
  have "unat w < 2 ^ 64" by (rule less_trans [OF unat_lt16]) simp
  then have "unat (of_nat (unat w) :: u64) = unat w" by (simp add: unat_of_nat del: of_nat_unat)
  then show ?thesis by (simp only: of_nat_unat)
qed

lemma unat_ucast32: "unat (ucast (w :: u32) :: u64) = unat w"
proof -
  have "unat w < 2 ^ 64" by (rule less_trans [OF unat_lt32]) simp
  then have "unat (of_nat (unat w) :: u64) = unat w" by (simp add: unat_of_nat del: of_nat_unat)
  then show ?thesis by (simp only: of_nat_unat)
qed

lemma unat_add64: "unat (a :: u64) + unat b < 2 ^ 64 \<Longrightarrow> unat (a + b) = unat a + unat b"
  by (simp add: unat_word_ariths)

lemma unat_sub64: "(b :: u64) \<le> a \<Longrightarrow> unat (a - b) = unat a - unat b"
  by (simp add: unat_sub)

lemma add64_eq_Ok [simp]:
  "add64 a b = Ok c \<longleftrightarrow> unat a + unat b < 2 ^ 64 \<and> c = a + b"
  by (auto simp: add64_def)

lemma add64_Panic_iff: "add64 a b = Panic \<longleftrightarrow> 2 ^ 64 \<le> unat a + unat b"
  by (auto simp: add64_def)

lemma add64_OkI: "unat a + unat b < 2 ^ 64 \<Longrightarrow> add64 a b = Ok (a + b)"
  by (simp add: add64_def)

lemma unat_saturating_add64:
  "unat (saturating_add64 a b) = min (unat a + unat b) (2 ^ 64 - 1)"
proof (cases "unat a + unat b < 2 ^ 64")
  case True
  then show ?thesis by (simp add: saturating_add64_def unat_add64)
next
  case False
  moreover have "unat (- 1 :: u64) = 2 ^ 64 - 1"
    by (simp add: unsigned_minus_1_eq_mask mask_eq_exp_minus_1)
  ultimately show ?thesis by (simp add: saturating_add64_def)
qed

lemma unat_of_nat_small: "n < 2 ^ LENGTH('a::len) \<Longrightarrow> unat (of_nat n :: 'a word) = n"
  by (simp add: unat_of_nat)

lemmas unat_of_nat64 = unat_of_nat_small [where 'a = 64, simplified]

lemma add64_of_nat:
  assumes "a + b = k" and "k < 18446744073709551616"
  shows "add64 (of_nat a) (of_nat b) = Ok (of_nat k)"
proof -
  have "unat (of_nat a :: u64) = a" "unat (of_nat b :: u64) = b"
    using assms by (simp_all add: unat_of_nat64)
  with assms show ?thesis by (auto simp: add64_def)
qed

lemma checked_add64_of_nat:
  assumes "a + b < 18446744073709551616"
  shows "checked_add64 (of_nat a) (of_nat b) = Some (of_nat (a + b))"
proof -
  have "unat (of_nat a :: u64) = a" "unat (of_nat b :: u64) = b"
    using assms by (simp_all add: unat_of_nat64)
  with assms show ?thesis by (simp add: checked_add64_def)
qed

lemma ucast_of_nat32: "n < 4294967296 \<Longrightarrow> (ucast (of_nat n :: u32) :: u64) = of_nat n"
  by (simp add: word_unat_eq_iff unat_ucast32 unat_of_nat64 unat_of_nat_small del: of_nat_unat)

lemma ucast_of_nat16: "n < 65536 \<Longrightarrow> (ucast (of_nat n :: u16) :: u64) = of_nat n"
  by (simp add: word_unat_eq_iff unat_ucast16 unat_of_nat64 unat_of_nat_small del: of_nat_unat)

section \<open>Slices\<close>

text \<open>\<open>xs.get(a..b)\<close>, and \<open>&xs[a..b]\<close>, which panics where \<open>get\<close> is \<open>None\<close>.\<close>

definition slice_get :: "'a list \<Rightarrow> usize \<Rightarrow> usize \<Rightarrow> 'a list option" where
  "slice_get xs a b = (if a \<le> b \<and> b \<le> length xs then Some (take (b - a) (drop a xs)) else None)"

definition slice :: "'a list \<Rightarrow> usize \<Rightarrow> usize \<Rightarrow> ('a list, 'e) outcome" where
  "slice xs a b = (case slice_get xs a b of None \<Rightarrow> Panic | Some ys \<Rightarrow> Ok ys)"

definition slice_from :: "'a list \<Rightarrow> usize \<Rightarrow> ('a list, 'e) outcome" where
  "slice_from xs a = slice xs a (length xs)"

definition index :: "'a list \<Rightarrow> usize \<Rightarrow> ('a, 'e) outcome" where
  "index xs i = (if i < length xs then Ok (xs ! i) else Panic)"

lemma slice_get_eq_Some:
  "slice_get xs a b = Some ys \<longleftrightarrow> a \<le> b \<and> b \<le> length xs \<and> ys = take (b - a) (drop a xs)"
  by (auto simp: slice_get_def)

lemma slice_OkI: "a \<le> b \<Longrightarrow> b \<le> length xs \<Longrightarrow> slice xs a b = Ok (take (b - a) (drop a xs))"
  by (simp add: slice_def slice_get_def)

lemma slice_eq_Ok [simp]:
  "slice xs a b = Ok ys \<longleftrightarrow> a \<le> b \<and> b \<le> length xs \<and> ys = take (b - a) (drop a xs)"
  by (auto simp: slice_def slice_get_def)

lemma slice_Panic_iff: "slice xs a b = Panic \<longleftrightarrow> b < a \<or> length xs < b"
  by (auto simp: slice_def slice_get_def)

lemma slice_from_OkI: "a \<le> length xs \<Longrightarrow> slice_from xs a = Ok (drop a xs)"
  by (simp add: slice_from_def slice_OkI)

lemma index_OkI: "i < length xs \<Longrightarrow> index xs i = Ok (xs ! i)"
  by (simp add: index_def)

lemma index_Panic_iff: "index xs i = Panic \<longleftrightarrow> length xs \<le> i"
  by (auto simp: index_def)

text \<open>Searching an index range downwards finds the greatest index with the property.\<close>

lemma find_rev_upt_Some:
  "List.find P (rev [0..<n]) = Some k \<longleftrightarrow> k < n \<and> P k \<and> (\<forall>j. k < j \<and> j < n \<longrightarrow> \<not> P j)"
proof (induction n)
  case (Suc n)
  then show ?case by (auto simp: less_Suc_eq)
qed simp

lemma find_rev_upt_None: "List.find P (rev [0..<n]) = None \<longleftrightarrow> (\<forall>j < n. \<not> P j)"
  by (auto simp: find_None_iff)

section \<open>Little-endian integers\<close>

fun from_le_bytes :: "u8 list \<Rightarrow> 'a::len word" where
  "from_le_bytes [] = 0"
| "from_le_bytes (b # bs) = ucast b + 256 * from_le_bytes bs"

fun to_le_bytes :: "nat \<Rightarrow> 'a::len word \<Rightarrow> u8 list" where
  "to_le_bytes 0 w = []"
| "to_le_bytes (Suc n) w = ucast w # to_le_bytes n (drop_bit 8 w)"

fun le_value :: "u8 list \<Rightarrow> nat" where
  "le_value [] = 0"
| "le_value (b # bs) = unat b + 256 * le_value bs"

lemma length_to_le_bytes [simp]: "length (to_le_bytes n w) = n"
  by (induction n arbitrary: w) auto

lemma le_value_bound: "le_value bs < 256 ^ length bs"
proof (induction bs)
  case (Cons b bs)
  have "unat b < 256" using unsigned_less [of b] by simp
  moreover have "Suc (le_value bs) \<le> 256 ^ length bs" using Cons.IH by simp
  then have "256 * Suc (le_value bs) \<le> 256 * 256 ^ length bs" by (rule mult_le_mono2)
  ultimately show ?case by simp
qed simp

lemma from_le_bytes_of_nat: "from_le_bytes bs = (of_nat (le_value bs) :: 'a::len word)"
proof (induction bs)
  case (Cons b bs)
  have "(ucast b :: 'a word) = of_nat (unat b)" by (simp only: of_nat_unat)
  with Cons show ?case by simp
qed simp

lemma unat_from_le_bytes:
  assumes "8 * length bs \<le> LENGTH('a::len)"
  shows "unat (from_le_bytes bs :: 'a word) = le_value bs"
proof -
  have "(256 :: nat) ^ length bs = 2 ^ (8 * length bs)" by (simp add: power_mult)
  also have "\<dots> \<le> 2 ^ LENGTH('a)" using assms by (rule power_increasing) simp
  finally have "le_value bs < 2 ^ LENGTH('a)" using le_value_bound [of bs] by linarith
  then show ?thesis by (simp add: from_le_bytes_of_nat unat_of_nat_small)
qed

lemma le_value_to_le_bytes: "le_value (to_le_bytes n w) = unat w mod 256 ^ n"
proof (induction n arbitrary: w)
  case (Suc n)
  have "unat (ucast w :: u8) = unat w mod 256"
    by (simp add: unsigned_ucast_eq unsigned_take_bit_eq take_bit_eq_mod)
  moreover have "unat (drop_bit 8 w) = unat w div 256"
    by (simp only: unat_drop_bit_eq) (simp add: drop_bit_eq_div)
  ultimately show ?case
    using Suc by (simp add: mod_mult2_eq add.commute)
qed simp

lemma from_le_bytes_to_le_bytes [simp]:
  fixes w :: "'a::len word"
  assumes "LENGTH('a) \<le> 8 * n"
  shows "from_le_bytes (to_le_bytes n w) = w"
proof -
  have "unat w < 2 ^ LENGTH('a)" by simp
  also have "\<dots> \<le> 2 ^ (8 * n)" using assms by (rule power_increasing) simp
  also have "\<dots> = (256 :: nat) ^ n" by (simp add: power_mult)
  finally show ?thesis by (simp add: from_le_bytes_of_nat le_value_to_le_bytes)
qed

lemma le_value_inj: "length as = length bs \<Longrightarrow> le_value as = le_value bs \<Longrightarrow> as = bs"
proof (induction as bs rule: list_induct2)
  case (Cons a as b bs)
  have "unat a < 256" "unat b < 256" using unsigned_less [of a] unsigned_less [of b] by auto
  moreover have eq: "unat a + 256 * le_value as = unat b + 256 * le_value bs"
    using Cons.prems by simp
  then have "(unat a + 256 * le_value as) mod 256 = (unat b + 256 * le_value bs) mod 256"
    by (rule arg_cong)
  ultimately have "unat a = unat b" by simp
  with eq have "le_value as = le_value bs" by simp
  with Cons.IH \<open>unat a = unat b\<close> show ?case by (simp add: word_unat_eq_iff)
qed simp

lemma to_le_bytes_from_le_bytes:
  assumes "8 * length bs \<le> LENGTH('a::len)"
  shows "to_le_bytes (length bs) (from_le_bytes bs :: 'a word) = bs"
  using assms by (intro le_value_inj)
    (simp_all add: le_value_to_le_bytes unat_from_le_bytes le_value_bound)

text \<open>The three widths the ZIP records use.\<close>

abbreviation le16 :: "u16 \<Rightarrow> u8 list" where "le16 \<equiv> to_le_bytes 2"
abbreviation le32 :: "u32 \<Rightarrow> u8 list" where "le32 \<equiv> to_le_bytes 4"
abbreviation le64 :: "u64 \<Rightarrow> u8 list" where "le64 \<equiv> to_le_bytes 8"

section \<open>Lemma collections\<close>

named_theorems no_panic \<open>operations that never end in a panic\<close>

text \<open>The encodings as explicit lists, for evaluation on concrete words.\<close>

lemma le16_eval: "le16 w = [ucast w, ucast (drop_bit 8 w)]"
  by (simp add: numeral_2_eq_2)

lemma le32_eval: "le32 w = [ucast w, ucast (drop_bit 8 w), ucast (drop_bit 8 (drop_bit 8 w)),
    ucast (drop_bit 8 (drop_bit 8 (drop_bit 8 w)))]"
proof -
  have four: "(4 :: nat) = Suc (Suc (Suc (Suc 0)))" by simp
  show ?thesis by (simp only: four to_le_bytes.simps)
qed

lemma le64_eval: "le64 w = [ucast w, ucast (drop_bit 8 w), ucast (drop_bit 8 (drop_bit 8 w)),
    ucast (drop_bit 8 (drop_bit 8 (drop_bit 8 w))),
    ucast (drop_bit 8 (drop_bit 8 (drop_bit 8 (drop_bit 8 w)))),
    ucast (drop_bit 8 (drop_bit 8 (drop_bit 8 (drop_bit 8 (drop_bit 8 w))))),
    ucast (drop_bit 8 (drop_bit 8 (drop_bit 8 (drop_bit 8 (drop_bit 8 (drop_bit 8 w)))))),
    ucast (drop_bit 8 (drop_bit 8 (drop_bit 8 (drop_bit 8 (drop_bit 8 (drop_bit 8 (drop_bit 8 w)))))))]"
proof -
  have eight: "(8 :: nat) = Suc (Suc (Suc (Suc (Suc (Suc (Suc (Suc 0)))))))" by simp
  have "le64 w = to_le_bytes (Suc (Suc (Suc (Suc (Suc (Suc (Suc (Suc 0)))))))) w" by (simp only: eight)
  then show ?thesis by (simp only: to_le_bytes.simps)
qed

lemmas le_eval = le16_eval le32_eval le64_eval

end
