(* ===== verification/Text.thy ===== *)
theory Text
  imports Prelude
begin

text \<open>
  Rust characters and strings as the source uses them: a \<open>char\<close> is its code point, a
  \<open>String\<close> the list of its characters, and \<open>as_bytes\<close> its UTF-8 bytes. The
  standard-library operations the repository calls are here: UTF-8 encoding, strict and
  lossy decoding (the \<open>Utf8Chunks\<close> automaton of \<open>core::str::lossy\<close>),
  \<open>split\<close> on separators, the ASCII predicates, and the number formats of
  \<open>format!\<close>.
\<close>

section \<open>Characters and strings\<close>

type_synonym rchar = nat
type_synonym rstring = "rchar list"

definition lit :: "string \<Rightarrow> rstring" where
  "lit s = map of_char s"

definition is_scalar :: "rchar \<Rightarrow> bool" where
  "is_scalar c \<longleftrightarrow> c < 0xD800 \<or> 0xE000 \<le> c \<and> c < 0x110000"

abbreviation slash :: rchar where "slash \<equiv> 0x2F"
abbreviation backslash :: rchar where "backslash \<equiv> 0x5C"
abbreviation replacement :: rchar where "replacement \<equiv> 0xFFFD"

definition is_sep :: "rchar \<Rightarrow> bool" where
  "is_sep c \<longleftrightarrow> c = slash \<or> c = backslash"

fun starts_with_char :: "rstring \<Rightarrow> rchar \<Rightarrow> bool" where
  "starts_with_char [] c = False"
| "starts_with_char (x # xs) c = (x = c)"

definition ends_with_char :: "rstring \<Rightarrow> rchar \<Rightarrow> bool" where
  "ends_with_char s c = starts_with_char (rev s) c"

definition is_ascii_alphabetic :: "u8 \<Rightarrow> bool" where
  "is_ascii_alphabetic b \<longleftrightarrow> 65 \<le> b \<and> b \<le> 90 \<or> 97 \<le> b \<and> b \<le> 122"

definition is_ascii :: "u8 list \<Rightarrow> bool" where
  "is_ascii bs \<longleftrightarrow> list_all (\<lambda>b. b < 128) bs"

text \<open>\<open>char::is_control\<close> is Unicode category Cc: the C0 and C1 ranges and DEL.\<close>

definition is_control :: "rchar \<Rightarrow> bool" where
  "is_control c \<longleftrightarrow> c < 0x20 \<or> 0x7F \<le> c \<and> c < 0xA0"

section \<open>split\<close>

fun split_sep :: "rstring \<Rightarrow> rstring list" where
  "split_sep [] = [[]]"
| "split_sep (c # cs) =
     (if is_sep c then [] # split_sep cs
      else case split_sep cs of [] \<Rightarrow> [[c]] | w # ws \<Rightarrow> (c # w) # ws)"

lemma split_sep_not_Nil [simp]: "split_sep s \<noteq> []"
  by (induction s) (auto split: list.splits)

lemma split_sep_no_sep:
  "w \<in> set (split_sep s) \<Longrightarrow> c \<in> set w \<Longrightarrow> \<not> is_sep c"
proof (induction s arbitrary: w)
  case (Cons x xs)
  then show ?case
    by (cases "split_sep xs") (fastforce split: if_splits)+
qed simp

lemma split_sep_chars: "w \<in> set (split_sep s) \<Longrightarrow> set w \<subseteq> set s"
proof (induction s arbitrary: w)
  case (Cons x xs)
  then show ?case
    by (cases "split_sep xs") (fastforce split: if_splits)+
qed simp

lemma split_sep_plain: "\<forall>c \<in> set s. \<not> is_sep c \<Longrightarrow> split_sep s = [s]"
  by (induction s) auto

lemma split_sep_append:
  assumes "is_sep c"
  shows "split_sep (s @ c # t) = split_sep s @ split_sep t"
proof (induction s)
  case (Cons x xs)
  then show ?case
    using split_sep_not_Nil [of xs] by (cases "split_sep xs") auto
qed (simp add: assms)

section \<open>UTF-8\<close>

definition encode_utf8 :: "rchar \<Rightarrow> u8 list" where
  "encode_utf8 c =
     (if c < 0x80 then [of_nat c]
      else if c < 0x800 then [of_nat (0xC0 + c div 64), of_nat (0x80 + c mod 64)]
      else if c < 0x10000 then
        [of_nat (0xE0 + c div 4096), of_nat (0x80 + c div 64 mod 64), of_nat (0x80 + c mod 64)]
      else
        [of_nat (0xF0 + c div 262144), of_nat (0x80 + c div 4096 mod 64),
         of_nat (0x80 + c div 64 mod 64), of_nat (0x80 + c mod 64)])"

definition as_bytes :: "rstring \<Rightarrow> u8 list" where
  "as_bytes s = concat (map encode_utf8 s)"

text \<open>
  \<open>safe_get\<close> reads past the end as 0. \<open>utf8_next\<close> looks at the first sequence of a
  non-empty slice: the scalar value it encodes and its length, or \<open>None\<close> and the
  length of the maximal invalid prefix that the decoder replaces by one U+FFFD.
\<close>

definition safe_get :: "u8 list \<Rightarrow> nat \<Rightarrow> nat" where
  "safe_get bs i = (if i < length bs then unat (bs ! i) else 0)"

definition is_cont :: "nat \<Rightarrow> bool" where
  "is_cont x \<longleftrightarrow> 0x80 \<le> x \<and> x \<le> 0xBF"

definition second3_ok :: "nat \<Rightarrow> nat \<Rightarrow> bool" where
  "second3_ok b0 b1 \<longleftrightarrow>
     b0 = 0xE0 \<and> 0xA0 \<le> b1 \<and> b1 \<le> 0xBF
   \<or> 0xE1 \<le> b0 \<and> b0 \<le> 0xEC \<and> 0x80 \<le> b1 \<and> b1 \<le> 0xBF
   \<or> b0 = 0xED \<and> 0x80 \<le> b1 \<and> b1 \<le> 0x9F
   \<or> 0xEE \<le> b0 \<and> b0 \<le> 0xEF \<and> 0x80 \<le> b1 \<and> b1 \<le> 0xBF"

definition second4_ok :: "nat \<Rightarrow> nat \<Rightarrow> bool" where
  "second4_ok b0 b1 \<longleftrightarrow>
     b0 = 0xF0 \<and> 0x90 \<le> b1 \<and> b1 \<le> 0xBF
   \<or> 0xF1 \<le> b0 \<and> b0 \<le> 0xF3 \<and> 0x80 \<le> b1 \<and> b1 \<le> 0xBF
   \<or> b0 = 0xF4 \<and> 0x80 \<le> b1 \<and> b1 \<le> 0x8F"

definition utf8_next :: "u8 list \<Rightarrow> rchar option \<times> nat" where
  "utf8_next bs =
     (let b0 = safe_get bs 0; b1 = safe_get bs 1; b2 = safe_get bs 2; b3 = safe_get bs 3 in
      if b0 < 0x80 then (Some b0, 1)
      else if 0xC2 \<le> b0 \<and> b0 \<le> 0xDF then
        (if \<not> is_cont b1 then (None, 1)
         else (Some ((b0 - 0xC0) * 64 + (b1 - 0x80)), 2))
      else if 0xE0 \<le> b0 \<and> b0 \<le> 0xEF then
        (if \<not> second3_ok b0 b1 then (None, 1)
         else if \<not> is_cont b2 then (None, 2)
         else (Some ((b0 - 0xE0) * 4096 + (b1 - 0x80) * 64 + (b2 - 0x80)), 3))
      else if 0xF0 \<le> b0 \<and> b0 \<le> 0xF4 then
        (if \<not> second4_ok b0 b1 then (None, 1)
         else if \<not> is_cont b2 then (None, 2)
         else if \<not> is_cont b3 then (None, 3)
         else (Some ((b0 - 0xF0) * 262144 + (b1 - 0x80) * 4096 + (b2 - 0x80) * 64 + (b3 - 0x80)), 4))
      else (None, 1))"

lemma utf8_next_pos: "0 < snd (utf8_next bs)"
  by (simp add: utf8_next_def Let_def)

function from_utf8_lossy :: "u8 list \<Rightarrow> rstring" where
  "from_utf8_lossy bs =
     (if bs = [] then []
      else case utf8_next bs of (r, k) \<Rightarrow>
        (case r of Some c \<Rightarrow> c | None \<Rightarrow> replacement) # from_utf8_lossy (drop k bs))"
  by pat_completeness auto
termination
proof (relation "measure length")
  fix bs r k assume "bs \<noteq> []" "(r, k) = utf8_next bs"
  then show "(drop k bs, bs) \<in> measure length"
    using utf8_next_pos [of bs] by (cases "utf8_next bs") auto
qed simp

declare from_utf8_lossy.simps [simp del]

function from_utf8 :: "u8 list \<Rightarrow> rstring option" where
  "from_utf8 bs =
     (if bs = [] then Some []
      else case utf8_next bs of (r, k) \<Rightarrow>
        (case r of None \<Rightarrow> None | Some c \<Rightarrow> map_option (Cons c) (from_utf8 (drop k bs))))"
  by pat_completeness auto
termination
proof (relation "measure length")
  fix bs r k c assume "bs \<noteq> []" "(r, k) = utf8_next bs"
  then show "(drop k bs, bs) \<in> measure length"
    using utf8_next_pos [of bs] by (cases "utf8_next bs") auto
qed simp

declare from_utf8.simps [simp del]

lemma from_utf8_lossy_Nil [simp]: "from_utf8_lossy [] = []"
  by (simp add: from_utf8_lossy.simps)

lemma from_utf8_Nil [simp]: "from_utf8 [] = Some []"
  by (simp add: from_utf8.simps)

text \<open>A valid string decodes to itself, strictly and lossily.\<close>

lemma unat_of_nat8: "n < 256 \<Longrightarrow> unat (of_nat n :: u8) = n"
  by (simp add: unat_of_nat)

lemma utf8_next_three:
  assumes "d < 16" "m < 64" "r < 64" "second3_ok (224 + d) (128 + m)"
  shows "utf8_next (of_nat (224 + d) # of_nat (128 + m) # of_nat (128 + r) # t)
    = (Some (d * 4096 + m * 64 + r), 3)"
  using assms
  by (simp add: utf8_next_def safe_get_def unat_of_nat8 is_cont_def Let_def del: of_nat_add)

lemma utf8_next_four:
  assumes "p < 5" "d < 64" "m < 64" "r < 64" "second4_ok (240 + p) (128 + d)"
  shows "utf8_next (of_nat (240 + p) # of_nat (128 + d) # of_nat (128 + m) # of_nat (128 + r) # t)
    = (Some (p * 262144 + d * 4096 + m * 64 + r), 4)"
  using assms
  by (simp add: utf8_next_def safe_get_def unat_of_nat8 is_cont_def Let_def del: of_nat_add)

lemma utf8_next_encode:
  assumes "is_scalar c"
  shows "utf8_next (encode_utf8 c @ t) = (Some c, length (encode_utf8 c))"
proof -
  consider (one) "c < 0x80" | (two) "0x80 \<le> c" "c < 0x800"
    | (three) "0x800 \<le> c" "c < 0x10000" | (four) "0x10000 \<le> c" "c < 0x110000"
    using assms unfolding is_scalar_def
    by (cases "c < 0x80"; cases "c < 0x800"; cases "c < 0x10000") auto
  then show ?thesis
  proof cases
    case one
    then show ?thesis
      by (simp add: encode_utf8_def utf8_next_def safe_get_def unat_of_nat8 del: of_nat_add)
  next
    case two
    then have "c div 64 < 32" "2 \<le> c div 64" "c mod 64 < 64" by (simp_all add: less_eq_div_iff_mult_less_eq div_less_iff_less_mult)
    with two show ?thesis
      by (simp add: encode_utf8_def utf8_next_def safe_get_def unat_of_nat8 is_cont_def del: of_nat_add)
  next
    case three
    then have b: "c div 4096 < 16" "c div 64 mod 64 < 64" "c mod 64 < 64"
      by (simp_all add: div_less_iff_less_mult)
    have q: "c div 64 = 64 * (c div 4096) + c div 64 mod 64"
      using div_mult2_eq [of c 64 64] by simp
    have "32 \<le> c div 64" using three by (simp add: less_eq_div_iff_mult_less_eq)
    moreover have "c div 64 < 864 \<or> 896 \<le> c div 64"
      using assms three by (auto simp: is_scalar_def div_less_iff_less_mult less_eq_div_iff_mult_less_eq)
    ultimately have "second3_ok (0xE0 + c div 4096) (0x80 + c div 64 mod 64)"
      using q b unfolding second3_ok_def by linarith
    moreover have "c div 4096 * 4096 + c div 64 mod 64 * 64 + c mod 64 = c"
      using q div_mult_mod_eq [of c 64] by linarith
    ultimately show ?thesis
      using utf8_next_three [OF b] three by (simp add: encode_utf8_def del: of_nat_add)
  next
    case four
    then have b: "c div 262144 < 5" "c div 4096 mod 64 < 64" "c div 64 mod 64 < 64" "c mod 64 < 64"
      by (simp_all add: div_less_iff_less_mult)
    have q: "c div 4096 = 64 * (c div 262144) + c div 4096 mod 64"
      using div_mult2_eq [of c 4096 64] by simp
    have "16 \<le> c div 4096" "c div 4096 < 272"
      using four by (simp_all add: less_eq_div_iff_mult_less_eq div_less_iff_less_mult)
    then have "second4_ok (0xF0 + c div 262144) (0x80 + c div 4096 mod 64)"
      using q b unfolding second4_ok_def by linarith
    moreover have "c div 64 = 64 * (c div 4096) + c div 64 mod 64"
      using div_mult2_eq [of c 64 64] by simp
    then have "c div 262144 * 262144 + c div 4096 mod 64 * 4096 + c div 64 mod 64 * 64 + c mod 64 = c"
      using q div_mult_mod_eq [of c 64] by linarith
    ultimately show ?thesis
      using utf8_next_four [OF b] four by (simp add: encode_utf8_def del: of_nat_add)
  qed
qed

lemma encode_utf8_not_Nil [simp]: "encode_utf8 c \<noteq> []"
  by (simp add: encode_utf8_def)

lemma as_bytes_Nil [simp]: "as_bytes [] = []"
  and as_bytes_Cons [simp]: "as_bytes (c # s) = encode_utf8 c @ as_bytes s"
  by (simp_all add: as_bytes_def)

lemma from_utf8_lossy_as_bytes: "list_all is_scalar s \<Longrightarrow> from_utf8_lossy (as_bytes s) = s"
proof (induction s)
  case (Cons c s)
  then show ?case
    by (subst from_utf8_lossy.simps) (simp add: utf8_next_encode)
qed simp

lemma from_utf8_as_bytes: "list_all is_scalar s \<Longrightarrow> from_utf8 (as_bytes s) = Some s"
proof (induction s)
  case (Cons c s)
  then show ?case
    by (subst from_utf8.simps) (simp add: utf8_next_encode)
qed simp

lemma from_utf8_lossy_ascii: "is_ascii bs \<Longrightarrow> from_utf8_lossy bs = map unat bs"
proof (induction bs)
  case (Cons b bs)
  then have "unat b < 128" by (simp add: is_ascii_def word_less_nat_alt)
  then have "utf8_next (b # bs) = (Some (unat b), 1)"
    by (simp add: utf8_next_def safe_get_def)
  with Cons show ?case
    by (subst from_utf8_lossy.simps) (simp add: is_ascii_def)
qed simp

section \<open>Number formats\<close>

definition digit_char :: "nat \<Rightarrow> rchar" where
  "digit_char d = (if d < 10 then 0x30 + d else 0x57 + d)"

fun digits :: "nat \<Rightarrow> nat \<Rightarrow> rstring" where
  "digits b n =
     (if b < 2 \<or> n < b then [digit_char n] else digits b (n div b) @ [digit_char (n mod b)])"

declare digits.simps [simp del]

definition fmt_dec :: "nat \<Rightarrow> rstring" where
  "fmt_dec n = digits 10 n"

definition pad_left :: "nat \<Rightarrow> rstring \<Rightarrow> rstring" where
  "pad_left w s = replicate (w - length s) 0x30 @ s"

text \<open>\<open>{:#x}\<close>, and \<open>{:#010x}\<close> / \<open>{:#06x}\<close> with their total width.\<close>

definition fmt_hex :: "nat \<Rightarrow> rstring" where
  "fmt_hex n = lit ''0x'' @ digits 16 n"

definition fmt_hex_width :: "nat \<Rightarrow> nat \<Rightarrow> rstring" where
  "fmt_hex_width w n = lit ''0x'' @ pad_left (w - 2) (digits 16 n)"

end
