(* ===== verification/ZipTypes.thy ===== *)
theory ZipTypes
  imports Text
begin

text \<open>
  The data types the components share: the error enums of \<open>core/src/lib.rs\<close> with
  their \<open>Display\<close> texts, and from \<open>core/src/archive.rs\<close> the compression
  methods, the parsed entry metadata, the container summary and the two header copies.
\<close>

section \<open>Compression methods\<close>

datatype compression_method =
    Stored | Deflated | Deflate64 | Bzip2 | Lzma | Zstd | Xz
  | Shrunk | Reduced | Imploded | DclImploded | IbmCmpsc | IbmTerse | IbmLz77
  | Mp3 | Jpeg | WavPack | Ppmd
  | Unknown u16

definition method_from_u16 :: "u16 \<Rightarrow> compression_method" where
  "method_from_u16 raw =
     (if raw = 0 then Stored
      else if raw = 8 then Deflated
      else if raw = 9 then Deflate64
      else if raw = 12 then Bzip2
      else if raw = 14 then Lzma
      else if raw = 93 then Zstd
      else if raw = 95 then Xz
      else if raw = 1 then Shrunk
      else if 2 \<le> raw \<and> raw \<le> 5 then Reduced
      else if raw = 6 then Imploded
      else if raw = 10 then DclImploded
      else if raw = 16 then IbmCmpsc
      else if raw = 18 then IbmTerse
      else if raw = 19 then IbmLz77
      else if raw = 94 then Mp3
      else if raw = 96 then Jpeg
      else if raw = 97 then WavPack
      else if raw = 98 then Ppmd
      else Unknown raw)"

text \<open>The derived \<open>Debug\<close> text, which error messages and audit notes print.\<close>

fun debug_method :: "compression_method \<Rightarrow> rstring" where
  "debug_method Stored = lit ''Stored''"
| "debug_method Deflated = lit ''Deflated''"
| "debug_method Deflate64 = lit ''Deflate64''"
| "debug_method Bzip2 = lit ''Bzip2''"
| "debug_method Lzma = lit ''Lzma''"
| "debug_method Zstd = lit ''Zstd''"
| "debug_method Xz = lit ''Xz''"
| "debug_method Shrunk = lit ''Shrunk''"
| "debug_method Reduced = lit ''Reduced''"
| "debug_method Imploded = lit ''Imploded''"
| "debug_method DclImploded = lit ''DclImploded''"
| "debug_method IbmCmpsc = lit ''IbmCmpsc''"
| "debug_method IbmTerse = lit ''IbmTerse''"
| "debug_method IbmLz77 = lit ''IbmLz77''"
| "debug_method Mp3 = lit ''Mp3''"
| "debug_method Jpeg = lit ''Jpeg''"
| "debug_method WavPack = lit ''WavPack''"
| "debug_method Ppmd = lit ''Ppmd''"
| "debug_method (Unknown raw) = lit ''Unknown('' @ fmt_dec (unat raw) @ lit '')''"

section \<open>Errors\<close>

datatype format_error =
    Truncated
  | NoEocd
  | BadSignature (what: rstring) (sig_offset: u64)
  | Zip64Unsupported
  | Zip64Inconsistent
  | CentralDirOutOfRange (bad_cd_offset: u64) (bad_cd_size: u64)
  | TooManyEntries usize

text \<open>
  \<open>std::io::Error\<close>: a kind with a message, or the \<open>Error::other\<close> wrapper around
  an error of this crate.
\<close>

datatype io_kind = UnexpectedEof | InvalidInput | InvalidData | NotFound | OtherKind

datatype zip_core_error =
    Io io_error
  | Format format_error
  | UnsupportedMethod compression_method
  | CrcMismatchError rstring u32 u32
  | EncryptedNoPassword rstring
  | WrongPassword rstring
  | UnsupportedEncryption rstring rstring
  | EntryNotFound rstring
  | IndexOutOfBounds usize
  | SpannedArchive rstring u32
  | Malformed rstring rstring
and io_error =
    IoError io_kind rstring
  | IoOther zip_core_error

fun display_format_error :: "format_error \<Rightarrow> rstring" where
  "display_format_error Truncated = lit ''unexpected end of data''"
| "display_format_error NoEocd = lit ''End Of Central Directory record not found''"
| "display_format_error (BadSignature w off) =
     lit ''bad signature for '' @ w @ lit '' at offset '' @ fmt_dec (unat off)"
| "display_format_error Zip64Unsupported = lit ''Zip64 archive not yet supported''"
| "display_format_error Zip64Inconsistent =
     lit ''Zip64 sentinel without a matching Zip64 record/extra field''"
| "display_format_error (CentralDirOutOfRange off sz) =
     lit ''central directory out of range: offset '' @ fmt_dec (unat off) @
     lit '', size '' @ fmt_dec (unat sz)"
| "display_format_error (TooManyEntries n) =
     lit ''declared entry count '' @ fmt_dec n @ lit '' exceeds the safety ceiling''"

fun display_zip_error :: "zip_core_error \<Rightarrow> rstring"
  and display_io_error :: "io_error \<Rightarrow> rstring" where
  "display_zip_error (Io e) = lit ''I/O error: '' @ display_io_error e"
| "display_zip_error (Format e) = lit ''malformed ZIP container: '' @ display_format_error e"
| "display_zip_error (UnsupportedMethod m) =
     lit ''unsupported compression method: '' @ debug_method m"
| "display_zip_error (CrcMismatchError entry expected actual) =
     lit ''CRC-32 mismatch in entry '' @ entry @ lit '': expected '' @
     fmt_hex_width 10 (unat expected) @ lit '', computed '' @ fmt_hex_width 10 (unat actual)"
| "display_zip_error (EncryptedNoPassword n) =
     lit ''entry is encrypted (password required): '' @ n"
| "display_zip_error (WrongPassword n) = lit ''incorrect password for entry: '' @ n"
| "display_zip_error (UnsupportedEncryption entry reason) =
     lit ''unsupported encryption for entry '' @ entry @ lit '': '' @ reason"
| "display_zip_error (EntryNotFound n) = lit ''entry not found: '' @ n"
| "display_zip_error (IndexOutOfBounds i) = lit ''entry index out of bounds: '' @ fmt_dec i"
| "display_zip_error (SpannedArchive entry disk) =
     lit ''entry '' @ entry @ lit '' is on disk '' @ fmt_dec (unat disk) @
     lit '' of a spanned archive (not supported)''"
| "display_zip_error (Malformed entry reason) =
     lit ''malformed deflate stream in entry '' @ entry @ lit '': '' @ reason"
| "display_io_error (IoError k msg) = msg"
| "display_io_error (IoOther e) = display_zip_error e"

text \<open>The error of a \<open>read_exact\<close> that meets the end of the data.\<close>

definition eof_error :: io_error where
  "eof_error = IoError UnexpectedEof (lit ''failed to fill whole buffer'')"

definition io_other_msg :: "rstring \<Rightarrow> io_error" where
  "io_other_msg msg = IoError OtherKind msg"

section \<open>Entries and summaries\<close>

record extra_fields =
  ntfs_mtime :: "u64 option"
  ntfs_atime :: "u64 option"
  ntfs_ctime :: "u64 option"
  unix_mtime :: "i32 option"
  unix_atime :: "i32 option"
  unix_ctime :: "i32 option"
  unicode_path :: "rstring option"
  unicode_comment :: "rstring option"

definition extra_fields_default :: extra_fields where
  "extra_fields_default =
     \<lparr> ntfs_mtime = None, ntfs_atime = None, ntfs_ctime = None,
       unix_mtime = None, unix_atime = None, unix_ctime = None,
       unicode_path = None, unicode_comment = None \<rparr>"

record aes_info =
  strength :: u8
  actual_method :: u16
  is_ae2 :: bool

record central_entry =
  ce_name :: rstring
  ce_method :: compression_method
  ce_flags :: u16
  ce_crc32 :: u32
  ce_compressed_size :: u64
  ce_uncompressed_size :: u64
  ce_lfh_offset :: u64
  ce_last_mod_time :: u16
  ce_aes :: "aes_info option"
  ce_disk_start :: u16
  ce_extra :: extra_fields

record archive_summary =
  file_len :: u64
  central_dir_offset :: u64
  central_dir_size :: u64
  eocd_end_offset :: u64
  comment_len :: u16
  disk_number :: u32
  cd_start_disk :: u32
  archive_signature_len :: "u16 option"

record header_fields =
  hf_name :: rstring
  hf_method :: compression_method
  hf_flags :: u16
  hf_crc32 :: u32
  hf_compressed_size :: u64
  hf_uncompressed_size :: u64

record entry_layout =
  el_index :: usize
  el_lfh_offset :: u64
  el_data_start :: u64
  el_central :: header_fields
  el_local :: header_fields
  el_extra :: extra_fields

text \<open>The general-purpose flag bits the code tests, each as \<open>flags & mask != 0\<close>.\<close>

definition has_bits :: "u16 \<Rightarrow> u16 \<Rightarrow> bool" where
  "has_bits flags m \<longleftrightarrow> and flags m \<noteq> 0"

end
