(* ===== verification/Bytes.thy ===== *)
theory Bytes
  imports ZipTypes
begin

text \<open>
  \<open>core/src/bytes.rs\<close>: the bounds-checked little-endian reader. The interface the
  parsers rely on is the locale \<open>byte_source\<close> (asking for \<open>n\<close> bytes yields
  exactly the next \<open>n\<close> bytes or an error, never a panic); the reader provides it here,
  and the positioned cursor provides it again in theory \<open>Io\<close>.
\<close>

section \<open>Consuming a prefix\<close>

text \<open>
  \<open>consumes rest valid m bs v\<close>: wherever the unread bytes start with \<open>bs\<close>, the
  computation \<open>m\<close> returns \<open>v\<close> and leaves exactly what follows \<open>bs\<close>. The rules compose it
  along \<open>seq\<close>, so that a parser is shown to invert an encoding field by field.
\<close>

definition consumes ::
  "('s \<Rightarrow> u8 list) \<Rightarrow> ('s \<Rightarrow> bool) \<Rightarrow> ('s, 'a, 'e) act \<Rightarrow> u8 list \<Rightarrow> 'a \<Rightarrow> bool" where
  "consumes rest valid m bs v \<longleftrightarrow>
     (\<forall>s t. valid s \<longrightarrow> rest s = bs @ t \<longrightarrow>
        (\<exists>s'. m s = (Ok v, s') \<and> rest s' = t \<and> valid s'))"

lemma consumesD:
  assumes "consumes rest valid m bs v" and "valid s" and "rest s = bs @ t"
  obtains s' where "m s = (Ok v, s')" "rest s' = t" "valid s'"
  using assms unfolding consumes_def by blast

lemma consumes_ret: "consumes rest valid (ret v) [] v"
  by (simp add: consumes_def)

lemma consumes_seq:
  assumes "consumes rest valid m bs v" and "consumes rest valid (f v) cs w"
  shows "consumes rest valid (seq m f) (bs @ cs) w"
  unfolding consumes_def
proof (intro allI impI)
  fix s t assume "valid s" "rest s = (bs @ cs) @ t"
  then have "rest s = bs @ (cs @ t)" by simp
  from consumesD [OF assms(1) \<open>valid s\<close> this] obtain s1 where
    1: "m s = (Ok v, s1)" "rest s1 = cs @ t" "valid s1" .
  from consumesD [OF assms(2) 1(3,2)] 1(1)
  show "\<exists>s'. seq m f s = (Ok w, s') \<and> rest s' = t \<and> valid s'" by auto
qed

lemma consumes_seq_last:
  assumes "consumes rest valid m bs v" and "consumes rest valid (f v) [] w"
  shows "consumes rest valid (seq m f) bs w"
  using consumes_seq [of rest valid m bs v f "[]" w] assms by simp

lemma consumes_with_err:
  "consumes rest valid m bs v \<Longrightarrow> consumes rest valid (with_err g m) bs v"
  unfolding consumes_def by (metis with_err_Ok)

lemma consumes_lift: "consumes rest valid (lift_outcome (Ok v)) [] v"
  by (simp add: consumes_def)

section \<open>The interface: a source of bytes\<close>

locale byte_source =
  fixes grab :: "usize \<Rightarrow> ('s, u8 list, 'e) act"
    and rest :: "'s \<Rightarrow> u8 list"
    and valid :: "'s \<Rightarrow> bool"
  assumes grab_enough: "valid s \<Longrightarrow> n \<le> length (rest s) \<Longrightarrow>
      \<exists>s'. grab n s = (Ok (take n (rest s)), s') \<and> rest s' = drop n (rest s) \<and> valid s'"
    and grab_short: "valid s \<Longrightarrow> length (rest s) < n \<Longrightarrow>
      \<exists>e s'. grab n s = (Err e, s') \<and> valid s'"
begin

lemma grab_cases:
  assumes "valid s"
  obtains (enough) s' where "n \<le> length (rest s)" "grab n s = (Ok (take n (rest s)), s')"
      "rest s' = drop n (rest s)" "valid s'"
    | (short) e s' where "length (rest s) < n" "grab n s = (Err e, s')" "valid s'"
proof (cases "n \<le> length (rest s)")
  case True
  then show ?thesis using grab_enough [OF assms] that(1) by blast
next
  case False
  then show ?thesis using grab_short [OF assms] that(2) by (meson not_le)
qed

lemma grab_OkD:
  assumes "valid s" and "grab n s = (Ok bs, s')"
  shows "rest s = bs @ rest s' \<and> length bs = n \<and> valid s'"
  using assms(1) by (rule grab_cases [of s n]) (use assms(2) in auto)

lemma grab_fine: "valid s \<Longrightarrow> fine (grab n) s"
  by (erule grab_cases [of s n]) (auto simp: fine_def)

lemma grab_valid: "valid s \<Longrightarrow> valid (snd (grab n s))"
  by (erule grab_cases [of s n]) auto

lemma grab_prefix:
  assumes "valid s" and "rest s = bs @ tail" and "length bs = n"
  shows "\<exists>s'. grab n s = (Ok bs, s') \<and> rest s' = tail \<and> valid s'"
  using grab_enough [OF assms(1), of n] assms by auto

lemma grab_consumes: "n = length bs \<Longrightarrow> consumes rest valid (grab n) bs bs"
  unfolding consumes_def using grab_prefix by auto

text \<open>Two reads in a row are one read of the sum, split at the boundary.\<close>

lemma grab_grab:
  assumes "valid s" and "grab m s = (Ok as, s1)" and "grab n s1 = (Ok bs, s2)"
  shows "\<exists>s'. grab (m + n) s = (Ok (as @ bs), s') \<and> rest s' = rest s2 \<and> valid s'"
proof -
  from grab_OkD [OF assms(1,2)] have 1: "rest s = as @ rest s1" "length as = m" "valid s1" by auto
  from grab_OkD [OF 1(3) assms(3)] have 2: "rest s1 = bs @ rest s2" "length bs = n" by auto
  from 1 2 have "rest s = (as @ bs) @ rest s2" "length (as @ bs) = m + n" by auto
  then show ?thesis by (rule grab_prefix [OF assms(1)])
qed

text \<open>A little-endian integer read from the source is the integer that was written.\<close>

lemma grab_int_roundtrip:
  fixes w :: "'a::len word"
  assumes "valid s" and "rest s = to_le_bytes n w @ tail" and "LENGTH('a) \<le> 8 * n"
  shows "\<exists>s'. seq (grab n) (\<lambda>b. ret (from_le_bytes b)) s = (Ok w, s') \<and> rest s' = tail \<and> valid s'"
  using grab_prefix [OF assms(1,2)] assms(3) by auto

end

section \<open>The reader\<close>

record reader =
  rd_data :: "u8 list"
  rd_pos :: usize

definition Reader_new :: "u8 list \<Rightarrow> reader" where
  "Reader_new data = \<lparr> rd_data = data, rd_pos = 0 \<rparr>"

definition remaining :: "reader \<Rightarrow> usize" where
  "remaining r = length (rd_data r) - rd_pos r"

definition Reader_take :: "usize \<Rightarrow> (reader, u8 list, format_error) act" where
  "Reader_take n r =
     (case checked_add_usize (rd_pos r) n of
        None \<Rightarrow> (Err Truncated, r)
      | Some end \<Rightarrow>
          (case slice_get (rd_data r) (rd_pos r) end of
             None \<Rightarrow> (Err Truncated, r)
           | Some bs \<Rightarrow> (Ok bs, r\<lparr>rd_pos := end\<rparr>)))"

definition Reader_skip :: "usize \<Rightarrow> (reader, unit, format_error) act" where
  "Reader_skip n = seq (Reader_take n) (\<lambda>_. ret ())"

definition Reader_u16 :: "(reader, u16, format_error) act" where
  "Reader_u16 = seq (Reader_take 2) (\<lambda>b. ret (from_le_bytes [b ! 0, b ! 1]))"

definition Reader_u32 :: "(reader, u32, format_error) act" where
  "Reader_u32 = seq (Reader_take 4) (\<lambda>b. ret (from_le_bytes [b ! 0, b ! 1, b ! 2, b ! 3]))"

definition Reader_u64 :: "(reader, u64, format_error) act" where
  "Reader_u64 = seq (Reader_take 8) (\<lambda>b. ret (from_le_bytes
     [b ! 0, b ! 1, b ! 2, b ! 3, b ! 4, b ! 5, b ! 6, b ! 7]))"

text \<open>
  A reader is well formed when its position is inside its slice and the slice has an
  allocatable length. \<open>unread\<close> is what it has still to deliver.
\<close>

definition reader_ok :: "reader \<Rightarrow> bool" where
  "reader_ok r \<longleftrightarrow> rd_pos r \<le> length (rd_data r) \<and> length (rd_data r) < 2 ^ 64"

definition unread :: "reader \<Rightarrow> u8 list" where
  "unread r = drop (rd_pos r) (rd_data r)"

lemma reader_ok_new [simp]: "reader_ok (Reader_new d) \<longleftrightarrow> length d < 2 ^ 64"
  by (simp add: reader_ok_def Reader_new_def)

lemma unread_new [simp]: "unread (Reader_new d) = d"
  by (simp add: unread_def Reader_new_def)

lemma data_new [simp]: "rd_data (Reader_new d) = d"
  by (simp add: Reader_new_def)

lemma remaining_eq: "remaining r = length (unread r)"
  by (simp add: remaining_def unread_def)

section \<open>What each read does\<close>

lemma Reader_take_ok:
  assumes "reader_ok r" and "n \<le> remaining r"
  shows "Reader_take n r = (Ok (take n (unread r)), r\<lparr>rd_pos := rd_pos r + n\<rparr>)"
  using assms
  by (auto simp: Reader_take_def checked_add_usize_def slice_get_def unread_def reader_ok_def
      remaining_def)

lemma Reader_take_short:
  assumes "remaining r < n"
  shows "Reader_take n r = (Err Truncated, r)"
  using assms
  by (auto simp: Reader_take_def checked_add_usize_def slice_get_def remaining_def)

lemma unread_advance [simp]: "unread (r\<lparr>rd_pos := rd_pos r + n\<rparr>) = drop n (unread r)"
  by (simp add: unread_def add.commute)

lemma reader_ok_advance:
  "reader_ok r \<Longrightarrow> n \<le> remaining r \<Longrightarrow> reader_ok (r\<lparr>rd_pos := rd_pos r + n\<rparr>)"
  by (auto simp: reader_ok_def remaining_def)

interpretation rdr: byte_source Reader_take unread reader_ok
proof (unfold_locales, goal_cases)
  case (1 s n)
  then show ?case
    by (auto simp: Reader_take_ok remaining_eq reader_ok_advance)
next
  case (2 s n)
  then show ?case by (auto simp: Reader_take_short remaining_eq)
qed

text \<open>The integer reads are reads of 2, 4 and 8 bytes; their indexing stays in range.\<close>

lemma list2: "length b = 2 \<Longrightarrow> [b ! 0, b ! 1] = b"
  by (rule nth_equalityI) (auto simp: nth_Cons' numeral_eq_Suc less_Suc_eq)

lemma list4: "length b = 4 \<Longrightarrow> [b ! 0, b ! 1, b ! 2, b ! 3] = b"
  by (rule nth_equalityI) (auto simp: nth_Cons' numeral_eq_Suc less_Suc_eq)

lemma list8: "length b = 8 \<Longrightarrow> [b ! 0, b ! 1, b ! 2, b ! 3, b ! 4, b ! 5, b ! 6, b ! 7] = b"
  by (rule nth_equalityI) (auto simp: nth_Cons' numeral_eq_Suc less_Suc_eq)

lemma Reader_u16_ok:
  assumes "reader_ok r" and "2 \<le> remaining r"
  shows "Reader_u16 r = (Ok (from_le_bytes (take 2 (unread r))), r\<lparr>rd_pos := rd_pos r + 2\<rparr>)"
  using assms
  by (simp add: Reader_u16_def Reader_take_ok remaining_eq list2 del: from_le_bytes.simps nth_take One_nat_def)

lemma Reader_u32_ok:
  assumes "reader_ok r" and "4 \<le> remaining r"
  shows "Reader_u32 r = (Ok (from_le_bytes (take 4 (unread r))), r\<lparr>rd_pos := rd_pos r + 4\<rparr>)"
  using assms
  by (simp add: Reader_u32_def Reader_take_ok remaining_eq list4 del: from_le_bytes.simps nth_take One_nat_def)

lemma Reader_u64_ok:
  assumes "reader_ok r" and "8 \<le> remaining r"
  shows "Reader_u64 r = (Ok (from_le_bytes (take 8 (unread r))), r\<lparr>rd_pos := rd_pos r + 8\<rparr>)"
  using assms
  by (simp add: Reader_u64_def Reader_take_ok remaining_eq list8 del: from_le_bytes.simps nth_take One_nat_def)

lemma Reader_u16_short: "remaining r < 2 \<Longrightarrow> Reader_u16 r = (Err Truncated, r)"
  by (simp add: Reader_u16_def Reader_take_short)

lemma Reader_u32_short: "remaining r < 4 \<Longrightarrow> Reader_u32 r = (Err Truncated, r)"
  by (simp add: Reader_u32_def Reader_take_short)

lemma Reader_u64_short: "remaining r < 8 \<Longrightarrow> Reader_u64 r = (Err Truncated, r)"
  by (simp add: Reader_u64_def Reader_take_short)

lemmas reader_reads = Reader_take_ok Reader_u16_ok Reader_u32_ok Reader_u64_ok
lemmas reader_shorts = Reader_take_short Reader_u16_short Reader_u32_short Reader_u64_short

text \<open>No read panics, and a failed read leaves the reader where it was.\<close>

lemma Reader_take_fine [no_panic]: "fine (Reader_take n) r"
  by (auto simp: fine_def Reader_take_def split: option.splits)

lemma Reader_skip_fine [no_panic]: "fine (Reader_skip n) r"
  unfolding Reader_skip_def by (auto simp: no_panic intro!: seq_fine)

lemma Reader_u16_fine [no_panic]: "fine Reader_u16 r"
  unfolding Reader_u16_def by (auto simp: no_panic intro!: seq_fine)

lemma Reader_u32_fine [no_panic]: "fine Reader_u32 r"
  unfolding Reader_u32_def by (auto simp: no_panic intro!: seq_fine)

lemma Reader_u64_fine [no_panic]: "fine Reader_u64 r"
  unfolding Reader_u64_def by (auto simp: no_panic intro!: seq_fine)

lemma Reader_take_progress:
  "Reader_take n r = (Ok b, r') \<Longrightarrow>
     length b = n \<and> remaining r' = remaining r - n \<and> rd_data r' = rd_data r \<and> n \<le> remaining r"
  by (auto simp: Reader_take_def remaining_def slice_get_eq_Some checked_add_usize_def
      split: option.splits if_splits)

lemma Reader_u16_progress:
  "Reader_u16 r = (Ok v, r') \<Longrightarrow> remaining r' = remaining r - 2 \<and> rd_data r' = rd_data r \<and> 2 \<le> remaining r"
  by (auto simp: Reader_u16_def seq_eq_Ok dest: Reader_take_progress)

lemma Reader_take_keeps_ok:
  "reader_ok r \<Longrightarrow> Reader_take n r = (v, r') \<Longrightarrow> reader_ok r'"
  using rdr.grab_valid [of r n] by simp


section \<open>The reads as inverses of the encodings\<close>

abbreviation parses :: "(reader, 'a, 'e) act \<Rightarrow> u8 list \<Rightarrow> 'a \<Rightarrow> bool" where
  "parses \<equiv> consumes unread reader_ok"

lemma parses_u16: "parses Reader_u16 (le16 v) v"
proof -
  have "[le16 v ! 0, le16 v ! 1] = le16 v" by (rule list2) simp
  moreover have "from_le_bytes (le16 v) = v" by (rule from_le_bytes_to_le_bytes) simp
  ultimately have "from_le_bytes [le16 v ! 0, le16 v ! 1] = v" by (simp only:)
  then show ?thesis
    unfolding Reader_u16_def
    by (intro consumes_seq_last [of _ _ _ "le16 v" "le16 v"] rdr.grab_consumes)
      (simp_all only: consumes_ret length_to_le_bytes)
qed

lemma parses_u32: "parses Reader_u32 (le32 v) v"
proof -
  have "[le32 v ! 0, le32 v ! 1, le32 v ! 2, le32 v ! 3] = le32 v" by (rule list4) simp
  moreover have "from_le_bytes (le32 v) = v" by (rule from_le_bytes_to_le_bytes) simp
  ultimately have "from_le_bytes [le32 v ! 0, le32 v ! 1, le32 v ! 2, le32 v ! 3] = v" by (simp only:)
  then show ?thesis
    unfolding Reader_u32_def
    by (intro consumes_seq_last [of _ _ _ "le32 v" "le32 v"] rdr.grab_consumes)
      (simp_all only: consumes_ret length_to_le_bytes)
qed

lemma parses_u64: "parses Reader_u64 (le64 v) v"
proof -
  have "[le64 v ! 0, le64 v ! 1, le64 v ! 2, le64 v ! 3, le64 v ! 4, le64 v ! 5, le64 v ! 6, le64 v ! 7] = le64 v" by (rule list8) simp
  moreover have "from_le_bytes (le64 v) = v" by (rule from_le_bytes_to_le_bytes) simp
  ultimately have "from_le_bytes [le64 v ! 0, le64 v ! 1, le64 v ! 2, le64 v ! 3, le64 v ! 4, le64 v ! 5, le64 v ! 6, le64 v ! 7] = v" by (simp only:)
  then show ?thesis
    unfolding Reader_u64_def
    by (intro consumes_seq_last [of _ _ _ "le64 v" "le64 v"] rdr.grab_consumes)
      (simp_all only: consumes_ret length_to_le_bytes)
qed

lemma parses_take: "n = length bs \<Longrightarrow> parses (Reader_take n) bs bs"
  by (rule rdr.grab_consumes)

lemma parses_run:
  assumes "parses m bs v" and "length (bs @ t) < 2 ^ 64"
  shows "fst (m (Reader_new (bs @ t))) = Ok v"
proof -
  have "reader_ok (Reader_new (bs @ t))" using assms(2) by (simp only: reader_ok_new)
  from consumesD [OF assms(1) this unread_new] obtain s' where
    "m (Reader_new (bs @ t)) = (Ok v, s')" .
  then show ?thesis by simp
qed

lemmas parses_intros = consumes_seq consumes_ret consumes_with_err
  parses_u16 parses_u32 parses_u64 parses_take

section \<open>How far a successful parse moves\<close>

definition advances :: "nat \<Rightarrow> (reader, 'a, 'e) act \<Rightarrow> bool" where
  "advances k m \<longleftrightarrow> (\<forall>r a r'. m r = (Ok a, r') \<longrightarrow>
     remaining r' + k \<le> remaining r \<and> rd_data r' = rd_data r)"

lemma advancesD:
  "advances k m \<Longrightarrow> m r = (Ok a, r') \<Longrightarrow> remaining r' + k \<le> remaining r \<and> rd_data r' = rd_data r"
  by (simp add: advances_def)

lemma advances_seq: "advances j m \<Longrightarrow> (\<And>a. advances k (f a)) \<Longrightarrow> advances (j + k) (seq m f)"
  unfolding advances_def by (fastforce simp: seq_eq_Ok)

lemma advances_with_err: "advances k m \<Longrightarrow> advances k (with_err g m)"
  by (simp add: advances_def)

lemma advances_ret: "advances 0 (ret a)" and advances_lift: "advances 0 (lift_outcome v)"
  and advances_fail: "advances k (fail e)"
  by (simp_all add: advances_def)

lemma advances_weaken: "advances k m \<Longrightarrow> j \<le> k \<Longrightarrow> advances j m"
  unfolding advances_def by fastforce

lemma advances_take: "advances n (Reader_take n)" and advances_take0: "advances 0 (Reader_take n)"
  by (auto simp: advances_def dest: Reader_take_progress)

lemma advances_u16: "advances 2 Reader_u16" and advances_u32: "advances 4 Reader_u32"
  and advances_u64: "advances 8 Reader_u64"
  unfolding Reader_u16_def Reader_u32_def Reader_u64_def
  using advances_seq [OF advances_take advances_ret, of 2] advances_seq [OF advances_take advances_ret, of 4]
    advances_seq [OF advances_take advances_ret, of 8] by simp_all

lemmas advances_ints = advances_u16 advances_u32 advances_u64

section \<open>The reader as a whole\<close>

text \<open>
  Taking bytes either returns exactly the next ones and advances past them, or reports
  truncation and leaves the reader where it was; there is no third case.
\<close>

theorem reader_take_exact:
  assumes "reader_ok r"
  shows "Reader_take n r =
    (if n \<le> remaining r then (Ok (take n (unread r)), r\<lparr>rd_pos := rd_pos r + n\<rparr>) else (Err Truncated, r)) \<and>
    reader_ok (snd (Reader_take n r))"
  using assms by (simp add: Reader_take_ok Reader_take_short reader_ok_advance not_le)

theorem reader_take_exact_witness:
  "Reader_take 2 (Reader_new [1, 2, 3]) = (Ok [1, 2], \<lparr> rd_data = [1, 2, 3], rd_pos = 2 \<rparr>) \<and>
   Reader_take 4 (Reader_new [1, 2, 3]) = (Err Truncated, Reader_new [1, 2, 3])"
  using reader_take_exact [of "Reader_new [1, 2, 3]" 2] reader_take_exact [of "Reader_new [1, 2, 3]" 4]
  by (simp add: remaining_eq) (simp add: Reader_new_def)

end
