(* ===== verification/Io.thy ===== *)
theory Io
  imports Bytes
begin

text \<open>
  The parts of \<open>std::io\<close> the crate stands on: a seekable in-memory file
  (\<open>Cursor<Vec<u8>>\<close>, or a \<open>File\<close> whose contents do not change), \<open>Read::take\<close>,
  \<open>read_exact\<close> and \<open>read_to_end\<close>. A \<open>read\<close> is a function from the buffer length
  to the bytes it put there. The interface between the layered readers of the crate
  (decryption over \<open>Take\<close> over the file) is the locale \<open>read_stream\<close>.
\<close>

section \<open>The file\<close>

record cursor =
  cu_data :: "u8 list"
  cu_pos :: nat

definition cursor_new :: "u8 list \<Rightarrow> cursor" where
  "cursor_new d = \<lparr> cu_data = d, cu_pos = 0 \<rparr>"

definition ahead :: "cursor \<Rightarrow> u8 list" where
  "ahead c = drop (cu_pos c) (cu_data c)"

definition seek_start :: "u64 \<Rightarrow> (cursor, unit, io_error) act" where
  "seek_start off c = (Ok (), c\<lparr>cu_pos := unat off\<rparr>)"

definition seek_end :: "(cursor, u64, io_error) act" where
  "seek_end c = (Ok (of_nat (length (cu_data c))), c\<lparr>cu_pos := length (cu_data c)\<rparr>)"

definition cursor_read :: "nat \<Rightarrow> (cursor, u8 list, io_error) act" where
  "cursor_read n c =
     (let bs = take n (ahead c) in (Ok bs, c\<lparr>cu_pos := cu_pos c + length bs\<rparr>))"

definition cursor_read_exact :: "nat \<Rightarrow> (cursor, u8 list, io_error) act" where
  "cursor_read_exact n c =
     (if n \<le> length (ahead c) then (Ok (take n (ahead c)), c\<lparr>cu_pos := cu_pos c + n\<rparr>)
      else (Err eof_error, c\<lparr>cu_pos := length (cu_data c)\<rparr>))"

text \<open>The positioned read of a file, \<open>read_exact_at\<close>, which has no cursor.\<close>

definition pread_exact :: "u8 list \<Rightarrow> nat \<Rightarrow> u64 \<Rightarrow> (u8 list, io_error) outcome" where
  "pread_exact file n off =
     (if unat off + n \<le> length file \<or> n = 0 then Ok (take n (drop (unat off) file))
      else Err eof_error)"

lemma ahead_new [simp]: "ahead (cursor_new d) = d"
  by (simp add: ahead_def cursor_new_def)

lemma cu_data_new [simp]: "cu_data (cursor_new d) = d"
  by (simp add: cursor_new_def)

lemma ahead_advance [simp]: "ahead (c\<lparr>cu_pos := cu_pos c + n\<rparr>) = drop n (ahead c)"
  by (simp add: ahead_def add.commute)

lemma ahead_seek [simp]: "ahead (c\<lparr>cu_pos := p\<rparr>) = drop p (cu_data c)"
  by (simp add: ahead_def)

interpretation cursor_exact: byte_source cursor_read_exact ahead "\<lambda>c. True"
  by unfold_locales (auto simp: cursor_read_exact_def)

lemma cursor_read_exact_fine [no_panic]: "fine (cursor_read_exact n) c"
  by (simp add: cursor_exact.grab_fine)

lemma seek_start_fine [no_panic]: "fine (seek_start off) c"
  by (simp add: fine_def seek_start_def)

lemma seek_end_fine [no_panic]: "fine seek_end c"
  by (simp add: fine_def seek_end_def)

lemma cursor_read_exact_data: "cu_data (snd (cursor_read_exact n c)) = cu_data c"
  by (simp add: cursor_read_exact_def)

lemma cursor_read_exact_at:
  assumes "p + n \<le> length (cu_data c)"
  shows "cursor_read_exact n (c\<lparr>cu_pos := p\<rparr>) =
    (Ok (take n (drop p (cu_data c))), c\<lparr>cu_pos := p + n\<rparr>)"
  using assms by (simp add: cursor_read_exact_def)

lemma cursor_read_exact_at_short:
  assumes "length (cu_data c) - p < n"
  shows "cursor_read_exact n (c\<lparr>cu_pos := p\<rparr>) =
    (Err eof_error, c\<lparr>cu_pos := length (cu_data c)\<rparr>)"
  using assms by (simp add: cursor_read_exact_def)

text \<open>No operation on the cursor changes the file.\<close>

definition keeps_data :: "(cursor, 'a, 'e) act \<Rightarrow> bool" where
  "keeps_data m \<longleftrightarrow> (\<forall>c. cu_data (snd (m c)) = cu_data c)"

lemma keeps_dataD: "keeps_data m \<Longrightarrow> m c = (v, c') \<Longrightarrow> cu_data c' = cu_data c"
  unfolding keeps_data_def by (metis snd_conv)

lemma keeps_data_seq: "keeps_data m \<Longrightarrow> (\<And>a. keeps_data (f a)) \<Longrightarrow> keeps_data (seq m f)"
  unfolding keeps_data_def seq_def by (auto split: prod.splits outcome.splits) (metis snd_conv)+

lemma keeps_data_simps [simp]:
  "keeps_data (ret a)" "keeps_data (fail e)" "keeps_data (lift_outcome v)"
  "keeps_data (with_err g m) \<longleftrightarrow> keeps_data m"
  "keeps_data (seek_start off)" "keeps_data seek_end" "keeps_data (cursor_read_exact n)"
  by (auto simp: keeps_data_def seek_start_def seek_end_def cursor_read_exact_def)

lemma keeps_data_if [simp]:
  "keeps_data (if b then m else m') \<longleftrightarrow> (if b then keeps_data m else keeps_data m')"
  by simp

section \<open>Take\<close>

record 's take_reader =
  tk_inner :: 's
  tk_limit :: u64

definition take_new :: "'s \<Rightarrow> u64 \<Rightarrow> 's take_reader" where
  "take_new s n = \<lparr> tk_inner = s, tk_limit = n \<rparr>"

definition take_read ::
  "(nat \<Rightarrow> ('s, u8 list, io_error) act) \<Rightarrow> nat \<Rightarrow> ('s take_reader, u8 list, io_error) act" where
  "take_read rd n t =
     (if tk_limit t = 0 then (Ok [], t)
      else case rd (min n (unat (tk_limit t))) (tk_inner t) of
        (Ok bs, i) \<Rightarrow>
          if unat (tk_limit t) < length bs then (Panic, t\<lparr>tk_inner := i\<rparr>)
          else (Ok bs, t\<lparr>tk_inner := i, tk_limit := tk_limit t - of_nat (length bs)\<rparr>)
      | (Err e, i) \<Rightarrow> (Err e, t\<lparr>tk_inner := i\<rparr>)
      | (Panic, i) \<Rightarrow> (Panic, t\<lparr>tk_inner := i\<rparr>))"

section \<open>read_exact and read_to_end\<close>

text \<open>
  The default \<open>read_exact\<close> asks for what is missing until the buffer is full; an empty
  read is the end of the data. \<open>read_to_end\<close> reads until an empty read; the lengths of
  the buffers it offers are the library's business, so they are a parameter
  \<open>sizes\<close>, and a stream that never ends is \<open>None\<close>.
\<close>

function read_exact ::
  "(nat \<Rightarrow> ('s, u8 list, io_error) act) \<Rightarrow> nat \<Rightarrow> ('s, u8 list, io_error) act" where
  "read_exact rd n s =
     (if n = 0 then (Ok [], s)
      else case rd n s of
        (Ok bs, s') \<Rightarrow>
          if bs = [] then (Err eof_error, s')
          else if n < length bs then (Panic, s')
          else (case read_exact rd (n - length bs) s' of
                  (Ok cs, s'') \<Rightarrow> (Ok (bs @ cs), s'')
                | (Err e, s'') \<Rightarrow> (Err e, s'')
                | (Panic, s'') \<Rightarrow> (Panic, s''))
      | (Err e, s') \<Rightarrow> (Err e, s')
      | (Panic, s') \<Rightarrow> (Panic, s'))"
  by pat_completeness auto
termination
  by (relation "measure (\<lambda>(rd, n, s). n)") auto

declare read_exact.simps [simp del]

partial_function (option) read_to_end ::
  "(nat \<Rightarrow> ('s, u8 list, io_error) act) \<Rightarrow> (nat \<Rightarrow> nat) \<Rightarrow> nat \<Rightarrow> u8 list \<Rightarrow> 's
     \<Rightarrow> ((u8 list, io_error) outcome \<times> 's) option" where
  "read_to_end rd sizes i acc s =
     (case rd (sizes i) s of
        (Ok bs, s') \<Rightarrow>
          if bs = [] then Some (Ok acc, s')
          else read_to_end rd sizes (Suc i) (acc @ bs) s'
      | (Err e, s') \<Rightarrow> Some (Err e, s')
      | (Panic, s') \<Rightarrow> Some (Panic, s'))"

text \<open>An induction along the reads of a \<open>read_to_end\<close> that ends.\<close>

lemma read_to_end_induct [consumes 1, case_names eof data err panic]:
  assumes "read_to_end rd sizes i acc s = Some (v, t)"
    and "\<And>i acc s t. rd (sizes i) s = (Ok [], t) \<Longrightarrow> P i acc s (Ok acc) t"
    and "\<And>i acc s bs s' v t. rd (sizes i) s = (Ok bs, s') \<Longrightarrow> bs \<noteq> [] \<Longrightarrow>
      read_to_end rd sizes (Suc i) (acc @ bs) s' = Some (v, t) \<Longrightarrow>
      P (Suc i) (acc @ bs) s' v t \<Longrightarrow> P i acc s v t"
    and "\<And>i acc s e t. rd (sizes i) s = (Err e, t) \<Longrightarrow> P i acc s (Err e) t"
    and "\<And>i acc s t. rd (sizes i) s = (Panic, t) \<Longrightarrow> P i acc s Panic t"
  shows "P i acc s v t"
proof -
  have "read_to_end rd0 sz i acc s = Some r \<and> (rd0 = rd \<longrightarrow> sz = sizes \<longrightarrow> P i acc s (fst r) (snd r))"
    if "read_to_end rd0 sz i acc s = Some r" for rd0 sz i acc s r
    using that
  proof (induction rule: read_to_end.raw_induct [rotated, consumes 1])
    case (1 rte rd0 sz i acc s r)
    note eq = read_to_end.simps [of rd0 sz i acc s]
    obtain v s' where rd: "rd0 (sz i) s = (v, s')" by (rule prod.exhaust)
    show ?case
    proof (cases v)
      case (Ok bs)
      show ?thesis
      proof (cases "bs = []")
        case True
        with 1(2) rd Ok assms(2) show ?thesis by (auto simp: eq)
      next
        case False
        with 1(2) rd Ok have "rte rd0 sz (Suc i) (acc @ bs) s' = Some r" by simp
        from 1(1) [OF this] rd Ok False assms(3) [of i s bs s' acc "fst r" "snd r"] show ?thesis
          by (auto simp: eq)
      qed
    qed (use 1(2) rd assms(4,5) in \<open>auto simp: eq\<close>)
  qed
  from this [OF assms(1)] show ?thesis by simp
qed

lemma read_to_end_extends:
  assumes "read_to_end rd sizes i acc s = Some (Ok out, t)"
  shows "length acc \<le> length out"
proof -
  have "v = Ok out \<longrightarrow> length acc \<le> length out" if "read_to_end rd sizes i acc s = Some (v, t)" for v
    using that by (induction rule: read_to_end_induct) auto
  with assms show ?thesis by blast
qed

section \<open>The interface of a reader\<close>

text \<open>
  A reader with a known content: every read with a non-empty buffer returns a non-empty
  prefix of what is left, of whatever length it likes, and an empty result exactly at
  the end.
\<close>

locale read_stream =
  fixes rd :: "nat \<Rightarrow> ('s, u8 list, io_error) act"
    and content :: "'s \<Rightarrow> u8 list"
    and inv :: "'s \<Rightarrow> bool"
  assumes rd_some: "inv s \<Longrightarrow> 0 < n \<Longrightarrow> content s \<noteq> [] \<Longrightarrow>
      \<exists>k s'. 0 < k \<and> k \<le> n \<and> k \<le> length (content s) \<and>
        rd n s = (Ok (take k (content s)), s') \<and> content s' = drop k (content s) \<and> inv s'"
    and rd_eof: "inv s \<Longrightarrow> 0 < n \<Longrightarrow> content s = [] \<Longrightarrow>
      \<exists>s'. rd n s = (Ok [], s') \<and> content s' = [] \<and> inv s'"
begin

text \<open>Whatever the buffer sizes, reading to the end terminates with the content.\<close>

lemma read_to_end_content:
  assumes "inv s" and "\<And>i. 0 < sizes i"
  shows "\<exists>s'. read_to_end rd sizes i acc s = Some (Ok (acc @ content s), s') \<and>
    content s' = [] \<and> inv s'"
  using assms(1)
proof (induction "length (content s)" arbitrary: s i acc rule: less_induct)
  case less
  show ?case
  proof (cases "content s = []")
    case True
    then obtain s' where "rd (sizes i) s = (Ok [], s')" "content s' = []" "inv s'"
      using rd_eof [OF less.prems assms(2)] by blast
    with True show ?thesis by (subst read_to_end.simps) simp
  next
    case False
    then obtain k s' where k: "0 < k" "k \<le> length (content s)"
      and rd: "rd (sizes i) s = (Ok (take k (content s)), s')"
      and s': "content s' = drop k (content s)" "inv s'"
      using rd_some [OF less.prems assms(2)] by blast
    from k s' have "length (content s') < length (content s)" by simp
    from less.hyps [OF this s'(2), of "Suc i" "acc @ take k (content s)"] obtain t where
      "read_to_end rd sizes (Suc i) (acc @ take k (content s)) s' = Some (Ok (acc @ content s), t)"
      "content t = []" "inv t"
      by (auto simp: s'(1))
    with False k rd show ?thesis by (subst read_to_end.simps) auto
  qed
qed

lemma read_exact_enough:
  assumes "inv s" and "n \<le> length (content s)"
  shows "\<exists>s'. read_exact rd n s = (Ok (take n (content s)), s') \<and>
    content s' = drop n (content s) \<and> inv s'"
  using assms
proof (induction n arbitrary: s rule: less_induct)
  case (less n)
  show ?case
  proof (cases "n = 0")
    case True
    with less.prems show ?thesis by (subst read_exact.simps) simp
  next
    case False
    with less.prems obtain k s' where k: "0 < k" "k \<le> n" "k \<le> length (content s)"
      and rd: "rd n s = (Ok (take k (content s)), s')"
      and s': "content s' = drop k (content s)" "inv s'"
      using rd_some [of s n] by force
    from k False have "n - k < n" by simp
    moreover from k s' less.prems have "n - k \<le> length (content s')" by simp
    ultimately obtain t where t: "read_exact rd (n - k) s' = (Ok (take (n - k) (content s')), t)"
      "content t = drop (n - k) (content s')" "inv t"
      using less.IH s'(2) by blast
    have "take k (content s) @ take (n - k) (drop k (content s)) = take n (content s)"
      using k by (simp flip: take_add)
    with t k rd s' False show ?thesis
      by (subst read_exact.simps) (auto simp: min_absorb2)
  qed
qed

lemma read_exact_short:
  assumes "inv s" and "length (content s) < n"
  shows "\<exists>s'. read_exact rd n s = (Err eof_error, s') \<and> inv s'"
  using assms
proof (induction n arbitrary: s rule: less_induct)
  case (less n)
  show ?case
  proof (cases "content s = []")
    case True
    with less.prems obtain s' where "rd n s = (Ok [], s')" "inv s'"
      using rd_eof [of s n] by auto
    with less.prems show ?thesis by (subst read_exact.simps) auto
  next
    case False
    with less.prems obtain k s' where k: "0 < k" "k \<le> n" "k \<le> length (content s)"
      and rd: "rd n s = (Ok (take k (content s)), s')"
      and s': "content s' = drop k (content s)" "inv s'"
      using rd_some [of s n] by force
    from k less.prems have "n - k < n" "length (content s') < n - k" by (simp_all add: s')
    then obtain t where "read_exact rd (n - k) s' = (Err eof_error, t)" "inv t"
      using less.IH s'(2) by blast
    with False k rd less.prems show ?thesis
      by (subst read_exact.simps) (auto simp: min_absorb2)
  qed
qed

lemma read_exact_cases:
  assumes "inv s"
  obtains (enough) s' where "n \<le> length (content s)"
      "with_err Io (read_exact rd n) s = (Ok (take n (content s)), s')"
      "content s' = drop n (content s)" "inv s'"
    | (short) s' where "length (content s) < n" "with_err Io (read_exact rd n) s = (Err (Io eof_error), s')" "inv s'"
proof (cases "n \<le> length (content s)")
  case True
  with read_exact_enough [OF assms True] enough show ?thesis by auto
next
  case False
  then have "length (content s) < n" by simp
  with read_exact_short [OF assms this] short show ?thesis by (auto simp: with_err_def)
qed

text \<open>A limited view of the stream is again such a stream, of the prefix.\<close>

lemma take_stream:
  "read_stream (take_read rd) (\<lambda>t. take (unat (tk_limit t)) (content (tk_inner t)))
     (\<lambda>t. inv (tk_inner t))"
proof (unfold_locales, goal_cases)
  case (1 t n)
  then have lim: "tk_limit t \<noteq> 0" "content (tk_inner t) \<noteq> []" by auto
  let ?m = "min n (unat (tk_limit t))"
  have "0 < ?m" using 1(2) lim(1) by (simp add: unat_gt_0)
  from rd_some [OF 1(1) this lim(2)] obtain k s' where k: "0 < k" "k \<le> ?m"
    "k \<le> length (content (tk_inner t))"
    and rd: "rd ?m (tk_inner t) = (Ok (take k (content (tk_inner t))), s')"
    and s': "content s' = drop k (content (tk_inner t))" "inv s'"
    by blast
  let ?t = "t\<lparr>tk_inner := s', tk_limit := tk_limit t - of_nat k\<rparr>"
  have lk: "unat (tk_limit t - of_nat k) = unat (tk_limit t) - k"
  proof -
    have "k < 2 ^ 64" using k(2) le_less_trans [OF _ unat_lt64, of k "tk_limit t"] by simp
    then have "unat (of_nat k :: u64) = k" by (simp add: unat_of_nat64)
    moreover from this have "of_nat k \<le> tk_limit t" using k(2) by (simp add: word_le_nat_alt)
    ultimately show ?thesis by (simp add: unat_sub)
  qed
  have "take_read rd n t = (Ok (take k (content (tk_inner t))), ?t)"
    using lim rd k by (auto simp: take_read_def min_absorb2)
  then show ?case
    using k s' lk by (intro exI [of _ k] exI [of _ ?t]) (auto simp: min_absorb1 drop_take)
next
  case (2 t n)
  show ?case
  proof (cases "tk_limit t = 0")
    case True
    with 2 show ?thesis by (simp add: take_read_def)
  next
    case False
    with 2 have e: "content (tk_inner t) = []" by (simp add: unat_gt_0 unat_eq_0)
    from False 2(2) have "0 < min n (unat (tk_limit t))" by (simp add: unat_gt_0)
    from rd_eof [OF 2(1) this e] obtain s' where
      "rd (min n (unat (tk_limit t))) (tk_inner t) = (Ok [], s')" "content s' = []" "inv s'"
      by blast
    with False show ?thesis by (simp add: take_read_def)
  qed
qed

end

text \<open>Every such reader gives, through \<open>read_exact\<close>, a source of bytes.\<close>

sublocale read_stream \<subseteq> exact: byte_source "read_exact rd" content inv
proof (unfold_locales, goal_cases)
  case (1 s n)
  then show ?case by (rule read_exact_enough)
next
  case (2 s n)
  then show ?case using read_exact_short by blast
qed

section \<open>The file and its limited views provide the interface\<close>

interpretation cur: read_stream cursor_read ahead "\<lambda>c. True"
proof (unfold_locales, goal_cases)
  case (1 s n)
  then show ?case
    by (intro exI [of _ "min n (length (ahead s))"])
       (auto simp: cursor_read_def Let_def min_def)
next
  case (2 s n)
  then show ?case by (simp add: cursor_read_def)
qed

abbreviation window :: "cursor take_reader \<Rightarrow> u8 list" where
  "window t \<equiv> take (unat (tk_limit t)) (ahead (tk_inner t))"

interpretation win: read_stream "take_read cursor_read" window "\<lambda>t. True"
  by (rule cur.take_stream)

end
