(* ===== verification/WindowsRead.thy ===== *)
theory WindowsRead
  imports Io
begin

text \<open>
  The Windows variant of \<open>pread_exact\<close> in \<open>core/src/lib.rs\<close>, a loop over \<open>seek_read\<close>, where Unix has
  \<open>read_exact_at\<close>. \<open>seek_read\<close> is the system's: a parameter, its contract the locale
  \<open>positioned_file\<close>. The rest of the development uses the Unix variant; the two agree, so what is
  proved of positioned reads holds on both.
\<close>

definition short_read_error :: io_error where
  "short_read_error = IoError UnexpectedEof (lit ''short positioned read'')"

text \<open>\<open>acc\<close> is the part of the buffer filled so far, \<open>buf[..read]\<close>.\<close>

function pread_loop ::
  "(usize \<Rightarrow> u64 \<Rightarrow> (u8 list, io_error) outcome) \<Rightarrow> usize \<Rightarrow> u64 \<Rightarrow> u8 list \<Rightarrow> (u8 list, io_error) outcome" where
  "pread_loop seek_read n offset acc =
     (if length acc < n then
        (case and_then (add64 offset (of_nat (length acc))) (seek_read (n - length acc)) of
           Ok got \<Rightarrow> if got = [] then Err short_read_error else pread_loop seek_read n offset (acc @ got)
         | Err e \<Rightarrow> Err e
         | Panic \<Rightarrow> Panic)
      else Ok acc)"
  by pat_completeness auto
termination by (relation "measure (\<lambda>(_, n, _, acc). n - length acc)") (auto simp: neq_Nil_conv)

declare pread_loop.simps [simp del]

definition pread_exact_windows ::
  "(usize \<Rightarrow> u64 \<Rightarrow> (u8 list, io_error) outcome) \<Rightarrow> usize \<Rightarrow> u64 \<Rightarrow> (u8 list, io_error) outcome" where
  "pread_exact_windows seek_read n offset = pread_loop seek_read n offset []"

text \<open>A file that does not change: any non-empty part of what was asked for, nothing only at its end.\<close>

locale positioned_file =
  fixes seek_read :: "usize \<Rightarrow> u64 \<Rightarrow> (u8 list, io_error) outcome"
    and contents :: "u8 list"
  assumes inside: "0 < n \<Longrightarrow> unat offset < length contents \<Longrightarrow>
      \<exists>k. 0 < k \<and> k \<le> n \<and> k \<le> length contents - unat offset \<and>
        seek_read n offset = Ok (take k (drop (unat offset) contents))"
    and outside: "0 < n \<Longrightarrow> length contents \<le> unat offset \<Longrightarrow> seek_read n offset = Ok []"
begin

lemma pread_loop_from:
  assumes "length contents < 2 ^ 64" and "k \<le> n" and "k = 0 \<or> unat offset + k \<le> length contents"
  shows "pread_loop seek_read n offset (take k (drop (unat offset) contents)) =
    (if n = 0 \<or> unat offset + n \<le> length contents then Ok (take n (drop (unat offset) contents))
     else Err short_read_error)"
  using assms(2,3)
proof (induction "n - k" arbitrary: k rule: less_induct)
  case less
  let ?acc = "take k (drop (unat offset) contents)"
  have len: "length ?acc = k" using less.prems by auto
  show ?case
  proof (cases "k < n")
    case False
    with less.prems len show ?thesis by (auto simp: pread_loop.simps)
  next
    case True
    have "unat offset + k < 2 ^ 64" using less.prems(2) assms(1) unat_lt64 [of offset] by auto
    then have pos: "add64 offset (of_nat k) = (Ok (offset + of_nat k) :: (u64, io_error) outcome)"
      "unat (offset + of_nat k) = unat offset + k"
      by (simp_all add: add64_OkI unat_add64 unat_of_nat64 del: add64_eq_Ok)
    have step: "pread_loop seek_read n offset ?acc =
      (case seek_read (n - k) (offset + of_nat k) of
         Ok got \<Rightarrow> if got = [] then Err short_read_error else pread_loop seek_read n offset (?acc @ got)
       | Err e \<Rightarrow> Err e
       | Panic \<Rightarrow> Panic)"
      by (subst pread_loop.simps) (simp only: len pos(1) True if_True and_then.simps)
    show ?thesis
    proof (cases "unat offset + k < length contents")
      case False
      then have "seek_read (n - k) (offset + of_nat k) = Ok []" using True pos(2) by (intro outside) simp_all
      then have "pread_loop seek_read n offset ?acc = Err short_read_error" by (simp add: step)
      with False True less.prems(2) show ?thesis by auto
    next
      case inside': True
      then obtain i where i: "0 < i" "i \<le> n - k" "i \<le> length contents - (unat offset + k)"
        "seek_read (n - k) (offset + of_nat k) = Ok (take i (drop (unat offset + k) contents))"
        using inside [of "n - k" "offset + of_nat k"] True pos(2) by auto
      have "pread_loop seek_read n offset ?acc =
          pread_loop seek_read n offset (?acc @ take i (drop (unat offset + k) contents))"
        using i inside' by (simp add: step)
      also have "?acc @ take i (drop (unat offset + k) contents) = take (k + i) (drop (unat offset) contents)"
        by (simp only: take_add drop_drop add.commute [of "unat offset" k])
      finally show ?thesis using less.hyps [of "k + i"] i True by simp
    qed
  qed
qed

text \<open>The Windows loop gives what \<open>read_exact_at\<close> gives, with its own error when the file is too short.\<close>

lemma pread_windows_exact:
  assumes "length contents < 2 ^ 64"
  shows "pread_exact_windows seek_read n offset =
    (case pread_exact contents n offset of Ok bs \<Rightarrow> Ok bs | Err _ \<Rightarrow> Err short_read_error | Panic \<Rightarrow> Panic)"
  using pread_loop_from [OF assms, of 0 n offset] by (auto simp: pread_exact_windows_def pread_exact_def)

end

text \<open>A system that always reads as much as there is.\<close>

interpretation greedy: positioned_file "\<lambda>n offset. Ok (take n (drop (unat offset) contents))" contents for contents
proof
  fix n :: usize and offset :: u64
  assume "0 < n" "unat offset < length contents"
  then show "\<exists>k. 0 < k \<and> k \<le> n \<and> k \<le> length contents - unat offset \<and>
      (Ok (take n (drop (unat offset) contents)) :: (u8 list, io_error) outcome) = Ok (take k (drop (unat offset) contents))"
    by (intro exI [of _ "min n (length contents - unat offset)"]) (auto simp: min_def)
qed simp

end
