(* ===== verification/ExtraField.thy ===== *)
theory ExtraField
  imports Bytes
begin

text \<open>
  The extra-field parsers of \<open>core/src/archive.rs\<close>: a sequence of
  \<open>id (2) size (2) data (size)\<close> records, scanned for the Zip64 extended information,
  the WinZip AE-x parameters, and the timestamp and Unicode records.
\<close>

abbreviation ZIP64_EXTRA_ID :: u16 where "ZIP64_EXTRA_ID \<equiv> 0x0001"
abbreviation U32_SENTINEL :: u32 where "U32_SENTINEL \<equiv> 0xFFFFFFFF"
abbreviation U16_SENTINEL :: u16 where "U16_SENTINEL \<equiv> 0xFFFF"

section \<open>Zip64 extended information\<close>

text \<open>The three 64-bit values, in their fixed order, each only when its base field is a sentinel.\<close>

definition zip64_fields ::
  "bool \<Rightarrow> bool \<Rightarrow> bool \<Rightarrow> u64 \<Rightarrow> u64 \<Rightarrow> u64 \<Rightarrow> (reader, u64 \<times> u64 \<times> u64, format_error) act" where
  "zip64_fields need_uncompressed need_compressed need_offset uncompressed compressed lfh_offset =
     seq (if need_uncompressed then Reader_u64 else ret uncompressed) (\<lambda>u.
     seq (if need_compressed then Reader_u64 else ret compressed) (\<lambda>c.
     seq (if need_offset then Reader_u64 else ret lfh_offset) (\<lambda>l.
     ret (u, c, l))))"

lemma skip_progress:
  "Reader_skip n r = (Ok v, r') \<Longrightarrow>
     remaining r' = remaining r - n \<and> rd_data r' = rd_data r \<and> n \<le> remaining r"
  by (auto simp: Reader_skip_def seq_eq_Ok dest: Reader_take_progress)

function zip64_loop ::
  "bool \<Rightarrow> bool \<Rightarrow> bool \<Rightarrow> u64 \<Rightarrow> u64 \<Rightarrow> u64 \<Rightarrow> (reader, u64 \<times> u64 \<times> u64, format_error) act" where
  "zip64_loop nu nc no u c l r =
     (if remaining r < 4 then (Err Zip64Inconsistent, r)
      else seq Reader_u16 (\<lambda>id.
           seq Reader_u16 (\<lambda>size r2.
             if id = ZIP64_EXTRA_ID then
               seq (Reader_take (unat size)) (\<lambda>d r3.
                 (fst (zip64_fields nu nc no u c l (Reader_new d)), r3)) r2
             else
               seq (Reader_skip (unat size)) (\<lambda>_ r3. zip64_loop nu nc no u c l r3) r2)) r)"
  by pat_completeness auto
termination
  by (relation "measure (\<lambda>(nu, nc, no, u, c, l, r). remaining r)")
    (auto dest!: Reader_u16_progress skip_progress)

declare zip64_loop.simps [simp del]

definition apply_zip64_extra ::
  "u8 list \<Rightarrow> bool \<Rightarrow> bool \<Rightarrow> bool \<Rightarrow> u64 \<Rightarrow> u64 \<Rightarrow> u64 \<Rightarrow> (u64 \<times> u64 \<times> u64, zip_core_error) outcome" where
  "apply_zip64_extra extra need_uncompressed need_compressed need_offset uncompressed compressed lfh_offset =
     map_err Format (fst (zip64_loop need_uncompressed need_compressed need_offset
       uncompressed compressed lfh_offset (Reader_new extra)))"

section \<open>WinZip AES parameters\<close>

definition aes_record :: "(reader, aes_info, format_error) act" where
  "aes_record =
     seq Reader_u16 (\<lambda>version.
     seq Reader_u16 (\<lambda>_.
     seq (Reader_take 1) (\<lambda>s.
     seq Reader_u16 (\<lambda>m.
     ret \<lparr> strength = s ! 0, actual_method = m, is_ae2 = (version = 2) \<rparr>))))"

function aes_loop :: "(reader, aes_info option, format_error) act" where
  "aes_loop r =
     (if remaining r < 4 then (Ok None, r)
      else seq Reader_u16 (\<lambda>id.
           seq Reader_u16 (\<lambda>size r2.
             if id = 0x9901 then
               seq (Reader_take (unat size)) (\<lambda>d r3.
                 case aes_record (Reader_new d) of
                   (Ok i, _) \<Rightarrow> (Ok (Some i), r3)
                 | (Err e, _) \<Rightarrow> (Err e, r3)
                 | (Panic, _) \<Rightarrow> (Panic, r3)) r2
             else
               seq (Reader_skip (unat size)) (\<lambda>_ r3. aes_loop r3) r2)) r)"
  by pat_completeness auto
termination
  by (relation "measure remaining") (auto dest!: Reader_u16_progress skip_progress)

declare aes_loop.simps [simp del]

text \<open>Every \<open>.ok()?\<close> of the source turns a failed read into \<open>None\<close>.\<close>

definition parse_aes_extra :: "u8 list \<Rightarrow> aes_info option" where
  "parse_aes_extra extra =
     (case fst (aes_loop (Reader_new extra)) of Ok v \<Rightarrow> v | Err _ \<Rightarrow> None | Panic \<Rightarrow> None)"

section \<open>Timestamps and Unicode names\<close>

function ntfs_loop :: "reader \<Rightarrow> extra_fields \<Rightarrow> extra_fields" where
  "ntfs_loop r out =
     (if remaining r < 4 then out
      else case Reader_u16 r of (tag, r1) \<Rightarrow>
           case Reader_u16 r1 of (tsize, r2) \<Rightarrow>
           (case (tag, tsize) of
              (Ok t, Ok n) \<Rightarrow>
                (case Reader_take (unat n) r2 of
                   (Ok tdata, r3) \<Rightarrow>
                     ntfs_loop r3
                       (if t = 0x0001 then
                          (case Reader_u64 (Reader_new tdata) of (m, s1) \<Rightarrow>
                           case Reader_u64 s1 of (a, s2) \<Rightarrow>
                           case Reader_u64 s2 of (c, s3) \<Rightarrow>
                           (case (m, a, c) of
                              (Ok m', Ok a', Ok c') \<Rightarrow>
                                out\<lparr>ntfs_mtime := Some m', ntfs_atime := Some a', ntfs_ctime := Some c'\<rparr>
                            | _ \<Rightarrow> out))
                        else out)
                 | (Err _, _) \<Rightarrow> out
                 | (Panic, _) \<Rightarrow> out)
            | _ \<Rightarrow> out))"
  by pat_completeness auto
termination
  by (relation "measure (\<lambda>(r, out). remaining r)")
    (auto dest!: Reader_u16_progress Reader_take_progress sym [of "(Ok _, _)"])

declare ntfs_loop.simps [simp del]

definition parse_ntfs_times :: "u8 list \<Rightarrow> extra_fields \<Rightarrow> extra_fields" where
  "parse_ntfs_times data out = ntfs_loop (snd (Reader_u32 (Reader_new data))) out"

definition take_i32le :: "reader \<Rightarrow> i32 option \<times> reader" where
  "take_i32le r = (case Reader_take 4 r of
      (Ok b, r') \<Rightarrow> (Some (from_le_bytes [b ! 0, b ! 1, b ! 2, b ! 3]), r')
    | (_, r') \<Rightarrow> (None, r'))"

text \<open>One \<open>if flags & bit != 0 { out.field = take_i32le(&mut r) }\<close>.\<close>

definition unix_field ::
  "bool \<Rightarrow> (i32 option \<Rightarrow> extra_fields \<Rightarrow> extra_fields) \<Rightarrow> extra_fields \<times> reader \<Rightarrow> extra_fields \<times> reader" where
  "unix_field present store =
     (\<lambda>(out, r). if present then (case take_i32le r of (t, r') \<Rightarrow> (store t out, r')) else (out, r))"

definition parse_unix_times :: "u8 list \<Rightarrow> extra_fields \<Rightarrow> extra_fields" where
  "parse_unix_times data out =
     (case Reader_take 1 (Reader_new data) of
        (Ok flag_byte, r) \<Rightarrow>
          fst (unix_field (and (flag_byte ! 0) 0x04 \<noteq> 0) (\<lambda>t. unix_ctime_update (\<lambda>_. t))
            (unix_field (and (flag_byte ! 0) 0x02 \<noteq> 0) (\<lambda>t. unix_atime_update (\<lambda>_. t))
              (unix_field (and (flag_byte ! 0) 0x01 \<noteq> 0) (\<lambda>t. unix_mtime_update (\<lambda>_. t)) (out, r))))
      | (_, r) \<Rightarrow> out)"

definition parse_unicode_extra :: "u8 list \<Rightarrow> rstring option" where
  "parse_unicode_extra data = (if length data < 5 then None else from_utf8 (drop 5 data))"

definition extra_record_fields :: "u16 \<Rightarrow> u8 list \<Rightarrow> extra_fields \<Rightarrow> extra_fields" where
  "extra_record_fields rid data out =
     (if rid = 0x000a then parse_ntfs_times data out
      else if rid = 0x5455 then parse_unix_times data out
      else if rid = 0x7075 then out\<lparr>unicode_path := parse_unicode_extra data\<rparr>
      else if rid = 0x6375 then out\<lparr>unicode_comment := parse_unicode_extra data\<rparr>
      else out)"

function extra_loop :: "reader \<Rightarrow> extra_fields \<Rightarrow> extra_fields" where
  "extra_loop r out =
     (if remaining r < 4 then out
      else case Reader_u16 r of (rid, r1) \<Rightarrow>
           case Reader_u16 r1 of (sz, r2) \<Rightarrow>
           (case (rid, sz) of
              (Ok i, Ok n) \<Rightarrow>
                (case Reader_take (unat n) r2 of
                   (Ok data, r3) \<Rightarrow> extra_loop r3 (extra_record_fields i data out)
                 | (Err _, _) \<Rightarrow> out
                 | (Panic, _) \<Rightarrow> out)
            | _ \<Rightarrow> out))"
  by pat_completeness auto
termination
  by (relation "measure (\<lambda>(r, out). remaining r)")
    (auto dest!: Reader_u16_progress Reader_take_progress sym [of "(Ok _, _)"])

declare extra_loop.simps [simp del]

definition parse_extra_fields :: "u8 list \<Rightarrow> extra_fields" where
  "parse_extra_fields extra = extra_loop (Reader_new extra) extra_fields_default"

section \<open>Blocks of records\<close>

text \<open>
  The format the parsers read: a record is its id, the length of its data and the data; an
  extra block is a concatenation of records.
\<close>

definition extra_record :: "u16 \<Rightarrow> u8 list \<Rightarrow> u8 list" where
  "extra_record rid data = le16 rid @ le16 (of_nat (length data)) @ data"

fun extra_block :: "(u16 \<times> u8 list) list \<Rightarrow> u8 list" where
  "extra_block [] = []"
| "extra_block ((rid, data) # rs) = extra_record rid data @ extra_block rs"

definition records_ok :: "(u16 \<times> u8 list) list \<Rightarrow> bool" where
  "records_ok rs \<longleftrightarrow> list_all (\<lambda>(rid, data). length data < 65536) rs"

lemma length_extra_record [simp]: "length (extra_record rid data) = 4 + length data"
  by (simp add: extra_record_def)

lemma Reader_u16_prefix:
  assumes "reader_ok r" and "unread r = le16 v @ t"
  shows "\<exists>r'. Reader_u16 r = (Ok v, r') \<and> unread r' = t \<and> reader_ok r'"
  using rdr.grab_prefix [OF assms]
  by (auto simp: Reader_u16_def list2 del: exI simp del: from_le_bytes.simps One_nat_def)

lemma Reader_u64_prefix:
  assumes "reader_ok r" and "unread r = le64 v @ t"
  shows "\<exists>r'. Reader_u64 r = (Ok v, r') \<and> unread r' = t \<and> reader_ok r'"
  using rdr.grab_prefix [OF assms]
  by (auto simp: Reader_u64_def list8 del: exI simp del: from_le_bytes.simps One_nat_def)

lemma read_record:
  assumes ok: "reader_ok r" and r: "unread r = extra_record rid d @ t" and d: "length d < 65536"
  obtains r1 r2 r3 where "Reader_u16 r = (Ok rid, r1)"
    "Reader_u16 r1 = (Ok (of_nat (length d)), r2)" "Reader_take (length d) r2 = (Ok d, r3)"
    "unread r3 = t" "reader_ok r3" "4 \<le> remaining r"
    "unat (of_nat (length d) :: u16) = length d"
proof -
  from Reader_u16_prefix [OF ok, of rid "le16 (of_nat (length d)) @ d @ t"] r
  obtain r1 where 1: "Reader_u16 r = (Ok rid, r1)"
    "unread r1 = le16 (of_nat (length d)) @ d @ t" "reader_ok r1"
    by (auto simp: extra_record_def)
  from Reader_u16_prefix [OF 1(3,2)] obtain r2 where 2:
    "Reader_u16 r1 = (Ok (of_nat (length d)), r2)" "unread r2 = d @ t" "reader_ok r2"
    by blast
  from rdr.grab_prefix [OF 2(3,2) refl] obtain r3 where
    "Reader_take (length d) r2 = (Ok d, r3)" "unread r3 = t" "reader_ok r3"
    by blast
  with 1 2 show ?thesis using that r d by (simp add: remaining_eq unat_of_nat)
qed

subsection \<open>Zip64\<close>

definition zip64_payload :: "bool \<Rightarrow> bool \<Rightarrow> bool \<Rightarrow> u64 \<Rightarrow> u64 \<Rightarrow> u64 \<Rightarrow> u8 list" where
  "zip64_payload nu nc no u c l =
     (if nu then le64 u else []) @ (if nc then le64 c else []) @ (if no then le64 l else [])"

lemma zip64_fields_payload:
  assumes "length (zip64_payload nu nc no u' c' l' @ junk) < 2 ^ 64"
  shows "fst (zip64_fields nu nc no u c l (Reader_new (zip64_payload nu nc no u' c' l' @ junk))) =
    Ok (if nu then u' else u, if nc then c' else c, if no then l' else l)"
proof -
  have opt: "\<exists>r'. (if b then Reader_u64 else ret w) r = (Ok (if b then v else w), r') \<and>
      unread r' = t \<and> reader_ok r'"
    if "reader_ok r" "unread r = (if b then le64 v else []) @ t" for b v w r t
    using that Reader_u64_prefix [of r v t] by (cases b) auto
  let ?r = "Reader_new (zip64_payload nu nc no u' c' l' @ junk)"
  have "reader_ok ?r" using assms by simp
  from opt [OF this, of nu u' "(if nc then le64 c' else []) @ (if no then le64 l' else []) @ junk" u]
  obtain r1 where 1: "(if nu then Reader_u64 else ret u) ?r = (Ok (if nu then u' else u), r1)"
    "unread r1 = (if nc then le64 c' else []) @ (if no then le64 l' else []) @ junk" "reader_ok r1"
    by (auto simp: zip64_payload_def)
  from opt [OF 1(3,2), of c] obtain r2 where
    2: "(if nc then Reader_u64 else ret c) r1 = (Ok (if nc then c' else c), r2)"
    "unread r2 = (if no then le64 l' else []) @ junk" "reader_ok r2" by blast
  from opt [OF 2(3,2), of l] obtain r3 where
    "(if no then Reader_u64 else ret l) r2 = (Ok (if no then l' else l), r3)" by blast
  with 1(1) 2(1) show ?thesis unfolding zip64_fields_def by (simp add: seq_def)
qed

lemma zip64_loop_hit:
  assumes "reader_ok r" and "unread r = extra_record ZIP64_EXTRA_ID d @ t" and "length d < 65536"
  shows "fst (zip64_loop nu nc no u c l r) = fst (zip64_fields nu nc no u c l (Reader_new d))"
proof -
  from read_record [OF assms] obtain r1 r2 r3 where *: "Reader_u16 r = (Ok ZIP64_EXTRA_ID, r1)"
    "Reader_u16 r1 = (Ok (of_nat (length d)), r2)" "Reader_take (length d) r2 = (Ok d, r3)"
    "4 \<le> remaining r" "unat (of_nat (length d) :: u16) = length d" by metis
  then show ?thesis by (subst zip64_loop.simps) (simp add: seq_def)
qed

lemma zip64_loop_skip:
  assumes "reader_ok r" and "unread r = extra_block rs @ t" and "records_ok rs"
    and "\<forall>(rid, d) \<in> set rs. rid \<noteq> ZIP64_EXTRA_ID"
  shows "\<exists>r'. zip64_loop nu nc no u c l r = zip64_loop nu nc no u c l r' \<and>
    reader_ok r' \<and> unread r' = t"
  using assms
proof (induction rs arbitrary: r)
  case (Cons rec rs)
  obtain rid d where rec: "rec = (rid, d)" by (cases rec)
  with Cons.prems have "length d < 65536" "unread r = extra_record rid d @ extra_block rs @ t"
    by (simp_all add: records_ok_def)
  from read_record [OF Cons.prems(1) this(2,1)] obtain r1 r2 r3 where *:
    "Reader_u16 r = (Ok rid, r1)" "Reader_u16 r1 = (Ok (of_nat (length d)), r2)"
    "Reader_take (length d) r2 = (Ok d, r3)" "unread r3 = extra_block rs @ t" "reader_ok r3"
    "4 \<le> remaining r" "unat (of_nat (length d) :: u16) = length d" by metis
  have "zip64_loop nu nc no u c l r = zip64_loop nu nc no u c l r3"
    using * Cons.prems(4) rec by (subst zip64_loop.simps) (simp add: seq_def Reader_skip_def)
  moreover have "records_ok rs" "\<forall>(rid, d) \<in> set rs. rid \<noteq> ZIP64_EXTRA_ID"
    using Cons.prems rec by (simp_all add: records_ok_def)
  ultimately show ?case using Cons.IH [OF *(5,4)] by simp
qed auto

lemma zip64_loop_end: "remaining r < 4 \<Longrightarrow> fst (zip64_loop nu nc no u c l r) = Err Zip64Inconsistent"
  by (simp add: zip64_loop.simps)

lemma zip64_fields_fine [no_panic]: "fine (zip64_fields nu nc no u c l) r"
  unfolding zip64_fields_def by (auto simp: no_panic intro!: seq_fine)

lemma zip64_loop_fine [no_panic]: "fine (zip64_loop nu nc no u c l) r"
proof (induction nu nc no u c l r rule: zip64_loop.induct)
  case (1 nu nc no u c l r)
  then show ?case
    unfolding fine_def
    by (subst zip64_loop.simps) (auto simp: seq_eq_Panic dest: fineD [OF Reader_u16_fine, THEN notE]
        fineD [OF Reader_take_fine, THEN notE] fineD [OF Reader_skip_fine, THEN notE]
        fineD [OF zip64_fields_fine, THEN notE])
qed

lemma apply_zip64_extra_no_panic [no_panic]:
  "apply_zip64_extra e nu nc no u c l \<noteq> Panic"
  using fineD [OF zip64_loop_fine] by (simp add: apply_zip64_extra_def)

subsection \<open>The common fields\<close>

lemma extra_loop_end: "remaining r < 4 \<Longrightarrow> extra_loop r out = out"
  by (simp add: extra_loop.simps)

lemma extra_loop_record:
  assumes "reader_ok r" and "unread r = extra_record rid d @ t" and "length d < 65536"
  shows "\<exists>r'. extra_loop r out = extra_loop r' (extra_record_fields rid d out) \<and>
    reader_ok r' \<and> unread r' = t"
proof -
  from read_record [OF assms] obtain r1 r2 r3 where *: "Reader_u16 r = (Ok rid, r1)"
    "Reader_u16 r1 = (Ok (of_nat (length d)), r2)" "Reader_take (length d) r2 = (Ok d, r3)"
    "unread r3 = t" "reader_ok r3"
    "4 \<le> remaining r" "unat (of_nat (length d) :: u16) = length d" by metis
  then show ?thesis by (subst extra_loop.simps) auto
qed

lemma extra_loop_block:
  assumes "reader_ok r" and "unread r = extra_block rs @ t" and "records_ok rs"
  shows "\<exists>r'. extra_loop r out = extra_loop r' (fold (\<lambda>(rid, d). extra_record_fields rid d) rs out) \<and>
    reader_ok r' \<and> unread r' = t"
  using assms
proof (induction rs arbitrary: r out)
  case (Cons rec rs)
  obtain rid d where rec: "rec = (rid, d)" by (cases rec)
  with Cons.prems have "length d < 65536" "unread r = extra_record rid d @ extra_block rs @ t"
    "records_ok rs"
    by (simp_all add: records_ok_def)
  with extra_loop_record [OF Cons.prems(1), of rid d "extra_block rs @ t" out] obtain r' where
    "extra_loop r out = extra_loop r' (extra_record_fields rid d out)" "reader_ok r'"
    "unread r' = extra_block rs @ t" by blast
  with Cons.IH [of r' "extra_record_fields rid d out"] \<open>records_ok rs\<close> rec show ?case by simp
qed auto

lemma parse_extra_fields_fold:
  assumes "records_ok rs" and "length (extra_block rs @ t) < 2 ^ 64" and "length t < 4"
  shows "parse_extra_fields (extra_block rs @ t) =
    fold (\<lambda>(rid, d). extra_record_fields rid d) rs extra_fields_default"
proof -
  from extra_loop_block [of "Reader_new (extra_block rs @ t)" rs t extra_fields_default] assms
  obtain r' where "parse_extra_fields (extra_block rs @ t) =
      extra_loop r' (fold (\<lambda>(rid, d). extra_record_fields rid d) rs extra_fields_default)"
    "unread r' = t" by (auto simp: parse_extra_fields_def)
  with assms(3) show ?thesis by (simp add: extra_loop_end remaining_eq)
qed

text \<open>The NTFS record: a reserved word, then tag 1 with the three FILETIMEs.\<close>

definition ntfs_data :: "u32 \<Rightarrow> u64 \<Rightarrow> u64 \<Rightarrow> u64 \<Rightarrow> u8 list" where
  "ntfs_data reserved m a c =
     le32 reserved @ extra_record 0x0001 (le64 m @ le64 a @ le64 c)"

lemma ntfs_loop_end: "remaining r < 4 \<Longrightarrow> ntfs_loop r out = out"
  by (simp add: ntfs_loop.simps)

lemma read_u64_thrice:
  assumes "reader_ok r" and "unread r = le64 m @ le64 a @ le64 c"
  obtains r1 r2 r3 where "Reader_u64 r = (Ok m, r1)" "Reader_u64 r1 = (Ok a, r2)"
    "Reader_u64 r2 = (Ok c, r3)"
proof -
  from Reader_u64_prefix [OF assms] obtain r1 where 1: "Reader_u64 r = (Ok m, r1)"
    "unread r1 = le64 a @ le64 c" "reader_ok r1" by blast
  from Reader_u64_prefix [OF 1(3,2)] obtain r2 where 2: "Reader_u64 r1 = (Ok a, r2)"
    "unread r2 = le64 c @ []" "reader_ok r2" by auto
  from Reader_u64_prefix [OF 2(3,2)] obtain r3 where "Reader_u64 r2 = (Ok c, r3)" by blast
  with 1 2 that show ?thesis by blast
qed

lemma parse_ntfs_times_data:
  "parse_ntfs_times (ntfs_data res m a c) out =
     out\<lparr>ntfs_mtime := Some m, ntfs_atime := Some a, ntfs_ctime := Some c\<rparr>"
proof -
  let ?p = "le64 m @ le64 a @ le64 c"
  let ?r = "Reader_new (ntfs_data res m a c)"
  have ok: "reader_ok ?r" and len: "4 \<le> remaining ?r"
    by (simp_all add: ntfs_data_def remaining_eq)
  have "unread (snd (Reader_u32 ?r)) = extra_record 0x0001 ?p @ []"
    using Reader_u32_ok [OF ok len] unread_advance [of ?r 4] by (simp add: ntfs_data_def)
  moreover have "reader_ok (snd (Reader_u32 ?r))"
    using Reader_u32_ok [OF ok len] reader_ok_advance [OF ok len] by simp
  ultimately have ur: "unread (snd (Reader_u32 ?r)) = extra_record 0x0001 ?p @ []"
    and okr: "reader_ok (snd (Reader_u32 ?r))" by simp_all
  have "length ?p < 65536" by simp
  from read_record [OF okr ur this] obtain r1 r2 r3 where *: "Reader_u16 (snd (Reader_u32 ?r)) = (Ok 0x0001, r1)"
    "Reader_u16 r1 = (Ok (of_nat (length ?p)), r2)" "Reader_take (length ?p) r2 = (Ok ?p, r3)"
    "unread r3 = []" "4 \<le> remaining (snd (Reader_u32 ?r))"
    "unat (of_nat (length ?p) :: u16) = length ?p"
    by metis
  obtain s1 s2 s3 where "Reader_u64 (Reader_new ?p) = (Ok m, s1)" "Reader_u64 s1 = (Ok a, s2)"
    "Reader_u64 s2 = (Ok c, s3)"
    by (rule read_u64_thrice [of "Reader_new ?p" m a c]) simp_all
  with * show ?thesis
    unfolding parse_ntfs_times_def
    by (subst ntfs_loop.simps) (simp add: ntfs_loop_end remaining_eq)
qed

text \<open>The extended-timestamp record: a flag byte, then the times whose bits are set.\<close>

definition unix_data :: "u8 \<Rightarrow> i32 \<Rightarrow> i32 \<Rightarrow> i32 \<Rightarrow> u8 list" where
  "unix_data flags m a c = [flags] @ (if and flags 1 \<noteq> 0 then le32 m else []) @
     (if and flags 2 \<noteq> 0 then le32 a else []) @ (if and flags 4 \<noteq> 0 then le32 c else [])"

lemma take_i32le_prefix:
  assumes "reader_ok r" and "unread r = le32 v @ t"
  shows "\<exists>r'. take_i32le r = (Some v, r') \<and> unread r' = t \<and> reader_ok r'"
  using rdr.grab_prefix [OF assms]
  by (auto simp: take_i32le_def list4 del: exI simp del: from_le_bytes.simps One_nat_def)

lemma unix_field_prefix:
  assumes "reader_ok r" and "unread r = (if b then le32 v else []) @ t"
  shows "\<exists>r'. unix_field b store (out, r) = (if b then store (Some v) out else out, r') \<and>
    unread r' = t \<and> reader_ok r'"
  using assms take_i32le_prefix [of r v t] by (cases b) (auto simp: unix_field_def)

lemma parse_unix_times_data:
  "parse_unix_times (unix_data flags m a c) out =
     (let out1 = (if and flags 1 \<noteq> 0 then out\<lparr>unix_mtime := Some m\<rparr> else out);
          out2 = (if and flags 2 \<noteq> 0 then out1\<lparr>unix_atime := Some a\<rparr> else out1)
      in if and flags 4 \<noteq> 0 then out2\<lparr>unix_ctime := Some c\<rparr> else out2)"
proof -
  let ?r = "Reader_new (unix_data flags m a c)"
  have "reader_ok ?r" by (simp add: unix_data_def)
  from rdr.grab_prefix [OF this, of "[flags]"] obtain r where
    0: "Reader_take 1 ?r = (Ok [flags], r)" "reader_ok r"
    "unread r = (if and flags 1 \<noteq> 0 then le32 m else []) @
     (if and flags 2 \<noteq> 0 then le32 a else []) @ (if and flags 4 \<noteq> 0 then le32 c else [])"
    by (auto simp: unix_data_def)
  from unix_field_prefix [OF 0(2,3), of "\<lambda>t. unix_mtime_update (\<lambda>_. t)" out] obtain r1 where
    1: "unix_field (and flags 1 \<noteq> 0) (\<lambda>t. unix_mtime_update (\<lambda>_. t)) (out, r) =
      (if and flags 1 \<noteq> 0 then out\<lparr>unix_mtime := Some m\<rparr> else out, r1)" "reader_ok r1"
    "unread r1 = (if and flags 2 \<noteq> 0 then le32 a else []) @ (if and flags 4 \<noteq> 0 then le32 c else [])"
    by blast
  let ?o1 = "if and flags 1 \<noteq> 0 then out\<lparr>unix_mtime := Some m\<rparr> else out"
  have u1: "unread r1 = (if and flags 2 \<noteq> 0 then le32 a else []) @
      ((if and flags 4 \<noteq> 0 then le32 c else []) @ [])"
    using 1(3) by simp
  from unix_field_prefix [OF 1(2) u1, of "\<lambda>t. unix_atime_update (\<lambda>_. t)" ?o1] obtain r2 where
    2: "unix_field (and flags 2 \<noteq> 0) (\<lambda>t. unix_atime_update (\<lambda>_. t)) (?o1, r1) =
      (if and flags 2 \<noteq> 0 then ?o1\<lparr>unix_atime := Some a\<rparr> else ?o1, r2)" "reader_ok r2"
    "unread r2 = (if and flags 4 \<noteq> 0 then le32 c else []) @ []"
    by blast
  let ?o2 = "if and flags 2 \<noteq> 0 then ?o1\<lparr>unix_atime := Some a\<rparr> else ?o1"
  from unix_field_prefix [OF 2(2,3), of "\<lambda>t. unix_ctime_update (\<lambda>_. t)" ?o2] obtain r3 where
    3: "unix_field (and flags 4 \<noteq> 0) (\<lambda>t. unix_ctime_update (\<lambda>_. t)) (?o2, r2) =
      (if and flags 4 \<noteq> 0 then ?o2\<lparr>unix_ctime := Some c\<rparr> else ?o2, r3)" by blast
  have "parse_unix_times (unix_data flags m a c) out =
      fst (unix_field (and flags 4 \<noteq> 0) (\<lambda>t. unix_ctime_update (\<lambda>_. t))
        (unix_field (and flags 2 \<noteq> 0) (\<lambda>t. unix_atime_update (\<lambda>_. t))
          (unix_field (and flags 1 \<noteq> 0) (\<lambda>t. unix_mtime_update (\<lambda>_. t)) (out, r))))"
    using 0(1) by (simp add: parse_unix_times_def)
  then show ?thesis by (simp only: 1(1) 2(1) 3 Let_def fst_conv)
qed

subsection \<open>AES parameters\<close>

definition aes_data :: "u16 \<Rightarrow> u16 \<Rightarrow> u8 \<Rightarrow> u16 \<Rightarrow> u8 list" where
  "aes_data version vendor st m = le16 version @ le16 vendor @ [st] @ le16 m"

lemma aes_record_data:
  "fst (aes_record (Reader_new (aes_data version vendor st m))) =
     Ok \<lparr> strength = st, actual_method = m, is_ae2 = (version = 2) \<rparr>"
proof -
  let ?r = "Reader_new (aes_data version vendor st m)"
  have "reader_ok ?r" by (simp add: aes_data_def)
  from Reader_u16_prefix [OF this, of version "le16 vendor @ [st] @ le16 m"] obtain r1 where
    1: "Reader_u16 ?r = (Ok version, r1)" "unread r1 = le16 vendor @ [st] @ le16 m" "reader_ok r1"
    by (auto simp: aes_data_def)
  from Reader_u16_prefix [OF 1(3,2)] obtain r2 where
    2: "Reader_u16 r1 = (Ok vendor, r2)" "unread r2 = [st] @ le16 m" "reader_ok r2" by blast
  from rdr.grab_prefix [OF 2(3,2)] obtain r3 where
    3: "Reader_take 1 r2 = (Ok [st], r3)" "unread r3 = le16 m @ []" "reader_ok r3" by auto
  from Reader_u16_prefix [OF 3(3,2)] obtain r4 where "Reader_u16 r3 = (Ok m, r4)" by blast
  with 1 2 3 show ?thesis by (simp add: aes_record_def)
qed

lemma aes_loop_skip:
  assumes "reader_ok r" and "unread r = extra_block rs @ t" and "records_ok rs"
    and "\<forall>(rid, d) \<in> set rs. rid \<noteq> 0x9901"
  shows "\<exists>r'. aes_loop r = aes_loop r' \<and> reader_ok r' \<and> unread r' = t"
  using assms
proof (induction rs arbitrary: r)
  case (Cons rec rs)
  obtain rid d where rec: "rec = (rid, d)" by (cases rec)
  with Cons.prems have "length d < 65536" "unread r = extra_record rid d @ extra_block rs @ t"
    by (simp_all add: records_ok_def)
  from read_record [OF Cons.prems(1) this(2,1)] obtain r1 r2 r3 where *:
    "Reader_u16 r = (Ok rid, r1)" "Reader_u16 r1 = (Ok (of_nat (length d)), r2)"
    "Reader_take (length d) r2 = (Ok d, r3)" "unread r3 = extra_block rs @ t" "reader_ok r3"
    "4 \<le> remaining r" "unat (of_nat (length d) :: u16) = length d" by metis
  have "aes_loop r = aes_loop r3"
    using * Cons.prems(4) rec by (subst aes_loop.simps) (simp add: seq_def Reader_skip_def)
  moreover have "records_ok rs" "\<forall>(rid, d) \<in> set rs. rid \<noteq> 0x9901"
    using Cons.prems rec by (simp_all add: records_ok_def)
  ultimately show ?case using Cons.IH [OF *(5,4)] by simp
qed auto

lemma aes_loop_hit:
  assumes "reader_ok r" and "unread r = extra_record 0x9901 (aes_data version vendor st m) @ t"
  shows "fst (aes_loop r) =
    Ok (Some \<lparr> strength = st, actual_method = m, is_ae2 = (version = 2) \<rparr>)"
proof -
  let ?d = "aes_data version vendor st m"
  have "length ?d < 65536" by (simp add: aes_data_def)
  from read_record [OF assms this] obtain r1 r2 r3 where *: "Reader_u16 r = (Ok 0x9901, r1)"
    "Reader_u16 r1 = (Ok (of_nat (length ?d)), r2)" "Reader_take (length ?d) r2 = (Ok ?d, r3)"
    "4 \<le> remaining r" "unat (of_nat (length ?d) :: u16) = length ?d" by metis
  moreover obtain i s where "aes_record (Reader_new ?d) = (Ok i, s)"
    "i = \<lparr> strength = st, actual_method = m, is_ae2 = (version = 2) \<rparr>"
    using aes_record_data [of version vendor st m] by (metis prod.collapse)
  ultimately show ?thesis by (subst aes_loop.simps) (simp add: seq_def)
qed

section \<open>What the extra fields yield\<close>

text \<open>
  What a writer puts into an extra field: the three NTFS times, some of the Unix times, the Unicode form of
  the name or of the comment (with a version and the CRC-32 of the raw form, which the reader does not
  check), or a record that is none of these.
\<close>

datatype extra_item =
    NtfsTimes u32 u64 u64 u64
  | UnixTimes "i32 option" "i32 option" "i32 option"
  | UnicodePath u8 u32 rstring
  | UnicodeComment u8 u32 rstring
  | OtherRecord u16 "u8 list"

definition le32_opt :: "i32 option \<Rightarrow> u8 list" where
  "le32_opt t = (case t of None \<Rightarrow> [] | Some w \<Rightarrow> le32 w)"

definition unix_flags :: "i32 option \<Rightarrow> i32 option \<Rightarrow> i32 option \<Rightarrow> u8" where
  "unix_flags m a c = (if m = None then 0 else 1) + (if a = None then 0 else 2) + (if c = None then 0 else 4)"

fun item_record :: "extra_item \<Rightarrow> u16 \<times> u8 list" where
  "item_record (NtfsTimes reserved m a c) =
     (0x000A, le32 reserved @ le16 1 @ le16 24 @ le64 m @ le64 a @ le64 c)"
| "item_record (UnixTimes m a c) = (0x5455, unix_flags m a c # le32_opt m @ le32_opt a @ le32_opt c)"
| "item_record (UnicodePath version crc s) = (0x7075, version # le32 crc @ as_bytes s)"
| "item_record (UnicodeComment version crc s) = (0x6375, version # le32 crc @ as_bytes s)"
| "item_record (OtherRecord rid d) = (rid, d)"

definition item_ok :: "extra_item \<Rightarrow> bool" where
  "item_ok it \<longleftrightarrow> length (snd (item_record it)) < 65536 \<and>
     (case it of
        UnicodePath version crc s \<Rightarrow> list_all is_scalar s
      | UnicodeComment version crc s \<Rightarrow> list_all is_scalar s
      | OtherRecord rid d \<Rightarrow> rid \<notin> {0x000A, 0x5455, 0x7075, 0x6375}
      | _ \<Rightarrow> True)"

definition given :: "'a option \<Rightarrow> 'a option \<Rightarrow> 'a option" where
  "given new old = (case new of None \<Rightarrow> old | Some t \<Rightarrow> Some t)"

fun item_effect :: "extra_item \<Rightarrow> extra_fields \<Rightarrow> extra_fields" where
  "item_effect (NtfsTimes reserved m a c) x = x\<lparr>ntfs_mtime := Some m, ntfs_atime := Some a, ntfs_ctime := Some c\<rparr>"
| "item_effect (UnixTimes m a c) x = x\<lparr>unix_mtime := given m (unix_mtime x), unix_atime := given a (unix_atime x),
     unix_ctime := given c (unix_ctime x)\<rparr>"
| "item_effect (UnicodePath version crc s) x = x\<lparr>unicode_path := Some s\<rparr>"
| "item_effect (UnicodeComment version crc s) x = x\<lparr>unicode_comment := Some s\<rparr>"
| "item_effect (OtherRecord rid d) x = x"

lemma ntfs_item_data: "snd (item_record (NtfsTimes reserved m a c)) = ntfs_data reserved m a c"
  by (simp add: ntfs_data_def extra_record_def del: to_le_bytes.simps)

lemma unix_flags_bits:
  "and (unix_flags m a c) 1 \<noteq> 0 \<longleftrightarrow> m \<noteq> None" "and (unix_flags m a c) 2 \<noteq> 0 \<longleftrightarrow> a \<noteq> None"
  "and (unix_flags m a c) 4 \<noteq> 0 \<longleftrightarrow> c \<noteq> None"
  by (simp_all add: unix_flags_def)

definition default_time :: "i32 option \<Rightarrow> i32" where
  "default_time t = (case t of None \<Rightarrow> 0 | Some w \<Rightarrow> w)"

lemma unix_item_data:
  "snd (item_record (UnixTimes m a c)) =
     unix_data (unix_flags m a c) (default_time m) (default_time a) (default_time c)"
  by (simp add: unix_data_def unix_flags_bits le32_opt_def default_time_def del: to_le_bytes.simps split: option.split)

lemma item_effect_record:
  assumes "item_ok it"
  shows "extra_record_fields (fst (item_record it)) (snd (item_record it)) x = item_effect it x"
proof (cases it)
  case (NtfsTimes reserved m a c)
  then show ?thesis
    using parse_ntfs_times_data [of reserved m a c x] unfolding NtfsTimes ntfs_item_data
    by (simp add: extra_record_fields_def)
next
  case (UnixTimes m a c)
  then show ?thesis
    unfolding UnixTimes unix_item_data
    by (simp add: extra_record_fields_def parse_unix_times_data unix_flags_bits Let_def given_def default_time_def split: option.split)
next
  case (UnicodePath version crc s)
  with assms show ?thesis
    by (simp add: item_ok_def extra_record_fields_def parse_unicode_extra_def from_utf8_as_bytes del: to_le_bytes.simps)
next
  case (UnicodeComment version crc s)
  with assms show ?thesis
    by (simp add: item_ok_def extra_record_fields_def parse_unicode_extra_def from_utf8_as_bytes del: to_le_bytes.simps)
next
  case (OtherRecord rid d)
  with assms show ?thesis by (simp add: item_ok_def extra_record_fields_def)
qed

text \<open>
  C32: The common extra fields of an entry are what was written: for any sequence of NTFS and Unix
  timestamp records, Unicode path and comment records with any scalar characters, and other records, parsing
  their bytes, whatever tail shorter than a record header follows, leaves exactly the times and strings of
  the items, later ones replacing earlier ones and Unix times that are not given kept.
\<close>

theorem extra_fields_collected:
  assumes "list_all item_ok items" and "length t < 4"
    and "length (extra_block (map item_record items) @ t) < 2 ^ 64"
  shows "parse_extra_fields (extra_block (map item_record items) @ t) = fold item_effect items extra_fields_default"
proof -
  have "records_ok (map item_record items)"
    using assms(1) by (auto simp: records_ok_def list_all_iff item_ok_def)
  from parse_extra_fields_fold [OF this assms(3,2)]
  have "parse_extra_fields (extra_block (map item_record items) @ t) =
      fold (\<lambda>it. extra_record_fields (fst (item_record it)) (snd (item_record it))) items extra_fields_default"
    by (simp add: fold_map comp_def case_prod_beta')
  also have "\<dots> = fold item_effect items extra_fields_default"
    by (rule fold_cong) (use assms(1) item_effect_record in \<open>auto simp: list_all_iff\<close>)
  finally show ?thesis .
qed

theorem extra_fields_collected_witness:
  "parse_extra_fields (extra_block (map item_record [UnixTimes (Some 5) None None, OtherRecord 7 [1],
       UnicodePath 1 0 [0x20AC], UnicodeComment 1 0 [0x61]]) @ [0]) =
     extra_fields_default\<lparr>unix_mtime := Some 5, unicode_path := Some [0x20AC], unicode_comment := Some [0x61]\<rparr>"
  by (subst extra_fields_collected)
    (simp_all add: item_ok_def is_scalar_def le32_opt_def given_def as_bytes_def encode_utf8_def extra_fields_default_def)

text \<open>
  The two timestamp records return the times that were written: the NTFS record all three
  FILETIMEs, the extended timestamp exactly those whose flag bit is set, the others kept.
\<close>

theorem timestamps_roundtrip:
  "parse_ntfs_times (ntfs_data res m a c) out =
     out\<lparr>ntfs_mtime := Some m, ntfs_atime := Some a, ntfs_ctime := Some c\<rparr> \<and>
   parse_unix_times (unix_data flags um ua uc) out =
     out\<lparr>unix_mtime := (if and flags 1 \<noteq> 0 then Some um else unix_mtime out),
         unix_atime := (if and flags 2 \<noteq> 0 then Some ua else unix_atime out),
         unix_ctime := (if and flags 4 \<noteq> 0 then Some uc else unix_ctime out)\<rparr>"
  by (simp add: parse_ntfs_times_data parse_unix_times_data Let_def)

text \<open>
  The AES parameters are those of the first AES record, wherever it stands, and a block without
  one has none.
\<close>

theorem aes_extra_found:
  assumes "records_ok rs" and "\<forall>(rid, d) \<in> set rs. rid \<noteq> 0x9901" and "length rest < 2 ^ 62"
    and "length (extra_block rs) < 2 ^ 62"
  shows "parse_aes_extra (extra_block rs @ extra_record 0x9901 (aes_data version vendor st m) @ rest) =
      Some \<lparr> strength = st, actual_method = m, is_ae2 = (version = 2) \<rparr> \<and>
    (length rest < 4 \<longrightarrow> parse_aes_extra (extra_block rs @ rest) = None)"
proof
  let ?x = "extra_block rs @ extra_record 0x9901 (aes_data version vendor st m) @ rest"
  have "reader_ok (Reader_new ?x)" using assms(3,4) by (simp add: aes_data_def)
  from aes_loop_skip [OF this unread_new assms(1,2)] obtain r where
    r: "aes_loop (Reader_new ?x) = aes_loop r" "reader_ok r"
    "unread r = extra_record 0x9901 (aes_data version vendor st m) @ rest" by blast
  from aes_loop_hit [OF r(2,3)] show "parse_aes_extra ?x =
      Some \<lparr> strength = st, actual_method = m, is_ae2 = (version = 2) \<rparr>"
    by (simp add: parse_aes_extra_def r(1))
  have "reader_ok (Reader_new (extra_block rs @ rest))" using assms(3,4) by simp
  from aes_loop_skip [OF this unread_new assms(1,2)] obtain r' where
    r': "aes_loop (Reader_new (extra_block rs @ rest)) = aes_loop r'" "unread r' = rest" by blast
  show "length rest < 4 \<longrightarrow> parse_aes_extra (extra_block rs @ rest) = None"
    unfolding parse_aes_extra_def r'(1) using r'(2) by (simp add: aes_loop.simps remaining_eq)
qed

theorem aes_extra_found_witness:
  "parse_aes_extra (extra_block [(7, [1])] @ extra_record 0x9901 (aes_data 2 0x4541 3 8) @ []) =
     Some \<lparr> strength = 3, actual_method = 8, is_ae2 = True \<rparr>"
  using aes_extra_found [where rs = "[(7, [1])]" and rest = "[]" and version = 2 and vendor = "0x4541"
      and st = 3 and m = 8] by (simp add: records_ok_def)

end
