(* ===== verification/Cp437.thy ===== *)
theory Cp437
  imports ZipTypes
begin

text \<open>
  \<open>core/src/cp437.rs\<close>: the code page of entry names that are not flagged as UTF-8.
  The table lists the code points of the source's character literals.
\<close>

definition HIGH :: "rchar list" where
  "HIGH = [
    0xC7, 0xFC, 0xE9, 0xE2, 0xE4, 0xE0, 0xE5, 0xE7,
    0xEA, 0xEB, 0xE8, 0xEF, 0xEE, 0xEC, 0xC4, 0xC5,
    0xC9, 0xE6, 0xC6, 0xF4, 0xF6, 0xF2, 0xFB, 0xF9,
    0xFF, 0xD6, 0xDC, 0xA2, 0xA3, 0xA5, 0x20A7, 0x192,
    0xE1, 0xED, 0xF3, 0xFA, 0xF1, 0xD1, 0xAA, 0xBA,
    0xBF, 0x2310, 0xAC, 0xBD, 0xBC, 0xA1, 0xAB, 0xBB,
    0x2591, 0x2592, 0x2593, 0x2502, 0x2524, 0x2561, 0x2562, 0x2556,
    0x2555, 0x2563, 0x2551, 0x2557, 0x255D, 0x255C, 0x255B, 0x2510,
    0x2514, 0x2534, 0x252C, 0x251C, 0x2500, 0x253C, 0x255E, 0x255F,
    0x255A, 0x2554, 0x2569, 0x2566, 0x2560, 0x2550, 0x256C, 0x2567,
    0x2568, 0x2564, 0x2565, 0x2559, 0x2558, 0x2552, 0x2553, 0x256B,
    0x256A, 0x2518, 0x250C, 0x2588, 0x2584, 0x258C, 0x2590, 0x2580,
    0x3B1, 0xDF, 0x393, 0x3C0, 0x3A3, 0x3C3, 0xB5, 0x3C4,
    0x3A6, 0x398, 0x3A9, 0x3B4, 0x221E, 0x3C6, 0x3B5, 0x2229,
    0x2261, 0xB1, 0x2265, 0x2264, 0x2320, 0x2321, 0xF7, 0x2248,
    0xB0, 0x2219, 0xB7, 0x221A, 0x207F, 0xB2, 0x25A0, 0xA0]"

definition cp437_decode :: "u8 \<Rightarrow> rchar" where
  "cp437_decode b = (if b < 0x80 then unat b else HIGH ! unat (b - 0x80))"

text \<open>The table has an entry for every high byte, and all entries are distinct scalars above
  ASCII, so decoding is injective and yields valid characters only.\<close>

lemma length_HIGH: "length HIGH = 128"
  by (simp add: HIGH_def)

lemma distinct_HIGH: "distinct HIGH"
  by (simp add: HIGH_def)

lemma HIGH_scalar: "list_all (\<lambda>c. is_scalar c \<and> 0x80 \<le> c) HIGH"
  by (simp add: HIGH_def is_scalar_def)

lemma high_index:
  assumes "\<not> b < (0x80 :: u8)"
  shows "unat (b - 0x80) = unat b - 128 \<and> unat (b - 0x80) < length HIGH"
proof -
  from assms have "(0x80 :: u8) \<le> b" by simp
  moreover have "unat b < 256" using unsigned_less [of b] by simp
  ultimately show ?thesis by (simp add: unat_sub length_HIGH word_le_nat_alt)
qed

lemma cp437_decode_high:
  assumes "\<not> b < 0x80"
  shows "cp437_decode b \<in> set HIGH"
  using high_index [OF assms] assms by (simp add: cp437_decode_def)

lemma cp437_decode_scalar: "is_scalar (cp437_decode b)"
proof (cases "b < 0x80")
  case True
  then show ?thesis by (simp add: cp437_decode_def is_scalar_def word_less_nat_alt)
next
  case False
  with cp437_decode_high [OF this] HIGH_scalar show ?thesis by (auto simp: list_all_iff)
qed

lemma cp437_decode_ascii: "b < 0x80 \<Longrightarrow> cp437_decode b = unat b"
  by (simp add: cp437_decode_def)

lemma cp437_decode_high_ge:
  assumes "\<not> b < 0x80"
  shows "0x80 \<le> cp437_decode b"
  using cp437_decode_high [OF assms] HIGH_scalar by (auto simp: list_all_iff)

lemma cp437_decode_inj: "cp437_decode a = cp437_decode b \<Longrightarrow> a = b"
proof -
  assume eq: "cp437_decode a = cp437_decode b"
  have low: "cp437_decode x < 0x80 \<longleftrightarrow> x < 0x80" for x :: u8
    using cp437_decode_high_ge [of x]
    by (cases "x < 0x80") (auto simp: cp437_decode_ascii word_less_nat_alt)
  show "a = b"
  proof (cases "a < 0x80")
    case True
    with eq low [of a] low [of b] have "b < 0x80" by simp
    with True eq show ?thesis by (simp add: cp437_decode_ascii word_unat_eq_iff)
  next
    case False
    with eq low [of a] low [of b] have b: "\<not> b < 0x80" by simp
    with eq False have "HIGH ! unat (a - 0x80) = HIGH ! unat (b - 0x80)"
      by (simp add: cp437_decode_def)
    then have "unat (a - 0x80) = unat (b - 0x80)"
      using nth_eq_iff_index_eq [OF distinct_HIGH] high_index [OF False] high_index [OF b] by blast
    then have "a - 0x80 = b - 0x80" by (simp only: word_unat_eq_iff)
    then show ?thesis by simp
  qed
qed

end
