(* ===== verification/EntryName.thy ===== *)
theory EntryName
  imports Cp437
begin

text \<open>
  Entry names, from \<open>core/src/archive.rs\<close>: decoding the raw bytes (\<open>decode_name\<close>),
  the directory test (\<open>is_dir\<close>) and the traversal-safe extraction path
  (\<open>enclosed_name\<close>), with \<open>PathBuf::push\<close> of the two platform families.
\<close>

section \<open>Decoding\<close>

definition decode_name :: "u8 list \<Rightarrow> u16 \<Rightarrow> rstring" where
  "decode_name bytes flags =
     (if has_bits flags 0x0800 \<or> is_ascii bytes then from_utf8_lossy bytes
      else map cp437_decode bytes)"

lemma decode_name_ascii: "is_ascii bs \<Longrightarrow> decode_name bs flags = map unat bs"
  by (simp add: decode_name_def from_utf8_lossy_ascii)

lemma decode_name_utf8:
  "list_all is_scalar s \<Longrightarrow> has_bits flags 0x0800 \<Longrightarrow> decode_name (as_bytes s) flags = s"
  by (simp add: decode_name_def from_utf8_lossy_as_bytes)

lemma decode_name_cp437:
  assumes "\<not> has_bits flags 0x0800"
  shows "decode_name bs flags = map cp437_decode bs"
proof (cases "is_ascii bs")
  case True
  then have "map cp437_decode bs = map unat bs"
    by (auto simp: is_ascii_def list_all_iff cp437_decode_ascii)
  with True show ?thesis by (simp add: decode_name_ascii)
next
  case False
  with assms show ?thesis by (simp add: decode_name_def)
qed

section \<open>Directories\<close>

definition name_is_dir :: "rstring \<Rightarrow> bool" where
  "name_is_dir name \<longleftrightarrow> ends_with_char name slash \<or> ends_with_char name backslash"

definition is_dir :: "central_entry \<Rightarrow> bool" where
  "is_dir e = name_is_dir (ce_name e)"

section \<open>Paths\<close>

datatype platform = Unix | Windows

definition has_drive_prefix :: "rstring \<Rightarrow> bool" where
  "has_drive_prefix s \<longleftrightarrow>
     (let b = as_bytes s in 2 \<le> length b \<and> b ! 1 = 0x3A \<and> is_ascii_alphabetic (b ! 0))"

text \<open>
  \<open>PathBuf::push\<close> of one separator-free component. On Unix an absolute argument replaces
  the path; on Windows an argument with a drive prefix does, and no separator is added
  after a bare drive.
\<close>

definition path_push :: "platform \<Rightarrow> rstring \<Rightarrow> rstring \<Rightarrow> rstring" where
  "path_push plat p c =
     (case plat of
        Unix \<Rightarrow>
          if starts_with_char c slash then c
          else if p = [] \<or> ends_with_char p slash then p @ c
          else p @ slash # c
      | Windows \<Rightarrow>
          if has_drive_prefix c then c
          else if p = [] \<or> ends_with_char p slash \<or> ends_with_char p backslash
            \<or> (length p = 2 \<and> has_drive_prefix p) then p @ c
          else p @ backslash # c)"

fun enclosed_loop :: "platform \<Rightarrow> rstring \<Rightarrow> rstring list \<Rightarrow> rstring option" where
  "enclosed_loop plat out [] = Some out"
| "enclosed_loop plat out (c # comps) =
     (if c = [] \<or> c = lit ''.'' then enclosed_loop plat out comps
      else if c = lit ''..'' then None
      else enclosed_loop plat (path_push plat out c) comps)"

definition enclosed_name :: "platform \<Rightarrow> rstring \<Rightarrow> rstring option" where
  "enclosed_name plat name =
     (if name = [] \<or> 0 \<in> set name then None
      else if starts_with_char name slash \<or> starts_with_char name backslash then None
      else if has_drive_prefix name then None
      else case enclosed_loop plat [] (split_sep name) of
        None \<Rightarrow> None
      | Some out \<Rightarrow> if out = [] then None else Some out)"

section \<open>What the extraction path is on Unix\<close>

fun join_path :: "rstring list \<Rightarrow> rstring" where
  "join_path [] = []"
| "join_path [c] = c"
| "join_path (c # d # cs) = c @ slash # join_path (d # cs)"

definition real_component :: "rstring \<Rightarrow> bool" where
  "real_component c \<longleftrightarrow> c \<noteq> [] \<and> c \<noteq> lit ''.''"

text \<open>A component that may be joined: not special, and free of separators.\<close>

definition safe_component :: "rstring \<Rightarrow> bool" where
  "safe_component c \<longleftrightarrow> real_component c \<and> c \<noteq> lit ''..'' \<and> (\<forall>x \<in> set c. \<not> is_sep x)"

lemma join_path_snoc: "cs \<noteq> [] \<Longrightarrow> join_path (cs @ [c]) = join_path cs @ slash # c"
  by (induction cs rule: join_path.induct) auto

lemma ends_with_append: "c \<noteq> [] \<Longrightarrow> ends_with_char (p @ c) x = ends_with_char c x"
  by (cases "rev c") (auto simp: ends_with_char_def)

lemma ends_with_in_set: "ends_with_char c x \<Longrightarrow> x \<in> set c"
  by (cases "rev c") (auto simp: ends_with_char_def dest: arg_cong [where f = set])

lemma starts_with_in_set: "starts_with_char c x \<Longrightarrow> x \<in> set c"
  by (cases c) auto

lemma join_path_last:
  assumes "cs \<noteq> []" and "last cs \<noteq> []"
  shows "join_path cs \<noteq> [] \<and> ends_with_char (join_path cs) x = ends_with_char (last cs) x"
proof -
  obtain ds d where cs: "cs = ds @ [d]" using assms(1) by (metis append_butlast_last_id)
  show ?thesis
  proof (cases "ds = []")
    case False
    obtain p where "join_path cs = p @ d" using False 
      by (metis append.assoc append_Cons append_Nil cs join_path_snoc)
    with assms(2) show ?thesis by (simp add: cs ends_with_append)
  qed (use assms cs in simp)
qed

lemma path_push_join:
  assumes "list_all safe_component cs" and "safe_component c"
  shows "path_push Unix (join_path cs) c = join_path (cs @ [c])"
proof -
  have c: "\<not> starts_with_char c slash"
    using assms(2) by (auto simp: safe_component_def is_sep_def dest: starts_with_in_set)
  show ?thesis
  proof (cases "cs = []")
    case True
    then show ?thesis using c by (simp add: path_push_def)
  next
    case False
    then have "safe_component (last cs)" using assms(1) by (auto simp: list_all_iff)
    then have "last cs \<noteq> []" "\<not> ends_with_char (last cs) slash"
      by (auto simp: safe_component_def real_component_def is_sep_def dest: ends_with_in_set)
    with join_path_last [OF False] have "join_path cs \<noteq> []" "\<not> ends_with_char (join_path cs) slash"
      by auto
    with c False show ?thesis by (simp add: path_push_def join_path_snoc)
  qed
qed

lemma enclosed_loop_join:
  assumes "list_all safe_component pre" and "\<forall>c \<in> set comps. \<forall>x \<in> set c. \<not> is_sep x"
  shows "enclosed_loop Unix (join_path pre) comps =
    (if lit ''..'' \<in> set comps then None else Some (join_path (pre @ filter real_component comps)))"
  using assms
proof (induction comps arbitrary: pre)
  case (Cons c comps)
  have dd: "real_component (lit ''..'')" by (simp add: real_component_def lit_def)
  show ?case
  proof (cases "real_component c \<and> c \<noteq> lit ''..''")
    case True
    with Cons.prems have c: "safe_component c" by (simp add: safe_component_def)
    with Cons.prems have "list_all safe_component (pre @ [c])" by simp
    moreover have "\<forall>c \<in> set comps. \<forall>x \<in> set c. \<not> is_sep x" using Cons.prems by simp
    ultimately have "enclosed_loop Unix (join_path (pre @ [c])) comps =
        (if lit ''..'' \<in> set comps then None
         else Some (join_path ((pre @ [c]) @ filter real_component comps)))"
      by (rule Cons.IH)
    moreover have "c \<noteq> []" "c \<noteq> lit ''.''" using True by (simp_all add: real_component_def)
    ultimately show ?thesis
      using True by (auto simp: path_push_join [OF Cons.prems(1) c])
  next
    case False
    then consider "c = [] \<or> c = lit ''.''" "\<not> real_component c" | "c = lit ''..''" "real_component c"
      using dd by (auto simp: real_component_def)
    then show ?thesis
      using Cons by cases (auto simp: lit_def)
  qed
qed simp

definition rejected_prefix :: "rstring \<Rightarrow> bool" where
  "rejected_prefix name \<longleftrightarrow> name = [] \<or> 0 \<in> set name \<or> starts_with_char name slash \<or>
     starts_with_char name backslash \<or> has_drive_prefix name"

lemma enclosed_name_unix:
  "enclosed_name Unix name =
     (if rejected_prefix name \<or> lit ''..'' \<in> set (split_sep name) \<or>
         filter real_component (split_sep name) = [] then None
      else Some (join_path (filter real_component (split_sep name))))"
proof -
  have seps: "\<forall>c \<in> set (split_sep name). \<forall>x \<in> set c. \<not> is_sep x"
    by (auto dest: split_sep_no_sep)
  have join: "join_path cs = [] \<longleftrightarrow> cs = []" if "\<forall>c \<in> set cs. real_component c" for cs
    using that by (cases cs rule: join_path.cases) (auto simp: real_component_def)
  have "join_path (filter real_component (split_sep name)) = [] \<longleftrightarrow>
      filter real_component (split_sep name) = []"
    by (rule join) simp
  with enclosed_loop_join [of "[]", OF _ seps] show ?thesis
    by (auto simp: enclosed_name_def rejected_prefix_def)
qed

text \<open>The components of the resulting path are exactly the pushed ones.\<close>

lemma split_join_path:
  assumes "cs \<noteq> []" and "\<forall>c \<in> set cs. \<forall>x \<in> set c. \<not> is_sep x"
  shows "split_sep (join_path cs) = cs"
  using assms
proof (induction cs rule: join_path.induct)
  case (3 c d cs)
  then have "split_sep c = [c]" by (intro split_sep_plain) simp
  moreover have "split_sep (c @ slash # join_path (d # cs)) = split_sep c @ split_sep (join_path (d # cs))"
    by (rule split_sep_append) (simp add: is_sep_def)
  ultimately show ?case using 3 by simp
qed (auto simp: split_sep_plain)

section \<open>The properties of names and paths\<close>

text \<open>
  A name flagged as UTF-8 decodes to the string whose encoding it holds, for every string of
  Unicode scalar values.
\<close>

theorem decode_name_utf8_roundtrip:
  assumes "list_all is_scalar s" and "has_bits flags 0x0800"
  shows "decode_name (as_bytes s) flags = s"
  using assms by (rule decode_name_utf8)

theorem decode_name_utf8_roundtrip_witness:
  "decode_name (as_bytes [0x61, 0xE9, 0x20AC, 0x1F600]) 0x0800 = [0x61, 0xE9, 0x20AC, 0x1F600]"
  by (rule decode_name_utf8_roundtrip) (simp_all add: is_scalar_def has_bits_def)

text \<open>
  A name without the UTF-8 flag decodes byte by byte through the CP437 table to scalar values,
  and two different byte names never decode to the same string.
\<close>

theorem decode_name_cp437_injective:
  assumes "\<not> has_bits flags 0x0800"
  shows "decode_name bs flags = map cp437_decode bs \<and> list_all is_scalar (decode_name bs flags) \<and>
    (decode_name bs flags = decode_name cs flags \<longleftrightarrow> bs = cs)"
proof -
  have "inj cp437_decode" using cp437_decode_inj by (rule injI)
  then show ?thesis
    by (simp add: decode_name_cp437 [OF assms] list_all_iff cp437_decode_scalar inj_map_eq_map)
qed

theorem decode_name_cp437_injective_witness: "decode_name [0x61, 0x80] 0 \<noteq> decode_name [0x61, 0x81] 0"
proof -
  have "\<not> has_bits 0 0x0800" by (simp add: has_bits_def)
  from decode_name_cp437_injective [OF this, of "[0x61, 0x80]" "[0x61, 0x81]"] show ?thesis by auto
qed

text \<open>
  C28: On Unix an extraction path exists exactly for a name that is not absolute, has no drive
  prefix or NUL, no parent component and at least one real one; it is then the real components
  joined by slashes, a non-empty relative path none of whose components is special.
\<close>

theorem enclosed_name_safe:
  "(enclosed_name Unix name = Some path \<longleftrightarrow>
     \<not> rejected_prefix name \<and> lit ''..'' \<notin> set (split_sep name) \<and>
     filter real_component (split_sep name) \<noteq> [] \<and>
     path = join_path (filter real_component (split_sep name))) \<and>
   (enclosed_name Unix name = Some path \<longrightarrow>
     path \<noteq> [] \<and> list_all safe_component (split_sep path))"
proof -
  let ?cs = "filter real_component (split_sep name)"
  have iff: "enclosed_name Unix name = Some path \<longleftrightarrow>
     \<not> rejected_prefix name \<and> lit ''..'' \<notin> set (split_sep name) \<and> ?cs \<noteq> [] \<and> path = join_path ?cs"
    by (auto simp: enclosed_name_unix)
  have "path \<noteq> [] \<and> list_all safe_component (split_sep path)" if "enclosed_name Unix name = Some path"
  proof -
    from that iff have cs: "?cs \<noteq> []" "lit ''..'' \<notin> set (split_sep name)" "path = join_path ?cs" by auto
    have "\<forall>c \<in> set ?cs. \<forall>x \<in> set c. \<not> is_sep x" by (auto dest: split_sep_no_sep)
    from split_join_path [OF cs(1) this] cs(3) have sp: "split_sep path = ?cs" by simp
    then have "list_all safe_component (split_sep path)"
      using cs(2) by (auto simp: list_all_iff safe_component_def dest: split_sep_no_sep)
    moreover have "path \<noteq> []"
    proof
      assume "path = []"
      with sp have "?cs = [[]]" by simp
      then have "[] \<in> set ?cs" by simp
      then show False by (simp add: real_component_def)
    qed
    ultimately show ?thesis by blast
  qed
  with iff show ?thesis by blast
qed

theorem enclosed_name_safe_witness:
  "enclosed_name Unix (lit ''a/./b'') = Some (lit ''a/b'') \<and> enclosed_name Unix (lit ''a/../b'') = None"
proof -
  have "\<not> rejected_prefix (lit ''a/./b'')" "split_sep (lit ''a/./b'') = [lit ''a'', lit ''.'', lit ''b'']"
    "lit ''..'' \<notin> set [lit ''a'', lit ''.'', lit ''b'']"
    "filter real_component [lit ''a'', lit ''.'', lit ''b''] = [lit ''a'', lit ''b'']"
    "join_path [lit ''a'', lit ''b''] = lit ''a/b''" "lit ''..'' \<in> set (split_sep (lit ''a/../b''))"
    by code_simp+
  moreover from this(6) have "enclosed_name Unix (lit ''a/../b'') \<noteq> Some p" for p
    using enclosed_name_safe [of "lit ''a/../b''" p] by blast
  then have "enclosed_name Unix (lit ''a/../b'') = None" by (cases "enclosed_name Unix (lit ''a/../b'')") auto
  ultimately show ?thesis
    using enclosed_name_safe [of "lit ''a/./b''" "lit ''a/b''"] by simp
qed

text \<open>
  On Windows the check does not hold: a drive prefix inside the name replaces the path built so
  far, so the returned extraction path leaves the destination.
\<close>

theorem enclosed_name_windows_escape:
  "enclosed_name Windows (lit ''x/C:/evil'') = Some (lit ''C:evil'') \<and>
   enclosed_name Unix (lit ''x/C:/evil'') = Some (lit ''x/C:/evil'')"
  by code_simp

end
