(* ===== verification/CentralDir.thy ===== *)
theory CentralDir
  imports Io ExtraField EntryName
begin

text \<open>
  The container parser of \<open>core/src/archive.rs\<close>: the End Of Central Directory record
  and its Zip64 form, the prefix detection, the central-directory headers and the digital
  signature record, composed as \<open>parse_central_directory\<close> composes them.
\<close>

abbreviation EOCD_SIG :: u32 where "EOCD_SIG \<equiv> 0x06054b50"
abbreviation CD_HEADER_SIG :: u32 where "CD_HEADER_SIG \<equiv> 0x02014b50"
abbreviation LFH_SIG :: u32 where "LFH_SIG \<equiv> 0x04034b50"
abbreviation ZIP64_EOCD_SIG :: u32 where "ZIP64_EOCD_SIG \<equiv> 0x06064b50"
abbreviation ARCHIVE_SIG_SIG :: u32 where "ARCHIVE_SIG_SIG \<equiv> 0x05054b50"
abbreviation ZIP64_LOCATOR_SIG :: u32 where "ZIP64_LOCATOR_SIG \<equiv> 0x07064b50"

abbreviation EOCD_MIN :: usize where "EOCD_MIN \<equiv> 22"
abbreviation EOCD_SCAN_MAX :: usize where "EOCD_SCAN_MAX \<equiv> 22 + 65535"
abbreviation ZIP64_LOCATOR_LEN :: usize where "ZIP64_LOCATOR_LEN \<equiv> 20"
abbreviation LFH_FIXED :: usize where "LFH_FIXED \<equiv> 30"
abbreviation MAX_ENTRIES :: usize where "MAX_ENTRIES \<equiv> 16000000"

section \<open>Central-directory headers\<close>

text \<open>The fixed fields of one header, up to and including the local-header offset.\<close>

record cd_fixed =
  fx_flags :: u16
  fx_method :: u16
  fx_mod_time :: u16
  fx_crc32 :: u32
  fx_compressed32 :: u32
  fx_uncompressed32 :: u32
  fx_name_len :: usize
  fx_extra_len :: usize
  fx_comment_len :: usize
  fx_disk_start :: u16
  fx_lfh_offset32 :: u32

definition parse_cd_fixed :: "(reader, cd_fixed, format_error) act" where
  "parse_cd_fixed =
     seq Reader_u16 (\<lambda>version_made_by.
     seq Reader_u16 (\<lambda>version_needed.
     seq Reader_u16 (\<lambda>flags.
     seq Reader_u16 (\<lambda>method_raw.
     seq Reader_u16 (\<lambda>last_mod_time.
     seq Reader_u16 (\<lambda>mod_date.
     seq Reader_u32 (\<lambda>crc32.
     seq Reader_u32 (\<lambda>compressed_size32.
     seq Reader_u32 (\<lambda>uncompressed_size32.
     seq Reader_u16 (\<lambda>name_len.
     seq Reader_u16 (\<lambda>extra_len.
     seq Reader_u16 (\<lambda>comment_len.
     seq Reader_u16 (\<lambda>disk_start.
     seq Reader_u16 (\<lambda>internal_attrs.
     seq Reader_u32 (\<lambda>external_attrs.
     seq Reader_u32 (\<lambda>lfh_offset32.
     ret \<lparr> fx_flags = flags, fx_method = method_raw, fx_mod_time = last_mod_time,
           fx_crc32 = crc32, fx_compressed32 = compressed_size32,
           fx_uncompressed32 = uncompressed_size32, fx_name_len = unat name_len,
           fx_extra_len = unat extra_len, fx_comment_len = unat comment_len,
           fx_disk_start = disk_start, fx_lfh_offset32 = lfh_offset32 \<rparr>))))))))))))))))"

text \<open>The Zip64 resolution of the three 32-bit fields: \<open>(uncompressed, compressed, offset)\<close>.\<close>

definition resolve_sizes :: "cd_fixed \<Rightarrow> u8 list \<Rightarrow> (u64 \<times> u64 \<times> u64, zip_core_error) outcome" where
  "resolve_sizes f extra =
     (if fx_uncompressed32 f = U32_SENTINEL \<or> fx_compressed32 f = U32_SENTINEL
         \<or> fx_lfh_offset32 f = U32_SENTINEL
      then apply_zip64_extra extra (fx_uncompressed32 f = U32_SENTINEL)
             (fx_compressed32 f = U32_SENTINEL) (fx_lfh_offset32 f = U32_SENTINEL)
             (ucast (fx_uncompressed32 f)) (ucast (fx_compressed32 f)) (ucast (fx_lfh_offset32 f))
      else Ok (ucast (fx_uncompressed32 f), ucast (fx_compressed32 f), ucast (fx_lfh_offset32 f)))"

definition make_entry :: "cd_fixed \<Rightarrow> u8 list \<Rightarrow> u8 list \<Rightarrow> (central_entry, zip_core_error) outcome" where
  "make_entry f name_bytes extra =
     and_then (resolve_sizes f extra) (\<lambda>(uncompressed_size, compressed_size, lfh_offset).
       Ok \<lparr> ce_name = decode_name name_bytes (fx_flags f),
            ce_method = method_from_u16 (fx_method f),
            ce_flags = fx_flags f,
            ce_crc32 = fx_crc32 f,
            ce_compressed_size = compressed_size,
            ce_uncompressed_size = uncompressed_size,
            ce_lfh_offset = lfh_offset,
            ce_last_mod_time = fx_mod_time f,
            ce_aes = (if fx_method f = 99 then parse_aes_extra extra else None),
            ce_disk_start = fx_disk_start f,
            ce_extra = parse_extra_fields extra \<rparr>)"

text \<open>One turn of the loop over the headers.\<close>

definition parse_cd_header :: "usize \<Rightarrow> (reader, central_entry, zip_core_error) act" where
  "parse_cd_header cd_len r =
     (if remaining r < 46 then (Err (Format Truncated), r)
      else seq (with_err Format Reader_u32) (\<lambda>sig r1.
        if sig \<noteq> CD_HEADER_SIG then
          (Err (Format (BadSignature (lit ''central directory header'')
             (of_nat (cd_len - remaining r1)))), r1)
        else
          seq (with_err Format parse_cd_fixed) (\<lambda>f.
          seq (with_err Format (Reader_take (fx_name_len f))) (\<lambda>name_bytes.
          seq (with_err Format (Reader_take (fx_extra_len f))) (\<lambda>extra.
          seq (with_err Format (Reader_take (fx_comment_len f))) (\<lambda>comment.
          lift_outcome (make_entry f name_bytes extra))))) r1) r)"

fun parse_cd_loop :: "usize \<Rightarrow> nat \<Rightarrow> (reader, central_entry list, zip_core_error) act" where
  "parse_cd_loop cd_len 0 = ret []"
| "parse_cd_loop cd_len (Suc n) =
     seq (parse_cd_header cd_len) (\<lambda>e.
     seq (parse_cd_loop cd_len n) (\<lambda>es. ret (e # es)))"

definition parse_cd_entries ::
  "u8 list \<Rightarrow> usize \<Rightarrow> (central_entry list \<times> usize, zip_core_error) outcome" where
  "parse_cd_entries cd total_entries =
     (case parse_cd_loop (length cd) total_entries (Reader_new cd) of
        (v, r) \<Rightarrow> and_then v (\<lambda>entries. Ok (entries, length cd - remaining r)))"

section \<open>The End Of Central Directory record\<close>

record eocd32 =
  eo_disk_number :: u16
  eo_cd_start_disk :: u16
  eo_total_entries :: u16
  eo_cd_size :: u32
  eo_cd_offset :: u32
  eo_comment_len :: u16

definition find_eocd :: "u8 list \<Rightarrow> usize option" where
  "find_eocd tail =
     (if length tail < EOCD_MIN then None
      else List.find (\<lambda>i. take 4 (drop i tail) = le32 EOCD_SIG)
             (rev [0..<Suc (length tail - EOCD_MIN)]))"

definition parse_eocd_act :: "(reader, eocd32, zip_core_error) act" where
  "parse_eocd_act =
     seq (with_err Format Reader_u32) (\<lambda>sig.
       if sig \<noteq> EOCD_SIG then fail (Format NoEocd)
       else with_err Format (
         seq Reader_u16 (\<lambda>disk_number.
         seq Reader_u16 (\<lambda>cd_start_disk.
         seq Reader_u16 (\<lambda>entries_this_disk.
         seq Reader_u16 (\<lambda>total_entries.
         seq Reader_u32 (\<lambda>cd_size.
         seq Reader_u32 (\<lambda>cd_offset.
         seq Reader_u16 (\<lambda>comment_len.
         ret \<lparr> eo_disk_number = disk_number, eo_cd_start_disk = cd_start_disk,
               eo_total_entries = total_entries, eo_cd_size = cd_size,
               eo_cd_offset = cd_offset, eo_comment_len = comment_len \<rparr>)))))))))"

definition parse_eocd :: "u8 list \<Rightarrow> (eocd32, zip_core_error) outcome" where
  "parse_eocd buf = fst (parse_eocd_act (Reader_new buf))"

definition parse_zip64_locator :: "(reader, u64, zip_core_error) act" where
  "parse_zip64_locator =
     seq (with_err Format Reader_u32) (\<lambda>sig.
       if sig \<noteq> ZIP64_LOCATOR_SIG then fail (Format Zip64Unsupported)
       else with_err Format (seq Reader_u32 (\<lambda>disk. Reader_u64)))"

text \<open>
  The 56-byte Zip64 record: \<open>(cd_offset, cd_size, total, disk_number, cd_start_disk)\<close>.
  \<open>usize::try_from\<close> of the 64-bit count always succeeds on the crate's targets.
\<close>

definition parse_zip64_record :: "u64 \<Rightarrow> (reader, u64 \<times> u64 \<times> usize \<times> u32 \<times> u32, zip_core_error) act" where
  "parse_zip64_record z64_eocd_offset =
     seq (with_err Format Reader_u32) (\<lambda>sig.
       if sig \<noteq> ZIP64_EOCD_SIG then
         fail (Format (BadSignature (lit ''Zip64 EOCD record'') z64_eocd_offset))
       else with_err Format (
         seq Reader_u64 (\<lambda>record_size.
         seq Reader_u16 (\<lambda>version_made_by.
         seq Reader_u16 (\<lambda>version_needed.
         seq Reader_u32 (\<lambda>disk_number.
         seq Reader_u32 (\<lambda>cd_start_disk.
         seq Reader_u64 (\<lambda>entries_this_disk.
         seq Reader_u64 (\<lambda>total_entries.
         seq Reader_u64 (\<lambda>cd_size.
         seq Reader_u64 (\<lambda>cd_offset.
         ret (cd_offset, cd_size, unat total_entries, disk_number, cd_start_disk))))))))))))"

definition resolve_zip64_eocd ::
  "u8 list \<Rightarrow> usize \<Rightarrow> (cursor, u64 \<times> u64 \<times> usize \<times> u32 \<times> u32, zip_core_error) act" where
  "resolve_zip64_eocd tail eocd_rel =
     (if eocd_rel < ZIP64_LOCATOR_LEN then fail (Format Zip64Unsupported)
      else
        seq (lift_outcome (slice tail (eocd_rel - ZIP64_LOCATOR_LEN) eocd_rel)) (\<lambda>loc.
        seq (lift_outcome (fst (parse_zip64_locator (Reader_new loc)))) (\<lambda>z64_eocd_offset.
        seq (with_err Io (seek_start z64_eocd_offset)) (\<lambda>_.
        seq (with_err Io (cursor_read_exact 56)) (\<lambda>rec.
        lift_outcome (fst (parse_zip64_record z64_eocd_offset (Reader_new rec))))))))"

section \<open>The prefix and the signature record\<close>

definition cd_header_at :: "u64 \<Rightarrow> (cursor, bool, zip_core_error) act" where
  "cd_header_at offset c =
     (case seek_start offset c of
        (Ok _, c1) \<Rightarrow>
          (case cursor_read_exact 4 c1 of
             (Ok sig, c2) \<Rightarrow> (Ok (from_le_bytes sig = CD_HEADER_SIG), c2)
           | (Err _, c2) \<Rightarrow> (Ok False, c2)
           | (Panic, c2) \<Rightarrow> (Panic, c2))
      | (Err _, c1) \<Rightarrow> (Ok False, c1)
      | (Panic, c1) \<Rightarrow> (Panic, c1))"

definition detect_prefix :: "bool \<Rightarrow> u64 \<Rightarrow> u64 \<Rightarrow> u64 \<Rightarrow> (cursor, u64, zip_core_error) act" where
  "detect_prefix is_zip64 eocd_pos cd_offset cd_size =
     (if is_zip64 then ret 0
      else case checked_sub64 eocd_pos (saturating_add64 cd_offset cd_size) of
        None \<Rightarrow> ret 0
      | Some n \<Rightarrow>
          if n = 0 then ret 0
          else seq (cd_header_at cd_offset) (\<lambda>here.
            if here then ret 0
            else seq (lift_outcome (add64 cd_offset n)) (\<lambda>shifted.
                 seq (cd_header_at shifted) (\<lambda>there.
                 ret (if there then n else 0)))))"

fun shift_entries :: "u64 \<Rightarrow> central_entry list \<Rightarrow> (central_entry list, zip_core_error) outcome" where
  "shift_entries prefix [] = Ok []"
| "shift_entries prefix (e # es) =
     and_then (add64 (ce_lfh_offset e) prefix) (\<lambda>off.
     and_then (shift_entries prefix es) (\<lambda>es'. Ok (e\<lparr>ce_lfh_offset := off\<rparr> # es')))"

definition archive_signature :: "u8 list \<Rightarrow> usize \<Rightarrow> (cursor, u16 option, zip_core_error) act" where
  "archive_signature cd cd_consumed =
     seq (lift_outcome (slice_from cd cd_consumed)) (\<lambda>trailing.
       if 6 \<le> length trailing \<and> take 4 trailing = le32 ARCHIVE_SIG_SIG then
         ret (Some (from_le_bytes [trailing ! 4, trailing ! 5]))
       else if trailing = [] then
         (\<lambda>c. case cursor_read_exact 6 c of
            (Ok hdr, c') \<Rightarrow>
              (Ok (if take 4 hdr = le32 ARCHIVE_SIG_SIG
                   then Some (from_le_bytes [hdr ! 4, hdr ! 5]) else None), c')
          | (Err _, c') \<Rightarrow> (Ok None, c')
          | (Panic, c') \<Rightarrow> (Panic, c'))
       else ret None)"

section \<open>The whole parse\<close>

text \<open>
  \<open>parse_central_directory\<close> in its two halves: locating the directory (the scan for the
  EOCD, the Zip64 promotion, the prefix and the range checks), and reading it (the headers,
  the shift past the prefix, the signature record).
\<close>

record cd_location =
  lo_cd_size :: u64
  lo_total_entries :: usize
  lo_disk_number :: u32
  lo_cd_start_disk :: u32
  lo_prefix :: u64
  lo_actual_cd_offset :: u64
  lo_eocd_end_offset :: u64
  lo_comment_len :: u16

definition is_zip64_eocd :: "eocd32 \<Rightarrow> bool" where
  "is_zip64_eocd eocd \<longleftrightarrow> eo_cd_offset eocd = U32_SENTINEL \<or> eo_cd_size eocd = U32_SENTINEL
     \<or> eo_total_entries eocd = U16_SENTINEL"

definition locate_central_directory :: "u64 \<Rightarrow> (cursor, cd_location, zip_core_error) act" where
  "locate_central_directory flen =
     (let scan_len = min (unat flen) EOCD_SCAN_MAX in
      if scan_len < EOCD_MIN then fail (Format NoEocd)
      else
        seq (lift_outcome (sub64 flen (of_nat scan_len))) (\<lambda>scan_start.
        seq (with_err Io (seek_start scan_start)) (\<lambda>_.
        seq (with_err Io (cursor_read_exact scan_len)) (\<lambda>tail.
        seq (lift_outcome (ok_or (find_eocd tail) (Format NoEocd))) (\<lambda>eocd_rel.
        seq (lift_outcome (slice_from tail eocd_rel)) (\<lambda>buf.
        seq (lift_outcome (parse_eocd buf)) (\<lambda>eocd.
        seq (lift_outcome (add64 scan_start (of_nat eocd_rel))) (\<lambda>eocd_pos.
        seq (lift_outcome (add64 eocd_pos (of_nat EOCD_MIN))) (\<lambda>past_fixed.
        seq (lift_outcome (add64 past_fixed (ucast (eo_comment_len eocd)))) (\<lambda>eocd_end.
        seq (if is_zip64_eocd eocd then resolve_zip64_eocd tail eocd_rel
             else ret (ucast (eo_cd_offset eocd), ucast (eo_cd_size eocd),
               unat (eo_total_entries eocd), ucast (eo_disk_number eocd),
               ucast (eo_cd_start_disk eocd))) (\<lambda>(cd_offset, cd_size, total_entries, disk, start_disk).
        seq (detect_prefix (is_zip64_eocd eocd) eocd_pos cd_offset cd_size) (\<lambda>prefix.
        seq (lift_outcome (add64 cd_offset prefix)) (\<lambda>actual_cd_offset.
        if (case checked_add64 actual_cd_offset cd_size of
              Some cd_end \<Rightarrow> flen < cd_end | None \<Rightarrow> True)
        then fail (Format (CentralDirOutOfRange cd_offset cd_size))
        else if MAX_ENTRIES < total_entries then fail (Format (TooManyEntries total_entries))
        else ret \<lparr> lo_cd_size = cd_size, lo_total_entries = total_entries,
               lo_disk_number = disk, lo_cd_start_disk = start_disk, lo_prefix = prefix,
               lo_actual_cd_offset = actual_cd_offset, lo_eocd_end_offset = eocd_end,
               lo_comment_len = eo_comment_len eocd \<rparr>)))))))))))))"

definition read_central_directory ::
  "u64 \<Rightarrow> cd_location \<Rightarrow> (cursor, central_entry list \<times> archive_summary, zip_core_error) act" where
  "read_central_directory flen loc =
     seq (with_err Io (seek_start (lo_actual_cd_offset loc))) (\<lambda>_.
     seq (with_err Io (cursor_read_exact (unat (lo_cd_size loc)))) (\<lambda>cd.
     seq (lift_outcome (parse_cd_entries cd (lo_total_entries loc))) (\<lambda>(entries, cd_consumed).
     seq (lift_outcome (if 0 < lo_prefix loc then shift_entries (lo_prefix loc) entries
                        else Ok entries)) (\<lambda>shifted.
     seq (archive_signature cd cd_consumed) (\<lambda>sig_len.
     ret (shifted,
       \<lparr> file_len = flen, central_dir_offset = lo_actual_cd_offset loc,
         central_dir_size = lo_cd_size loc, eocd_end_offset = lo_eocd_end_offset loc,
         comment_len = lo_comment_len loc, disk_number = lo_disk_number loc,
         cd_start_disk = lo_cd_start_disk loc, archive_signature_len = sig_len \<rparr>))))))"

definition parse_central_directory ::
  "u64 \<Rightarrow> (cursor, central_entry list \<times> archive_summary, zip_core_error) act" where
  "parse_central_directory flen = seq (locate_central_directory flen) (read_central_directory flen)"

section \<open>Opening an archive\<close>

record zip_archive =
  za_reader :: cursor
  za_entries :: "central_entry list"
  za_summary :: archive_summary

definition ZipArchive_new :: "cursor \<Rightarrow> (zip_archive, zip_core_error) outcome" where
  "ZipArchive_new reader =
     (case seq (with_err Io seek_end) parse_central_directory reader of
        (Ok (entries, summary), reader') \<Rightarrow>
          Ok \<lparr> za_reader = reader', za_entries = entries, za_summary = summary \<rparr>
      | (Err e, _) \<Rightarrow> Err e
      | (Panic, _) \<Rightarrow> Panic)"

definition archive_len :: "zip_archive \<Rightarrow> usize" where
  "archive_len a = length (za_entries a)"

definition archive_is_empty :: "zip_archive \<Rightarrow> bool" where
  "archive_is_empty a \<longleftrightarrow> za_entries a = []"

definition file_names :: "zip_archive \<Rightarrow> rstring list" where
  "file_names a = map ce_name (za_entries a)"

section \<open>The format of a header\<close>

record cd_header =
  h_version_made :: u16
  h_version_needed :: u16
  h_flags :: u16
  h_method :: u16
  h_mod_time :: u16
  h_mod_date :: u16
  h_crc32 :: u32
  h_compressed32 :: u32
  h_uncompressed32 :: u32
  h_disk_start :: u16
  h_internal :: u16
  h_external :: u32
  h_lfh_offset32 :: u32
  h_name :: "u8 list"
  h_extra :: "u8 list"
  h_comment :: "u8 list"

text \<open>The three variable parts have 16-bit lengths.\<close>

definition header_ok :: "cd_header \<Rightarrow> bool" where
  "header_ok h \<longleftrightarrow> length (h_name h) < 65536 \<and> length (h_extra h) < 65536 \<and> length (h_comment h) < 65536"

definition encode_fixed :: "cd_header \<Rightarrow> u8 list" where
  "encode_fixed h =
     le16 (h_version_made h) @ le16 (h_version_needed h) @ le16 (h_flags h) @ le16 (h_method h) @
     le16 (h_mod_time h) @ le16 (h_mod_date h) @ le32 (h_crc32 h) @ le32 (h_compressed32 h) @
     le32 (h_uncompressed32 h) @ le16 (of_nat (length (h_name h))) @
     le16 (of_nat (length (h_extra h))) @ le16 (of_nat (length (h_comment h))) @
     le16 (h_disk_start h) @ le16 (h_internal h) @ le32 (h_external h) @ le32 (h_lfh_offset32 h)"

definition encode_header :: "cd_header \<Rightarrow> u8 list" where
  "encode_header h = le32 CD_HEADER_SIG @ encode_fixed h @ h_name h @ h_extra h @ h_comment h"

definition fixed_of :: "cd_header \<Rightarrow> cd_fixed" where
  "fixed_of h = \<lparr> fx_flags = h_flags h, fx_method = h_method h, fx_mod_time = h_mod_time h,
     fx_crc32 = h_crc32 h, fx_compressed32 = h_compressed32 h,
     fx_uncompressed32 = h_uncompressed32 h, fx_name_len = length (h_name h),
     fx_extra_len = length (h_extra h), fx_comment_len = length (h_comment h),
     fx_disk_start = h_disk_start h, fx_lfh_offset32 = h_lfh_offset32 h \<rparr>"

definition entry_of :: "cd_header \<Rightarrow> (central_entry, zip_core_error) outcome" where
  "entry_of h = make_entry (fixed_of h) (h_name h) (h_extra h)"

lemma length_encode_fixed [simp]: "length (encode_fixed h) = 42"
  by (simp add: encode_fixed_def)

lemma length_encode_header:
  "length (encode_header h) = 46 + length (h_name h) + length (h_extra h) + length (h_comment h)"
  by (simp add: encode_header_def)

lemma parses_fixed:
  assumes "header_ok h"
  shows "parses parse_cd_fixed (encode_fixed h) (fixed_of h)"
proof -
  have len: "unat (of_nat (length (h_name h)) :: u16) = length (h_name h)"
    "unat (of_nat (length (h_extra h)) :: u16) = length (h_extra h)"
    "unat (of_nat (length (h_comment h)) :: u16) = length (h_comment h)"
    using assms by (simp_all add: header_ok_def unat_of_nat)
  have "parses parse_cd_fixed (encode_fixed h @ [])
    \<lparr> fx_flags = h_flags h, fx_method = h_method h, fx_mod_time = h_mod_time h,
     fx_crc32 = h_crc32 h, fx_compressed32 = h_compressed32 h,
     fx_uncompressed32 = h_uncompressed32 h, fx_name_len = unat (of_nat (length (h_name h)) :: u16),
     fx_extra_len = unat (of_nat (length (h_extra h)) :: u16),
     fx_comment_len = unat (of_nat (length (h_comment h)) :: u16),
     fx_disk_start = h_disk_start h, fx_lfh_offset32 = h_lfh_offset32 h \<rparr>"
    unfolding parse_cd_fixed_def encode_fixed_def append_assoc
    by (rule consumes_seq, rule parses_u16 parses_u32)+ (rule consumes_ret)
  then show ?thesis by (simp only: len fixed_of_def append_Nil2)
qed

lemma parse_cd_header_encoded:
  assumes "reader_ok r" and "unread r = encode_header h @ t" and "header_ok h"
  shows "\<exists>r'. parse_cd_header n r = (entry_of h, r') \<and> unread r' = t \<and> reader_ok r'"
proof -
  have rem: "\<not> remaining r < 46"
    using assms(2) length_encode_header [of h] by (simp add: remaining_eq)
  from consumesD [OF consumes_with_err [OF parses_u32] assms(1), of CD_HEADER_SIG _ Format]
    assms(2) obtain r1 where 1: "with_err Format Reader_u32 r = (Ok CD_HEADER_SIG, r1)"
    "unread r1 = encode_fixed h @ h_name h @ h_extra h @ h_comment h @ t" "reader_ok r1"
    by (auto simp: encode_header_def)
  from consumesD [OF consumes_with_err [OF parses_fixed [OF assms(3)]] 1(3,2)]
  obtain r2 where 2: "with_err Format parse_cd_fixed r1 = (Ok (fixed_of h), r2)"
    "unread r2 = h_name h @ h_extra h @ h_comment h @ t" "reader_ok r2" .
  from consumesD [OF consumes_with_err [OF parses_take [OF refl]] 2(3,2)] obtain r3 where
    3: "with_err Format (Reader_take (length (h_name h))) r2 = (Ok (h_name h), r3)"
    "unread r3 = h_extra h @ h_comment h @ t" "reader_ok r3" .
  from consumesD [OF consumes_with_err [OF parses_take [OF refl]] 3(3,2)] obtain r4 where
    4: "with_err Format (Reader_take (length (h_extra h))) r3 = (Ok (h_extra h), r4)"
    "unread r4 = h_comment h @ t" "reader_ok r4" .
  from consumesD [OF consumes_with_err [OF parses_take [OF refl]] 4(3,2)] obtain r5 where
    5: "with_err Format (Reader_take (length (h_comment h))) r4 = (Ok (h_comment h), r5)"
    "unread r5 = t" "reader_ok r5" .
  have lens: "fx_name_len (fixed_of h) = length (h_name h)"
    "fx_extra_len (fixed_of h) = length (h_extra h)"
    "fx_comment_len (fixed_of h) = length (h_comment h)" by (simp_all add: fixed_of_def)
  have "parse_cd_header n r = (entry_of h, r5)"
    using rem 1(1) 2(1) 3(1) 4(1) 5(1)
    by (simp add: parse_cd_header_def seq_def lens entry_of_def)
  with 5 show ?thesis by blast
qed

text \<open>The entries of a list of headers, or the error of the first header that has one.\<close>

fun entries_of :: "cd_header list \<Rightarrow> (central_entry list, zip_core_error) outcome" where
  "entries_of [] = Ok []"
| "entries_of (h # hs) = and_then (entry_of h) (\<lambda>e. and_then (entries_of hs) (\<lambda>es. Ok (e # es)))"

lemma parse_cd_loop_encoded:
  assumes "reader_ok r" and "unread r = concat (map encode_header hs) @ t"
    and "list_all header_ok hs" and "entries_of hs = Ok es"
  shows "\<exists>r'. parse_cd_loop n (length hs) r = (Ok es, r') \<and> unread r' = t \<and> reader_ok r'"
  using assms
proof (induction hs arbitrary: r es)
  case (Cons h hs)
  then obtain e es' where e: "entry_of h = Ok e" "entries_of hs = Ok es'" "es = e # es'" by auto
  from parse_cd_header_encoded [OF Cons.prems(1), of h] Cons.prems e obtain r1 where
    1: "parse_cd_header n r = (Ok e, r1)" "unread r1 = concat (map encode_header hs) @ t" "reader_ok r1"
    by auto
  from Cons.IH [OF 1(3,2) _ e(2)] Cons.prems obtain r2 where
    "parse_cd_loop n (length hs) r1 = (Ok es', r2)" "unread r2 = t" "reader_ok r2" by auto
  with 1 e show ?case by auto
qed auto

lemma parse_cd_entries_encoded:
  assumes "list_all header_ok hs" and "entries_of hs = Ok es"
    and "length (concat (map encode_header hs) @ t) < 2 ^ 64"
  shows "parse_cd_entries (concat (map encode_header hs) @ t) (length hs) =
    Ok (es, length (concat (map encode_header hs)))"
proof -
  let ?cd = "concat (map encode_header hs) @ t"
  have "reader_ok (Reader_new ?cd)" using assms(3) by (simp only: reader_ok_new)
  from parse_cd_loop_encoded [OF this unread_new assms(1,2)] obtain r where
    r: "parse_cd_loop (length ?cd) (length hs) (Reader_new ?cd) = (Ok es, r)" "unread r = t"
    by blast
  then have "length ?cd - remaining r = length (concat (map encode_header hs))"
    by (simp add: remaining_eq)
  with r show ?thesis by (simp add: parse_cd_entries_def)
qed

text \<open>The entry of a header without Zip64 sentinels.\<close>

lemma entry_of_plain:
  assumes "h_compressed32 h \<noteq> U32_SENTINEL" and "h_uncompressed32 h \<noteq> U32_SENTINEL"
    and "h_lfh_offset32 h \<noteq> U32_SENTINEL"
  shows "entry_of h = Ok
    \<lparr> ce_name = decode_name (h_name h) (h_flags h), ce_method = method_from_u16 (h_method h),
      ce_flags = h_flags h, ce_crc32 = h_crc32 h,
      ce_compressed_size = ucast (h_compressed32 h),
      ce_uncompressed_size = ucast (h_uncompressed32 h),
      ce_lfh_offset = ucast (h_lfh_offset32 h), ce_last_mod_time = h_mod_time h,
      ce_aes = (if h_method h = 99 then parse_aes_extra (h_extra h) else None),
      ce_disk_start = h_disk_start h, ce_extra = parse_extra_fields (h_extra h) \<rparr>"
  using assms by (simp add: entry_of_def make_entry_def resolve_sizes_def fixed_of_def)

end
