(* ===== verification/Container.thy ===== *)
theory Container
  imports CentralDir
begin

text \<open>
  Properties of the container parser: what the EOCD scan finds, that no step panics but
  the shift of a local-header offset past a prefix, the bounds of a successful parse, and
  the round trip with the format: an archive written field by field, with or without data
  prepended, parses to the entries it was written from.
\<close>

section \<open>The EOCD scan\<close>

definition eocd_sig_at :: "u8 list \<Rightarrow> usize \<Rightarrow> bool" where
  "eocd_sig_at tail i \<longleftrightarrow> take 4 (drop i tail) = le32 EOCD_SIG"

lemma find_eocd_Some:
  "find_eocd tail = Some k \<longleftrightarrow>
     k + EOCD_MIN \<le> length tail \<and> eocd_sig_at tail k \<and>
     (\<forall>j. k < j \<and> j + EOCD_MIN \<le> length tail \<longrightarrow> \<not> eocd_sig_at tail j)"
proof (cases "length tail < EOCD_MIN")
  case False
  have "i < Suc (length tail - EOCD_MIN) \<longleftrightarrow> i + EOCD_MIN \<le> length tail" for i
    using False by arith
  then show ?thesis
    unfolding find_eocd_def eocd_sig_at_def if_not_P [OF False] find_rev_upt_Some by simp
qed (simp add: find_eocd_def)

lemma find_eocd_None:
  "find_eocd tail = None \<longleftrightarrow> (\<forall>j. j + EOCD_MIN \<le> length tail \<longrightarrow> \<not> eocd_sig_at tail j)"
proof (cases "length tail < EOCD_MIN")
  case False
  have "i < Suc (length tail - EOCD_MIN) \<longleftrightarrow> i + EOCD_MIN \<le> length tail" for i
    using False by arith
  then show ?thesis
    unfolding find_eocd_def eocd_sig_at_def if_not_P [OF False] find_rev_upt_None by simp
qed (simp add: find_eocd_def)

text \<open>The indexing \<open>tail[i..i + 4]\<close> of the scan stays inside the slice.\<close>

lemma find_eocd_slice: "i < Suc (length tail - EOCD_MIN) \<Longrightarrow> EOCD_MIN \<le> length tail \<Longrightarrow>
    slice tail i (i + 4) = Ok (take 4 (drop i tail))"
  by simp

section \<open>Panics\<close>

lemma parse_eocd_no_panic [no_panic]: "parse_eocd buf \<noteq> Panic"
proof -
  have "fine parse_eocd_act (Reader_new buf)"
    unfolding parse_eocd_act_def by (auto simp: no_panic intro!: seq_fine)
  then show ?thesis by (simp add: parse_eocd_def fine_def)
qed

lemma parse_zip64_locator_fine [no_panic]: "fine parse_zip64_locator r"
  unfolding parse_zip64_locator_def by (auto simp: no_panic intro!: seq_fine)

lemma parse_zip64_record_fine [no_panic]: "fine (parse_zip64_record off) r"
  unfolding parse_zip64_record_def by (auto simp: no_panic intro!: seq_fine)

lemma parse_cd_fixed_fine [no_panic]: "fine parse_cd_fixed r"
  unfolding parse_cd_fixed_def by (auto simp: no_panic intro!: seq_fine)

lemma make_entry_no_panic [no_panic]: "make_entry f n e \<noteq> Panic"
  by (auto simp: make_entry_def resolve_sizes_def and_then_eq_Panic no_panic)

lemma parse_cd_header_fine [no_panic]: "fine (parse_cd_header n) r"
proof (cases "remaining r < 46")
  case False
  show ?thesis
    by (rule fineI, unfold parse_cd_header_def if_not_P [OF False], rule refl)
      (auto simp: no_panic intro!: seq_fine)
qed (simp add: fine_def parse_cd_header_def)

lemma parse_cd_loop_fine [no_panic]: "fine (parse_cd_loop k n) r"
  by (induction n arbitrary: r) (auto simp: no_panic intro!: seq_fine)

lemma parse_cd_entries_no_panic [no_panic]: "parse_cd_entries cd n \<noteq> Panic"
  using parse_cd_loop_fine [of "length cd" n "Reader_new cd"]
  by (auto simp: parse_cd_entries_def and_then_eq_Panic fine_def split: prod.splits)

lemma cd_header_at_eq:
  "cd_header_at off c =
     (let at = c\<lparr>cu_pos := unat off\<rparr> in
      (Ok (4 \<le> length (ahead at) \<and> from_le_bytes (take 4 (ahead at)) = CD_HEADER_SIG),
       snd (cursor_read_exact 4 at)))"
  by (simp add: cd_header_at_def seek_start_def cursor_read_exact_def)

lemma cd_header_at_fine [no_panic]: "fine (cd_header_at off) c"
  by (simp add: fine_def cd_header_at_eq Let_def)

lemma resolve_zip64_eocd_fine [no_panic]:
  "eocd_rel \<le> length tail \<Longrightarrow> fine (resolve_zip64_eocd tail eocd_rel) c"
  unfolding resolve_zip64_eocd_def
  by (auto simp: no_panic slice_Panic_iff fineD intro!: seq_fine)

lemma checked_sub64_Some: "checked_sub64 a b = Some n \<Longrightarrow> unat n + unat b = unat a"
  by (auto simp: checked_sub64_def unat_sub word_le_nat_alt split: if_splits)

lemma detect_prefix_fine:
  assumes "unat cd_offset + unat eocd_pos < 2 ^ 64 \<or> z"
  shows "fine (detect_prefix z eocd_pos cd_offset cd_size) c"
proof -
  have "add64 cd_offset n \<noteq> (Panic :: (u64, zip_core_error) outcome)"
    if "checked_sub64 eocd_pos m = Some n" "\<not> z" for n m
    using checked_sub64_Some [OF that(1)] that(2) assms by (simp add: add64_Panic_iff)
  then show ?thesis
    unfolding detect_prefix_def
    by (auto simp: no_panic intro!: seq_fine split: option.splits)
qed

text \<open>A detected prefix is exactly what separates the recorded directory from the EOCD.\<close>

lemma detect_prefix_cases:
  assumes "detect_prefix z eocd_pos cd_offset cd_size c = (Ok p, c')"
  shows "p = 0 \<or> (\<not> z \<and> unat cd_offset + unat cd_size + unat p = unat eocd_pos)"
proof -
  have "unat cd_offset + unat cd_size + unat n = unat eocd_pos"
    if "checked_sub64 eocd_pos (saturating_add64 cd_offset cd_size) = Some n" "n \<noteq> 0" for n
  proof -
    from checked_sub64_Some [OF that(1)]
    have un: "unat n + unat (saturating_add64 cd_offset cd_size) = unat eocd_pos" .
    moreover have "0 < unat n" using that(2) by (simp add: unat_gt_0)
    moreover have "unat eocd_pos < 2 ^ 64" by simp
    ultimately have "unat (saturating_add64 cd_offset cd_size) < 2 ^ 64 - 1" by linarith
    with un show ?thesis by (simp add: unat_saturating_add64 min_def split: if_splits)
  qed
  with assms show ?thesis
    by (auto simp: detect_prefix_def seq_eq_Ok split: option.splits if_splits)
qed

text \<open>Locating the directory never panics on a file that fits a signed 64-bit length.\<close>

definition file_ok :: "u8 list \<Rightarrow> bool" where
  "file_ok file \<longleftrightarrow> length file < 2 ^ 63"

abbreviation flen_of :: "cursor \<Rightarrow> u64" where
  "flen_of c \<equiv> of_nat (length (cu_data c))"

lemma unat_flen: "file_ok (cu_data c) \<Longrightarrow> unat (flen_of c) = length (cu_data c)"
  by (simp add: file_ok_def unat_of_nat64)

lemma scan_start:
  assumes "sub64 flen (of_nat (min (unat flen) EOCD_SCAN_MAX)) = Ok scan_start"
  shows "unat scan_start + min (unat flen) EOCD_SCAN_MAX = unat flen"
proof -
  have "min (unat flen) EOCD_SCAN_MAX < 2 ^ 64" by (simp add: min_def)
  then have "unat (of_nat (min (unat flen) EOCD_SCAN_MAX) :: u64) = min (unat flen) EOCD_SCAN_MAX"
    by (simp add: unat_of_nat64)
  with assms show ?thesis
    by (auto simp: sub64_def unat_sub word_le_nat_alt split: if_splits)
qed

lemma scan_start_Ok: "sub64 flen (of_nat (min (unat flen) EOCD_SCAN_MAX)) \<noteq> Panic"
proof -
  have "min (unat flen) EOCD_SCAN_MAX < 2 ^ 64" by (simp add: min_def)
  then have "of_nat (min (unat flen) EOCD_SCAN_MAX) \<le> flen"
    by (simp add: word_le_nat_alt unat_of_nat64)
  then show ?thesis by (simp add: sub64_def)
qed

lemma cursor_read_exact_length:
  "cursor_read_exact n c = (Ok bs, c') \<Longrightarrow> length bs = n"
  using cursor_exact.grab_OkD by blast

text \<open>What holds once the EOCD is found: its position and end are in range.\<close>

lemma eocd_position:
  assumes "unat flen < 2 ^ 63"
    and "sub64 flen (of_nat (min (unat flen) EOCD_SCAN_MAX)) = Ok scan_start"
    and "length tail = min (unat flen) EOCD_SCAN_MAX" and "find_eocd tail = Some rel"
  shows "unat scan_start + unat (of_nat rel :: u64) + 22 \<le> unat flen"
    and "unat (scan_start + of_nat rel) = unat scan_start + rel"
proof -
  from assms(4) have rel: "rel + 22 \<le> length tail" by (simp add: find_eocd_Some)
  with assms(3) have "unat (of_nat rel :: u64) = rel" by (simp add: unat_of_nat64 min_def split: if_splits)
  moreover from scan_start [OF assms(2)] rel assms(3)
  have "unat scan_start + rel + 22 \<le> unat flen" by linarith
  ultimately show "unat scan_start + unat (of_nat rel :: u64) + 22 \<le> unat flen"
    and "unat (scan_start + of_nat rel) = unat scan_start + rel"
    using assms(1) unat_add64 [of scan_start "of_nat rel"] by simp_all
qed

lemma eocd_arithmetic:
  fixes a :: u64
  assumes flen: "unat flen < 2 ^ 63"
    and "sub64 flen (of_nat (min (unat flen) EOCD_SCAN_MAX)) = (Ok a :: (u64, zip_core_error) outcome)"
    and "with_err Io (cursor_read_exact (min (unat flen) EOCD_SCAN_MAX)) c = (Ok tail, c')"
    and "ok_or (find_eocd tail) (Format NoEocd) = Ok rel"
  shows "rel \<le> length tail"
    and "add64 a (of_nat rel) \<noteq> (Panic :: (u64, zip_core_error) outcome)"
    and "unat (a + of_nat rel) + 22 < 9223372036854775808"
    and "unat (a + of_nat rel) + 22 \<le> unat flen"
proof -
  have len: "length tail = min (unat flen) EOCD_SCAN_MAX" and find: "find_eocd tail = Some rel"
    using assms(3,4) by (simp_all only: with_err_Ok cursor_read_exact_length ok_or_eq_Ok)
  note p = eocd_position [OF flen assms(2) len find]
  from p(1) flen have "unat a + unat (of_nat rel :: u64) < 2 ^ 64" by simp
  then show "add64 a (of_nat rel) \<noteq> (Panic :: (u64, zip_core_error) outcome)"
    by (simp only: add64_Panic_iff not_le not_False_eq_True)
  have "unat (a + of_nat rel) = unat a + unat (of_nat rel :: u64)"
    using p(1) flen by (intro unat_add64) simp
  with p(1) show le: "unat (a + of_nat rel) + 22 \<le> unat flen" by simp
  with flen show "unat (a + of_nat rel) + 22 < 9223372036854775808" by simp
  show "rel \<le> length tail" using find by (simp add: find_eocd_Some)
qed

lemma eocd_end_arithmetic:
  assumes "unat p + 22 < 9223372036854775808"
  shows "add64 p (of_nat EOCD_MIN) \<noteq> Panic" and "add64 (p + of_nat EOCD_MIN) (ucast (w :: u16)) \<noteq> Panic"
    and "unat (ucast (o32 :: u32) :: u64) + unat p < 2 ^ 64"
proof -
  have "unat (p + 22) = unat p + 22" using assms unat_add64 [of p 22] by simp
  moreover have "unat w < 65536" "unat o32 < 4294967296" by simp_all
  ultimately have "unat (p + 22) + unat w < 18446744073709551616"
    "unat o32 + unat p < 18446744073709551616" using assms by linarith+
  then show "add64 (p + of_nat EOCD_MIN) (ucast w) \<noteq> Panic"
    "unat (ucast o32 :: u64) + unat p < 2 ^ 64"
    by (simp_all add: add64_Panic_iff unat_ucast16 unat_ucast32 not_le)
  show "add64 p (of_nat EOCD_MIN) \<noteq> Panic" using assms by (simp add: add64_Panic_iff)
qed

lemma prefix_stage_fine:
  assumes "z \<or> unat cd_offset + unat eocd_pos < 2 ^ 64"
  shows "fine (seq (detect_prefix z eocd_pos cd_offset cd_size) (\<lambda>prefix.
      seq (lift_outcome (add64 cd_offset prefix)) (\<lambda>actual.
        if P actual then fail (Format (CentralDirOutOfRange cd_offset cd_size))
        else if Q then fail (Format (TooManyEntries n)) else ret (f prefix actual)))) c"
proof (intro fine_seq_lift seq_fine)
  show "fine (detect_prefix z eocd_pos cd_offset cd_size) c"
    by (rule detect_prefix_fine) (use assms in blast)
next
  fix p c'
  assume "detect_prefix z eocd_pos cd_offset cd_size c = (Ok p, c')"
  from detect_prefix_cases [OF this] assms
  consider "p = 0" | "unat cd_offset + unat p \<le> unat eocd_pos" by linarith
  then show "add64 cd_offset p \<noteq> (Panic :: (u64, zip_core_error) outcome)"
  proof cases
    case 2
    moreover have "unat eocd_pos < 18446744073709551616" by simp
    ultimately have "unat cd_offset + unat p < 18446744073709551616" by linarith
    then show ?thesis by (simp add: add64_Panic_iff)
  qed (simp add: add64_Panic_iff not_le)
qed simp

lemma locate_fine:
  assumes flen: "unat flen < 2 ^ 63"
  shows "fine (locate_central_directory flen) c"
proof (cases "min (unat flen) EOCD_SCAN_MAX < EOCD_MIN")
  case False
  note a = eocd_arithmetic [OF flen]
  show ?thesis
    unfolding locate_central_directory_def Let_def if_not_P [OF False]
  proof (intro fine_seq_lift seq_fine scan_start_Ok, goal_cases)
    case (4 a _ c1 tail c2 rel)
    from a(1) [OF this(1,3,4)] show ?case by (simp add: slice_from_OkI)
  next
    case (6 a _ c1 tail c2 rel)
    from a(2) [OF this(1,3,4)] show ?case .
  next
    case (7 a _ c1 tail c2 rel _ eocd p)
    then have "p = a + of_nat rel" by (simp only: add64_eq_Ok)
    with a(3) [OF 7(1,3,4)] show ?case by (simp only: eocd_end_arithmetic not_False_eq_True)
  next
    case (8 a _ c1 tail c2 rel _ eocd p q)
    then have "p = a + of_nat rel" "q = p + of_nat EOCD_MIN" by (simp_all only: add64_eq_Ok)
    with a(3) [OF 8(1,3,4)] show ?case by (simp only: eocd_end_arithmetic not_False_eq_True)
  next
    case (9 a _ c1 tail c2 rel)
    from a(1) [OF 9(1,3,4)] show ?case by (simp add: resolve_zip64_eocd_fine)
  next
    case (10 a _ c1 tail c2 rel _ eocd p q e loc c3)
    then have "p = a + of_nat rel" by (simp only: add64_eq_Ok)
    with a(3) [OF 10(1,3,4)] have small: "unat (ucast (o32 :: u32) :: u64) + unat p < 2 ^ 64" for o32
      by (simp only: eocd_end_arithmetic)
    obtain cd_offset cd_size total disk start where loc: "loc = (cd_offset, cd_size, total, disk, start)"
      by (cases loc)
    have "is_zip64_eocd eocd \<or> unat cd_offset + unat p < 2 ^ 64"
      using 10(10) small unfolding loc by (cases "is_zip64_eocd eocd") auto
    then show ?case unfolding loc prod.case by (rule prefix_stage_fine)
  qed (simp_all add: no_panic)
next
  case True
  show ?thesis unfolding locate_central_directory_def Let_def if_P [OF True] by simp
qed

section \<open>Reading the located directory\<close>

lemma advances_parse_cd_fixed: "advances 42 parse_cd_fixed"
  by (rule advances_weaken, unfold parse_cd_fixed_def, (rule advances_seq, rule advances_ints)+,
      rule advances_ret) simp

lemma advances_parse_cd_header: "advances 46 (parse_cd_header n)"
proof -
  have after: "advances 42 (seq (with_err Format parse_cd_fixed) (\<lambda>f.
          seq (with_err Format (Reader_take (fx_name_len f))) (\<lambda>name_bytes.
          seq (with_err Format (Reader_take (fx_extra_len f))) (\<lambda>extra.
          seq (with_err Format (Reader_take (fx_comment_len f))) (\<lambda>comment.
          lift_outcome (make_entry f name_bytes extra))))))"
    by (rule advances_weaken, rule advances_seq [OF advances_with_err [OF advances_parse_cd_fixed]],
        (rule advances_seq, rule advances_with_err [OF advances_take0])+, rule advances_lift) simp
  have checked: "advances k (\<lambda>r1. if P r1 then (Err (e r1), r1) else m r1)"
    if "advances k m" for k P e and m :: "(reader, central_entry, zip_core_error) act"
    using that by (simp add: advances_def)
  have "advances (4 + 42) (parse_cd_header n)"
    unfolding parse_cd_header_def [abs_def]
    by (intro checked advances_seq advances_with_err advances_u32 after)
  then show ?thesis by simp
qed

lemma parse_cd_loop_progress:
  "parse_cd_loop k n r = (Ok es, r') \<Longrightarrow>
     length es = n \<and> remaining r' + 46 * n \<le> remaining r \<and> rd_data r' = rd_data r"
proof (induction n arbitrary: r es)
  case (Suc n)
  then obtain e r1 es' where "parse_cd_header k r = (Ok e, r1)"
    "parse_cd_loop k n r1 = (Ok es', r')" "es = e # es'"
    by (auto simp: seq_eq_Ok)
  with Suc.IH advancesD [OF advances_parse_cd_header] show ?case by fastforce
qed simp

lemma parse_cd_entries_bounds:
  assumes "parse_cd_entries cd n = Ok (es, k)"
  shows "length es = n" and "46 * n \<le> k" and "k \<le> length cd"
proof -
  from assms obtain r where r: "parse_cd_loop (length cd) n (Reader_new cd) = (Ok es, r)"
    "k = length cd - remaining r"
    by (auto simp: parse_cd_entries_def split: prod.splits)
  have "remaining (Reader_new cd) = length cd" by (simp add: remaining_eq)
  with parse_cd_loop_progress [OF r(1)] r(2)
  show "length es = n" "46 * n \<le> k" "k \<le> length cd" by linarith+
qed

lemma archive_signature_fine:
  "k \<le> length cd \<Longrightarrow> fine (archive_signature cd k) c"
  unfolding archive_signature_def
  by (intro fine_seq_lift)
    (auto simp: slice_from_OkI fine_def cursor_read_exact_def)

lemma shift_entries_Panic_iff:
  "shift_entries p es = Panic \<longleftrightarrow> (\<exists>e \<in> set es. 2 ^ 64 \<le> unat (ce_lfh_offset e) + unat p)"
proof (induction es)
  case (Cons e es)
  show ?case
  proof (cases "2 ^ 64 \<le> unat (ce_lfh_offset e) + unat p")
    case True
    then have "add64 (ce_lfh_offset e) p = (Panic :: (u64, zip_core_error) outcome)"
      by (simp only: add64_Panic_iff)
    with True show ?thesis by simp
  next
    case False
    then have "add64 (ce_lfh_offset e) p = (Ok (ce_lfh_offset e + p) :: (u64, zip_core_error) outcome)"
      by (simp add: add64_def)
    then have "shift_entries p (e # es) = Panic \<longleftrightarrow> shift_entries p es = Panic"
      by (simp only: shift_entries.simps and_then.simps and_then_eq_Panic) simp
    with False Cons show ?thesis by simp
  qed
qed simp

lemma shift_entries_Ok:
  "shift_entries p es = Ok es' \<longleftrightarrow>
     (\<forall>e \<in> set es. unat (ce_lfh_offset e) + unat p < 2 ^ 64) \<and>
     es' = map (\<lambda>e. e\<lparr>ce_lfh_offset := ce_lfh_offset e + p\<rparr>) es"
  by (induction es arbitrary: es') auto

lemma shift_entries_0: "shift_entries 0 es = Ok es"
proof -
  have "unat (ce_lfh_offset e) + unat (0 :: u64) < 2 ^ 64" for e :: central_entry by simp
  then show ?thesis by (simp only: shift_entries_Ok) (simp add: map_idI)
qed

text \<open>The directory bytes the located range holds.\<close>

definition located_entries :: "u8 list \<Rightarrow> cd_location \<Rightarrow> (central_entry list \<times> usize, zip_core_error) outcome" where
  "located_entries file loc =
     parse_cd_entries (take (unat (lo_cd_size loc)) (drop (unat (lo_actual_cd_offset loc)) file))
       (lo_total_entries loc)"

lemma read_central_directory_Panic_iff:
  assumes "unat (lo_actual_cd_offset loc) + unat (lo_cd_size loc) \<le> length (cu_data c)"
  shows "fst (read_central_directory flen loc c) = Panic \<longleftrightarrow>
    (\<exists>es k. located_entries (cu_data c) loc = Ok (es, k) \<and>
       (\<exists>e \<in> set es. 2 ^ 64 \<le> unat (ce_lfh_offset e) + unat (lo_prefix loc)))"
proof -
  let ?cd = "take (unat (lo_cd_size loc)) (drop (unat (lo_actual_cd_offset loc)) (cu_data c))"
  have sh: "(if 0 < p then shift_entries p es else Ok es) = shift_entries p es" for p es
    by (simp add: shift_entries_0 word_greater_zero_iff)
  have rd: "seq (with_err Io (seek_start (lo_actual_cd_offset loc))) (\<lambda>_.
      seq (with_err Io (cursor_read_exact (unat (lo_cd_size loc)))) f) c =
    f ?cd (c\<lparr>cu_pos := unat (lo_actual_cd_offset loc) + unat (lo_cd_size loc)\<rparr>)"
    for f :: "u8 list \<Rightarrow> (cursor, central_entry list \<times> archive_summary, zip_core_error) act"
    using assms by (simp add: seek_start_def with_err_def seq_def cursor_read_exact_at)
  let ?c = "c\<lparr>cu_pos := unat (lo_actual_cd_offset loc) + unat (lo_cd_size loc)\<rparr>"
  let ?rest = "\<lambda>(entries, cd_consumed). seq (lift_outcome (shift_entries (lo_prefix loc) entries)) (\<lambda>shifted.
     seq (archive_signature ?cd cd_consumed) (\<lambda>sig_len.
     ret (shifted,
       \<lparr> file_len = flen, central_dir_offset = lo_actual_cd_offset loc,
         central_dir_size = lo_cd_size loc, eocd_end_offset = lo_eocd_end_offset loc,
         comment_len = lo_comment_len loc, disk_number = lo_disk_number loc,
         cd_start_disk = lo_cd_start_disk loc, archive_signature_len = sig_len \<rparr>)))"
  have rest: "fst (?rest (es, k) ?c) = Panic \<longleftrightarrow> shift_entries (lo_prefix loc) es = Panic"
    if "k \<le> length ?cd" for es k
  proof (cases "shift_entries (lo_prefix loc) es")
    case (Ok es')
    have "fine (seq (archive_signature ?cd k) (\<lambda>x. ret (g x))) ?c" for g :: "_ \<Rightarrow> central_entry list \<times> archive_summary"
      by (intro seq_fine archive_signature_fine that fine_ret)
    with Ok show ?thesis by (simp add: fine_def seq_def)
  qed (simp_all add: seq_def)
  show ?thesis
  proof (cases "parse_cd_entries ?cd (lo_total_entries loc)")
    case (Ok p)
    obtain es k where p: "p = (es, k)" by (cases p)
    from parse_cd_entries_bounds(3) [OF Ok [unfolded p]] have "k \<le> length ?cd" .
    from rest [OF this] Ok show ?thesis
      unfolding read_central_directory_def rd sh located_entries_def p
      by (simp add: seq_def shift_entries_Panic_iff)
  next
    case Panic
    then show ?thesis by (simp add: no_panic)
  next
    case (Err e)
    then show ?thesis
      unfolding read_central_directory_def rd located_entries_def by simp
  qed
qed

lemma checked_add64_Some: "checked_add64 a b = Some n \<Longrightarrow> unat n = unat a + unat b"
  by (auto simp: checked_add64_def unat_add64 split: if_splits)

text \<open>A located directory lies inside the file and its entry count is capped.\<close>

lemma locate_bounds:
  assumes "locate_central_directory flen c = (Ok loc, c')"
  shows "unat (lo_actual_cd_offset loc) + unat (lo_cd_size loc) \<le> unat flen"
    and "lo_total_entries loc \<le> MAX_ENTRIES"
proof -
  have "yields (\<lambda>loc. unat (lo_actual_cd_offset loc) + unat (lo_cd_size loc) \<le> unat flen \<and>
      lo_total_entries loc \<le> MAX_ENTRIES) (locate_central_directory flen)"
    unfolding locate_central_directory_def Let_def
    by (intro yields_if yields_seq yields_prod yields_fail yields_ret)
      (auto dest: checked_add64_Some simp: word_less_nat_alt not_less split: option.splits)
  from yieldsD [OF this assms]
  show "unat (lo_actual_cd_offset loc) + unat (lo_cd_size loc) \<le> unat flen"
    and "lo_total_entries loc \<le> MAX_ENTRIES" by blast+
qed

section \<open>No step changes the file\<close>

lemma keeps_data_cd_header_at: "keeps_data (cd_header_at off)"
  by (simp add: keeps_data_def cd_header_at_eq Let_def cursor_read_exact_data)

lemma keeps_data_detect_prefix: "keeps_data (detect_prefix z p o' n)"
  unfolding detect_prefix_def
  by (auto intro!: keeps_data_seq keeps_data_cd_header_at split: option.split)

lemma keeps_data_resolve: "keeps_data (resolve_zip64_eocd tail rel)"
  unfolding resolve_zip64_eocd_def by (auto intro!: keeps_data_seq)

lemma keeps_data_locate: "keeps_data (locate_central_directory flen)"
  unfolding locate_central_directory_def Let_def
  by (auto intro!: keeps_data_seq keeps_data_resolve keeps_data_detect_prefix split: option.split prod.split)

lemma keeps_data_archive_signature: "keeps_data (archive_signature cd k)"
proof -
  have "keeps_data (\<lambda>c. case cursor_read_exact 6 c of
      (Ok hdr, c') \<Rightarrow> (Ok (f hdr), c') | (Err _, c') \<Rightarrow> (Ok None, c') | (Panic, c') \<Rightarrow> (Panic, c'))"
    for f :: "u8 list \<Rightarrow> u16 option"
    by (simp add: keeps_data_def cursor_read_exact_def)
  then show ?thesis
    unfolding archive_signature_def by (intro keeps_data_seq) auto
qed

lemma keeps_data_read: "keeps_data (read_central_directory flen loc)"
  unfolding read_central_directory_def
  by (auto intro!: keeps_data_seq keeps_data_archive_signature split: prod.split)

section \<open>Opening an archive\<close>

abbreviation at_end :: "u8 list \<Rightarrow> cursor" where
  "at_end file \<equiv> \<lparr> cu_data = file, cu_pos = length file \<rparr>"

lemma ZipArchive_new_eq:
  "ZipArchive_new (cursor_new file) =
    (case parse_central_directory (of_nat (length file)) (at_end file) of
        (Ok (entries, summary), reader') \<Rightarrow>
          Ok \<lparr> za_reader = reader', za_entries = entries, za_summary = summary \<rparr>
      | (Err e, _) \<Rightarrow> Err e
      | (Panic, _) \<Rightarrow> Panic)"
  by (simp add: ZipArchive_new_def seek_end_def with_err_def seq_def cursor_new_def)

lemma parse_central_directory_Panic_iff:
  assumes "unat flen < 2 ^ 63" and "length (cu_data c) = unat flen"
  shows "fst (parse_central_directory flen c) = Panic \<longleftrightarrow>
    (\<exists>loc c' es k. locate_central_directory flen c = (Ok loc, c') \<and>
       located_entries (cu_data c) loc = Ok (es, k) \<and>
       (\<exists>e \<in> set es. 2 ^ 64 \<le> unat (ce_lfh_offset e) + unat (lo_prefix loc)))"
proof (cases "locate_central_directory flen c")
  case (Pair v c')
  show ?thesis
  proof (cases v)
    case (Ok loc)
    from keeps_dataD [OF keeps_data_locate Pair] have data: "cu_data c' = cu_data c" .
    with locate_bounds(1) [OF Pair [unfolded Ok]] assms(2)
    have "unat (lo_actual_cd_offset loc) + unat (lo_cd_size loc) \<le> length (cu_data c')" by simp
    from read_central_directory_Panic_iff [OF this] data Pair Ok show ?thesis
      by (simp add: parse_central_directory_def)
  next
    case Panic
    with Pair fineD [OF locate_fine [OF assms(1)], of c] show ?thesis by simp
  qed (simp_all add: parse_central_directory_def Pair)
qed

text \<open>
  C6: Opening an archive panics exactly when a prefix was detected before the first entry and
  adding it to the local-header offset of some parsed entry overflows 64 bits.
\<close>

theorem archive_open_panics_iff:
  assumes "length file < 2 ^ 63"
  shows "ZipArchive_new (cursor_new file) = Panic \<longleftrightarrow>
    (\<exists>loc c es k. locate_central_directory (of_nat (length file)) (at_end file) = (Ok loc, c) \<and>
       located_entries file loc = Ok (es, k) \<and>
       (\<exists>e \<in> set es. 2 ^ 64 \<le> unat (ce_lfh_offset e) + unat (lo_prefix loc)))"
proof -
  have flen: "unat (of_nat (length file) :: u64) = length file"
    using assms by (simp add: unat_of_nat64)
  have "ZipArchive_new (cursor_new file) = Panic \<longleftrightarrow>
      fst (parse_central_directory (of_nat (length file)) (at_end file)) = Panic"
    by (auto simp: ZipArchive_new_eq split: prod.splits outcome.splits)
  also have "\<dots> \<longleftrightarrow> (\<exists>loc c' es k. locate_central_directory (of_nat (length file)) (at_end file) = (Ok loc, c') \<and>
       located_entries file loc = Ok (es, k) \<and>
       (\<exists>e \<in> set es. 2 ^ 64 \<le> unat (ce_lfh_offset e) + unat (lo_prefix loc)))"
    using parse_central_directory_Panic_iff [of "of_nat (length file)" "at_end file"] assms flen by simp
  finally show ?thesis .
qed

lemma read_central_directory_Ok:
  assumes "read_central_directory flen loc c = (Ok (es, s), c')"
    and "unat (lo_actual_cd_offset loc) + unat (lo_cd_size loc) \<le> length (cu_data c)"
  shows "file_len s = flen" and "central_dir_offset s = lo_actual_cd_offset loc"
    and "central_dir_size s = lo_cd_size loc" and "length es = lo_total_entries loc"
    and "46 * length es \<le> unat (lo_cd_size loc)"
proof -
  let ?cd = "take (unat (lo_cd_size loc)) (drop (unat (lo_actual_cd_offset loc)) (cu_data c))"
  have "cursor_read_exact (unat (lo_cd_size loc)) (c\<lparr>cu_pos := unat (lo_actual_cd_offset loc)\<rparr>) =
    (Ok ?cd, c\<lparr>cu_pos := unat (lo_actual_cd_offset loc) + unat (lo_cd_size loc)\<rparr>)"
    using assms(2) by (rule cursor_read_exact_at)
  with assms(1) obtain es0 k where e: "parse_cd_entries ?cd (lo_total_entries loc) = Ok (es0, k)"
    and sh: "(if 0 < lo_prefix loc then shift_entries (lo_prefix loc) es0 else Ok es0) = Ok es"
    and s: "file_len s = flen" "central_dir_offset s = lo_actual_cd_offset loc" "central_dir_size s = lo_cd_size loc"
    by (auto simp: read_central_directory_def seq_eq_Ok seek_start_def simp del: shift_entries.simps)
  from sh have "length es = length es0" by (auto simp: shift_entries_Ok split: if_splits)
  with parse_cd_entries_bounds [OF e] s
  show "file_len s = flen" "central_dir_offset s = lo_actual_cd_offset loc"
    "central_dir_size s = lo_cd_size loc" "length es = lo_total_entries loc"
    "46 * length es \<le> unat (lo_cd_size loc)" by simp_all
qed

text \<open>
  C5: A successfully opened archive reports a central directory that lies inside the file and is
  large enough for its entries, no more entries than the cap, and leaves the file untouched.
\<close>

theorem archive_open_bounds:
  assumes "length file < 2 ^ 63" and "ZipArchive_new (cursor_new file) = Ok a"
  shows "unat (central_dir_offset (za_summary a)) + unat (central_dir_size (za_summary a)) \<le> length file \<and>
    46 * archive_len a \<le> unat (central_dir_size (za_summary a)) \<and> archive_len a \<le> MAX_ENTRIES \<and>
    file_len (za_summary a) = of_nat (length file) \<and> cu_data (za_reader a) = file"
proof -
  have flen: "unat (of_nat (length file) :: u64) = length file"
    using assms(1) by (simp add: unat_of_nat64)
  from assms(2) have "parse_central_directory (of_nat (length file)) (at_end file) =
      (Ok (za_entries a, za_summary a), za_reader a)"
    by (auto simp: ZipArchive_new_eq split: prod.splits outcome.splits)
  then obtain loc c where l: "locate_central_directory (of_nat (length file)) (at_end file) = (Ok loc, c)"
    and r: "read_central_directory (of_nat (length file)) loc c = (Ok (za_entries a, za_summary a), za_reader a)"
    by (auto simp: parse_central_directory_def seq_eq_Ok)
  have c: "cu_data c = file" using keeps_dataD [OF keeps_data_locate l] by simp
  note b = locate_bounds [OF l, unfolded flen]
  from read_central_directory_Ok [OF r] b(1) c have
    "file_len (za_summary a) = of_nat (length file)" "central_dir_offset (za_summary a) = lo_actual_cd_offset loc"
    "central_dir_size (za_summary a) = lo_cd_size loc" "archive_len a = lo_total_entries loc"
    "46 * archive_len a \<le> unat (lo_cd_size loc)"
    by (simp_all add: archive_len_def)
  moreover have "cu_data (za_reader a) = file" using keeps_dataD [OF keeps_data_read r] c by simp
  ultimately show ?thesis using b by simp
qed

text \<open>
  The record found is the last place in the scanned tail where an EOCD signature stands with
  room for the fixed record behind it, and none is found only when there is no such place.
\<close>

theorem find_eocd_last:
  "(find_eocd tail = Some k \<longleftrightarrow>
     k + EOCD_MIN \<le> length tail \<and> eocd_sig_at tail k \<and>
     (\<forall>j. k < j \<and> j + EOCD_MIN \<le> length tail \<longrightarrow> \<not> eocd_sig_at tail j)) \<and>
   (find_eocd tail = None \<longleftrightarrow> (\<forall>j. j + EOCD_MIN \<le> length tail \<longrightarrow> \<not> eocd_sig_at tail j))"
  by (intro conjI find_eocd_Some find_eocd_None)

theorem find_eocd_last_witness:
  "find_eocd (le32 EOCD_SIG @ le32 EOCD_SIG @ replicate 18 0) = Some 4"
  using find_eocd_last [of "le32 EOCD_SIG @ le32 EOCD_SIG @ replicate 18 0" 4]
  by (simp add: eocd_sig_at_def)

end
