(* ===== verification/LocalHeader.thy ===== *)
theory LocalHeader
  imports Container
begin

text \<open>
  Local file headers: \<open>read_lfh_fields\<close>, the structural view that pairs them with the central
  directory, and the checks made before an entry is opened (\<open>check_local_disk\<close>,
  \<open>zipcrypto_check_byte\<close>), all of \<open>core/src/archive.rs\<close>.
\<close>

section \<open>Reading a local header\<close>

record lfh_fixed =
  lx_flags :: u16
  lx_method :: u16
  lx_crc32 :: u32
  lx_compressed32 :: u32
  lx_uncompressed32 :: u32
  lx_name_len :: usize
  lx_extra_len :: usize

definition parse_lfh_fixed :: "u64 \<Rightarrow> (reader, lfh_fixed, zip_core_error) act" where
  "parse_lfh_fixed lfh_offset =
     seq (with_err Format Reader_u32) (\<lambda>sig.
       if sig \<noteq> LFH_SIG then fail (Format (BadSignature (lit ''local file header'') lfh_offset))
       else with_err Format (
         seq Reader_u16 (\<lambda>version_needed.
         seq Reader_u16 (\<lambda>flags.
         seq Reader_u16 (\<lambda>method_raw.
         seq Reader_u16 (\<lambda>mod_time.
         seq Reader_u16 (\<lambda>mod_date.
         seq Reader_u32 (\<lambda>crc32.
         seq Reader_u32 (\<lambda>compressed_size.
         seq Reader_u32 (\<lambda>uncompressed_size.
         seq Reader_u16 (\<lambda>name_len.
         seq Reader_u16 (\<lambda>extra_len.
         ret \<lparr> lx_flags = flags, lx_method = method_raw, lx_crc32 = crc32,
               lx_compressed32 = compressed_size, lx_uncompressed32 = uncompressed_size,
               lx_name_len = unat name_len, lx_extra_len = unat extra_len \<rparr>))))))))))))"

definition read_lfh_fields :: "u64 \<Rightarrow> (cursor, header_fields \<times> u64, zip_core_error) act" where
  "read_lfh_fields lfh_offset =
     seq (with_err Io (seek_start lfh_offset)) (\<lambda>_.
     seq (with_err Io (cursor_read_exact LFH_FIXED)) (\<lambda>fixed.
     seq (lift_outcome (fst (parse_lfh_fixed lfh_offset (Reader_new fixed)))) (\<lambda>f.
     seq (with_err Io (cursor_read_exact (lx_name_len f))) (\<lambda>name_buf.
     seq (lift_outcome (add64 lfh_offset (of_nat LFH_FIXED))) (\<lambda>past_fixed.
     seq (lift_outcome (add64 past_fixed (of_nat (lx_name_len f)))) (\<lambda>past_name.
     seq (lift_outcome (add64 past_name (of_nat (lx_extra_len f)))) (\<lambda>data_start.
     ret (\<lparr> hf_name = decode_name name_buf (lx_flags f), hf_method = method_from_u16 (lx_method f),
            hf_flags = lx_flags f, hf_crc32 = lx_crc32 f,
            hf_compressed_size = ucast (lx_compressed32 f),
            hf_uncompressed_size = ucast (lx_uncompressed32 f) \<rparr>, data_start))))))))"

section \<open>The structural view\<close>

definition central_fields :: "central_entry \<Rightarrow> header_fields" where
  "central_fields m =
     \<lparr> hf_name = ce_name m, hf_method = ce_method m, hf_flags = ce_flags m, hf_crc32 = ce_crc32 m,
       hf_compressed_size = ce_compressed_size m, hf_uncompressed_size = ce_uncompressed_size m \<rparr>"

fun structural_loop :: "nat \<Rightarrow> central_entry list \<Rightarrow> (cursor, entry_layout list, zip_core_error) act" where
  "structural_loop i [] = ret []"
| "structural_loop i (m # ms) =
     seq (read_lfh_fields (ce_lfh_offset m)) (\<lambda>(local, data_start).
     seq (structural_loop (Suc i) ms) (\<lambda>out.
     ret (\<lparr> el_index = i, el_lfh_offset = ce_lfh_offset m, el_data_start = data_start,
            el_central = central_fields m, el_local = local, el_extra = ce_extra m \<rparr> # out)))"

definition structural_view :: "(zip_archive, entry_layout list, zip_core_error) act" where
  "structural_view a =
     (case structural_loop 0 (za_entries a) (za_reader a) of
        (v, reader') \<Rightarrow> (v, a\<lparr>za_reader := reader'\<rparr>))"

section \<open>Checks before an entry is opened\<close>

definition check_local_disk :: "central_entry \<Rightarrow> u32 \<Rightarrow> u32 \<Rightarrow> (unit, zip_core_error) outcome" where
  "check_local_disk m this_disk start_disk =
     (if ce_disk_start m \<noteq> 0 then Err (SpannedArchive (ce_name m) (ucast (ce_disk_start m)))
      else if start_disk \<noteq> 0 then Err (SpannedArchive (ce_name m) start_disk)
      else if this_disk \<noteq> 0 then Err (SpannedArchive (ce_name m) this_disk)
      else Ok ())"

definition zipcrypto_check_byte :: "u16 \<Rightarrow> u32 \<Rightarrow> u16 \<Rightarrow> u8" where
  "zipcrypto_check_byte flags crc32 last_mod_time =
     (if has_bits flags 0x0008 then ucast (drop_bit 8 last_mod_time) else ucast (drop_bit 24 crc32))"

section \<open>Panics and the file\<close>

lemma parse_lfh_fixed_fine [no_panic]: "fine (parse_lfh_fixed off) r"
  unfolding parse_lfh_fixed_def by (auto simp: no_panic intro!: seq_fine)

lemma keeps_data_read_lfh: "keeps_data (read_lfh_fields off)"
  unfolding read_lfh_fields_def by (auto intro!: keeps_data_seq)

lemma parse_lfh_fixed_lengths:
  "yields (\<lambda>f. lx_name_len f < 65536 \<and> lx_extra_len f < 65536) (parse_lfh_fixed off)"
proof -
  have "yields (\<lambda>f. lx_name_len f < 65536 \<and> lx_extra_len f < 65536) (with_err g m)"
    if "yields (\<lambda>f. lx_name_len f < 65536 \<and> lx_extra_len f < 65536) m" for g :: "format_error \<Rightarrow> zip_core_error"
      and m :: "(reader, lfh_fixed, format_error) act"
    using that by (simp add: yields_def)
  then show ?thesis
    unfolding parse_lfh_fixed_def
    by (intro yields_seq yields_if yields_fail) (simp_all add: yields_seq yields_ret)
qed

lemma cursor_read_exact_end:
  assumes "cursor_read_exact n c = (Ok bs, c')" and "cu_pos c \<le> length (cu_data c) \<or> 0 < n"
  shows "cu_pos c + n \<le> length (cu_data c)" and "cu_pos c' = cu_pos c + n" and "cu_data c' = cu_data c"
  using assms by (auto simp: cursor_read_exact_def ahead_def split: if_splits)

text \<open>
  The unchecked sum of the data offset cannot overflow: the name was just read from the file, so
  the sum stays below the file length plus the 16-bit extra length.
\<close>

lemma read_lfh_fields_fine:
  assumes "length (cu_data c) < 2 ^ 63"
  shows "fine (read_lfh_fields off) c"
proof -
  have small: "add64 off (of_nat 30) \<noteq> (Panic :: (u64, zip_core_error) outcome)"
    "add64 (off + of_nat 30) (of_nat n) \<noteq> (Panic :: (u64, zip_core_error) outcome)"
    "add64 (off + of_nat 30 + of_nat n) (of_nat x) \<noteq> (Panic :: (u64, zip_core_error) outcome)"
    if "unat off + 30 + n \<le> length (cu_data c)" "x < 65536" for n x
  proof -
    have k: "unat off + 30 + n < 9223372036854775808" using that assms by simp
    have un: "unat (of_nat n :: u64) = n" "unat (of_nat x :: u64) = x"
      using that k by (simp_all add: unat_of_nat64)
    have 1: "unat (off + 30) = unat off + 30" using k unat_add64 [of off 30] by simp
    then have 2: "unat (off + 30 + of_nat n) = unat off + 30 + n"
      using k un unat_add64 [of "off + 30" "of_nat n"] by simp
    from k 1 2 un that(2) show "add64 off (of_nat 30) \<noteq> (Panic :: (u64, zip_core_error) outcome)"
      "add64 (off + of_nat 30) (of_nat n) \<noteq> (Panic :: (u64, zip_core_error) outcome)"
      "add64 (off + of_nat 30 + of_nat n) (of_nat x) \<noteq> (Panic :: (u64, zip_core_error) outcome)"
      by (simp_all add: add64_Panic_iff)
  qed
  have bound: "unat off + 30 + lx_name_len f \<le> length (cu_data c) \<and> lx_extra_len f < 65536"
    if "with_err Io (seek_start off) c = (Ok u, c1)"
      "with_err Io (cursor_read_exact LFH_FIXED) c1 = (Ok fixed, c2)"
      "fst (parse_lfh_fixed off (Reader_new fixed)) = Ok f"
      "with_err Io (cursor_read_exact (lx_name_len f)) c2 = (Ok nb, c3)" for u c1 fixed c2 f nb c3
  proof -
    have c1: "cu_pos c1 = unat off" "cu_data c1 = cu_data c"
      using that(1) by (auto simp: seek_start_def with_err_def)
    note r1 = cursor_read_exact_end [OF that(2) [unfolded with_err_Ok]]
    then have c2: "cu_pos c2 = unat off + 30" "cu_data c2 = cu_data c" "unat off + 30 \<le> length (cu_data c)"
      using c1 by simp_all
    with cursor_read_exact_end(1) [OF that(4) [unfolded with_err_Ok]]
    have "unat off + 30 + lx_name_len f \<le> length (cu_data c)" by simp
    moreover have "lx_extra_len f < 65536"
      using yieldsD [OF parse_lfh_fixed_lengths, of off "Reader_new fixed"] that(3) by (metis prod.collapse)
    ultimately show ?thesis ..
  qed
  show ?thesis
    unfolding read_lfh_fields_def
  proof (intro fine_seq_lift seq_fine, goal_cases)
    case (5 u c1 fixed c2 f nb c3)
    with bound [OF 5] small(1) show ?case by blast
  next
    case (6 u c1 fixed c2 f nb c3 p)
    then have "p = off + of_nat LFH_FIXED" by (simp only: add64_eq_Ok)
    with bound [OF 6(1-4)] small(2) show ?case by blast
  next
    case (7 u c1 fixed c2 f nb c3 p q)
    then have "p = off + of_nat LFH_FIXED" "q = p + of_nat (lx_name_len f)" by (simp_all only: add64_eq_Ok)
    with bound [OF 7(1-4)] small(3) show ?case by blast
  qed (simp_all add: no_panic fineD)
qed

lemma structural_loop_fine:
  "length (cu_data c) < 2 ^ 63 \<Longrightarrow> fine (structural_loop i ms) c"
proof (induction ms arbitrary: i c)
  case (Cons m ms)
  have "fine (structural_loop j ms) c'" if "read_lfh_fields (ce_lfh_offset m) c = (Ok p, c')" for j p c'
    using Cons keeps_dataD [OF keeps_data_read_lfh that] by simp
  with read_lfh_fields_fine [OF Cons.prems] show ?case
    by (auto intro!: seq_fine split: prod.split)
qed simp

section \<open>The format of a local header\<close>

record local_header =
  l_version_needed :: u16
  l_flags :: u16
  l_method :: u16
  l_mod_time :: u16
  l_mod_date :: u16
  l_crc32 :: u32
  l_compressed32 :: u32
  l_uncompressed32 :: u32
  l_name :: "u8 list"
  l_extra :: "u8 list"

definition encode_local :: "local_header \<Rightarrow> u8 list" where
  "encode_local h =
     le32 LFH_SIG @ le16 (l_version_needed h) @ le16 (l_flags h) @ le16 (l_method h) @
     le16 (l_mod_time h) @ le16 (l_mod_date h) @ le32 (l_crc32 h) @ le32 (l_compressed32 h) @
     le32 (l_uncompressed32 h) @ le16 (of_nat (length (l_name h))) @
     le16 (of_nat (length (l_extra h))) @ l_name h @ l_extra h"

definition local_ok :: "local_header \<Rightarrow> bool" where
  "local_ok h \<longleftrightarrow> length (l_name h) < 65536 \<and> length (l_extra h) < 65536"

definition local_fields :: "local_header \<Rightarrow> header_fields" where
  "local_fields h =
     \<lparr> hf_name = decode_name (l_name h) (l_flags h), hf_method = method_from_u16 (l_method h),
       hf_flags = l_flags h, hf_crc32 = l_crc32 h, hf_compressed_size = ucast (l_compressed32 h),
       hf_uncompressed_size = ucast (l_uncompressed32 h) \<rparr>"

lemma length_encode_local [simp]:
  "length (encode_local h) = 30 + length (l_name h) + length (l_extra h)"
  by (simp add: encode_local_def)

lemma parse_lfh_fixed_encoded:
  assumes "local_ok h"
  shows "fst (parse_lfh_fixed off (Reader_new (take 30 (encode_local h)))) = Ok
    \<lparr> lx_flags = l_flags h, lx_method = l_method h, lx_crc32 = l_crc32 h,
      lx_compressed32 = l_compressed32 h, lx_uncompressed32 = l_uncompressed32 h,
      lx_name_len = length (l_name h), lx_extra_len = length (l_extra h) \<rparr>"
proof -
  let ?n = "of_nat (length (l_name h)) :: u16" and ?x = "of_nat (length (l_extra h)) :: u16"
  let ?fields = "le16 (l_version_needed h) @ le16 (l_flags h) @ le16 (l_method h) @
     le16 (l_mod_time h) @ le16 (l_mod_date h) @ le32 (l_crc32 h) @ le32 (l_compressed32 h) @
     le32 (l_uncompressed32 h) @ le16 ?n @ le16 ?x @ []"
  have len: "unat ?n = length (l_name h)" "unat ?x = length (l_extra h)"
    using assms by (simp_all add: local_ok_def unat_of_nat_small)
  have "parses (seq Reader_u16 (\<lambda>version_needed.
         seq Reader_u16 (\<lambda>flags.
         seq Reader_u16 (\<lambda>method_raw.
         seq Reader_u16 (\<lambda>mod_time.
         seq Reader_u16 (\<lambda>mod_date.
         seq Reader_u32 (\<lambda>crc32.
         seq Reader_u32 (\<lambda>compressed_size.
         seq Reader_u32 (\<lambda>uncompressed_size.
         seq Reader_u16 (\<lambda>name_len.
         seq Reader_u16 (\<lambda>extra_len.
         ret \<lparr> lx_flags = flags, lx_method = method_raw, lx_crc32 = crc32,
               lx_compressed32 = compressed_size, lx_uncompressed32 = uncompressed_size,
               lx_name_len = unat name_len, lx_extra_len = unat extra_len \<rparr>)))))))))) :: (reader, lfh_fixed, format_error) act)
    ?fields \<lparr> lx_flags = l_flags h, lx_method = l_method h, lx_crc32 = l_crc32 h,
      lx_compressed32 = l_compressed32 h, lx_uncompressed32 = l_uncompressed32 h,
      lx_name_len = unat ?n, lx_extra_len = unat ?x \<rparr>"
    by (rule consumes_seq, rule parses_u16 parses_u32)+ (rule consumes_ret)
  note inner = consumes_with_err [OF this, of Format]
  have "parses (parse_lfh_fixed off) (le32 LFH_SIG @ ?fields)
    \<lparr> lx_flags = l_flags h, lx_method = l_method h, lx_crc32 = l_crc32 h,
      lx_compressed32 = l_compressed32 h, lx_uncompressed32 = l_uncompressed32 h,
      lx_name_len = unat ?n, lx_extra_len = unat ?x \<rparr>"
    unfolding parse_lfh_fixed_def
    by (rule consumes_seq [OF consumes_with_err [OF parses_u32]])
      (simp only: simp_thms if_False inner)
  from parses_run [OF this, of "[]"] have "fst (parse_lfh_fixed off (Reader_new (le32 LFH_SIG @ ?fields))) = Ok
    \<lparr> lx_flags = l_flags h, lx_method = l_method h, lx_crc32 = l_crc32 h,
      lx_compressed32 = l_compressed32 h, lx_uncompressed32 = l_uncompressed32 h,
      lx_name_len = unat ?n, lx_extra_len = unat ?x \<rparr>" by simp
  moreover have "take 30 (encode_local h) = le32 LFH_SIG @ ?fields"
    by (simp add: encode_local_def)
  ultimately show ?thesis by (simp only: len)
qed

text \<open>A header written field by field reads back.\<close>

lemma read_lfh_encoded:
  assumes "local_ok h" and "cu_data c = pre @ encode_local h @ data" and "length (cu_data c) < 2 ^ 63"
  shows "\<exists>data_start c'. read_lfh_fields (of_nat (length pre)) c = (Ok (local_fields h, data_start), c') \<and>
    drop (unat data_start) (cu_data c) = data \<and> cu_data c' = cu_data c"
proof -
  let ?off = "of_nat (length pre) :: u64"
  have len: "length (cu_data c) = length pre + 30 + length (l_name h) + length (l_extra h) + length data"
    using assms(2) by simp
  with assms(3) have small: "length pre + 30 + length (l_name h) + length (l_extra h) < 18446744073709551616"
    by simp
  have off: "unat ?off = length pre" using small by (simp add: unat_of_nat64)
  have 1: "cursor_read_exact LFH_FIXED (c\<lparr>cu_pos := length pre\<rparr>) =
      (Ok (take 30 (encode_local h)), c\<lparr>cu_pos := length pre + 30\<rparr>)"
    using cursor_read_exact_at [of "length pre" 30 c] len assms(2) by simp
  have "take (length (l_name h)) (drop (length pre + 30) (cu_data c)) = l_name h"
    unfolding assms(2) by (simp add: encode_local_def)
  then have 2: "cursor_read_exact (length (l_name h)) (c\<lparr>cu_pos := length pre + 30\<rparr>) =
      (Ok (l_name h), c\<lparr>cu_pos := length pre + 30 + length (l_name h)\<rparr>)"
    using cursor_read_exact_at [of "length pre + 30" "length (l_name h)" c] len by simp
  have 3: "add64 ?off (of_nat LFH_FIXED) = (Ok (of_nat (length pre + 30)) :: (u64, zip_core_error) outcome)"
    "add64 (of_nat (length pre + 30)) (of_nat (length (l_name h))) =
      (Ok (of_nat (length pre + 30 + length (l_name h))) :: (u64, zip_core_error) outcome)"
    "add64 (of_nat (length pre + 30 + length (l_name h))) (of_nat (length (l_extra h))) =
      (Ok (of_nat (length pre + 30 + length (l_name h) + length (l_extra h))) :: (u64, zip_core_error) outcome)"
    using small by (intro add64_of_nat; linarith)+
  have 4: "with_err Io (seek_start ?off) c = (Ok (), c\<lparr>cu_pos := length pre\<rparr>)"
    by (simp add: seek_start_def with_err_def off)
  let ?ds = "length pre + 30 + length (l_name h) + length (l_extra h)"
  have "read_lfh_fields ?off c = (Ok (local_fields h, of_nat ?ds), c\<lparr>cu_pos := length pre + 30 + length (l_name h)\<rparr>)"
    unfolding read_lfh_fields_def
    by (simp only: 1 2 3 4 seq_Ok with_err_Ok lift_outcome_apply parse_lfh_fixed_encoded [OF assms(1)]
        lfh_fixed.select_convs ret_apply local_fields_def)
  moreover have "unat (of_nat ?ds :: u64) = ?ds" using small by (intro unat_of_nat64)
  ultimately show ?thesis using assms(2) by (intro exI conjI) (assumption, simp_all)
qed

text \<open>
  Reading the local header written at an offset returns the fields that were written, and the
  data offset is exactly where the bytes after the header start.
\<close>

theorem local_header_roundtrip:
  assumes "local_ok h" and "cu_data c = pre @ encode_local h @ data" and "length (cu_data c) < 2 ^ 63"
  shows "\<exists>data_start c'. read_lfh_fields (of_nat (length pre)) c = (Ok (local_fields h, data_start), c') \<and>
    drop (unat data_start) (cu_data c) = data \<and> cu_data c' = cu_data c"
  using assms by (rule read_lfh_encoded)

definition sample_local :: local_header where
  "sample_local = \<lparr> l_version_needed = 20, l_flags = 0, l_method = 0, l_mod_time = 0, l_mod_date = 0,
     l_crc32 = 0, l_compressed32 = 2, l_uncompressed32 = 2, l_name = [97], l_extra = [5] \<rparr>"

theorem local_header_roundtrip_witness:
  "\<exists>data_start c'. read_lfh_fields (of_nat (length [9 :: u8]))
      (cursor_new ([9] @ encode_local sample_local @ [7, 8])) =
      (Ok (local_fields sample_local, data_start), c') \<and>
    drop (unat data_start) (cu_data (cursor_new ([9] @ encode_local sample_local @ [7, 8]))) = [7, 8] \<and>
    cu_data c' = cu_data (cursor_new ([9] @ encode_local sample_local @ [7, 8]))"
  by (rule local_header_roundtrip) (simp_all add: local_ok_def sample_local_def)

text \<open>
  Reading a local header never panics, whatever offset the central directory gives: the name
  is read before the data offset is summed, and that bounds the sum.
\<close>

theorem local_header_no_panic:
  assumes "length (cu_data c) < 2 ^ 63"
  shows "fst (read_lfh_fields off c) \<noteq> Panic"
  using read_lfh_fields_fine [OF assms] by (rule fineD)

theorem local_header_no_panic_witness: "fst (read_lfh_fields (- 1) (cursor_new [])) \<noteq> Panic"
  by (rule local_header_no_panic) simp

section \<open>The structural view as a table\<close>

text \<open>One row: the entry's own fields beside those of the header its offset points at.\<close>

definition layout_of :: "u8 list \<Rightarrow> nat \<times> central_entry \<Rightarrow> entry_layout option" where
  "layout_of file = (\<lambda>(i, e).
     case fst (read_lfh_fields (ce_lfh_offset e) (cursor_new file)) of
       Ok (local, data_start) \<Rightarrow> Some
         \<lparr> el_index = i, el_lfh_offset = ce_lfh_offset e, el_data_start = data_start,
           el_central = central_fields e, el_local = local, el_extra = ce_extra e \<rparr>
     | Err _ \<Rightarrow> None
     | Panic \<Rightarrow> None)"

lemma read_lfh_fields_pos:
  "cu_data c = file \<Longrightarrow> read_lfh_fields off c = read_lfh_fields off (cursor_new file)"
  unfolding read_lfh_fields_def
  by (cases c) (simp add: seek_start_def cursor_new_def)

lemma structural_loop_eq:
  "cu_data c = file \<Longrightarrow>
     (fst (structural_loop i es c) = Ok ls \<longleftrightarrow> those (map (layout_of file) (enumerate i es)) = Some ls)"
proof (induction es arbitrary: i c ls)
  case (Cons e es)
  obtain v c1 where 1: "read_lfh_fields (ce_lfh_offset e) c = (v, c1)"
    by (cases "read_lfh_fields (ce_lfh_offset e) c")
  then have v: "fst (read_lfh_fields (ce_lfh_offset e) (cursor_new file)) = v"
    using read_lfh_fields_pos [OF Cons.prems, of "ce_lfh_offset e"] by simp
  show ?case
  proof (cases v)
    case (Ok p)
    obtain local ds where p: "p = (local, ds)" by (cases p)
    let ?row = "\<lparr> el_index = i, el_lfh_offset = ce_lfh_offset e, el_data_start = ds,
           el_central = central_fields e, el_local = local, el_extra = ce_extra e \<rparr>"
    have "cu_data c1 = file" using keeps_dataD [OF keeps_data_read_lfh 1] Cons.prems by simp
    note IH = Cons.IH [OF this, of "Suc i"]
    have "fst (structural_loop i (e # es) c) = Ok ls \<longleftrightarrow>
        (\<exists>rows. fst (structural_loop (Suc i) es c1) = Ok rows \<and> ls = ?row # rows)"
    proof -
      obtain w c2 where 2: "structural_loop (Suc i) es c1 = (w, c2)"
        by (cases "structural_loop (Suc i) es c1")
      have "structural_loop i (e # es) c =
          seq (structural_loop (Suc i) es) (\<lambda>out. ret (?row # out)) c1"
        using 1 unfolding Ok p by simp
      with 2 show ?thesis by (cases w) auto
    qed
    also have "\<dots> \<longleftrightarrow> (\<exists>rows. those (map (layout_of file) (enumerate (Suc i) es)) = Some rows \<and> ls = ?row # rows)"
      by (simp only: IH)
    also have "\<dots> \<longleftrightarrow> those (map (layout_of file) (enumerate i (e # es))) = Some ls"
    proof -
      have "layout_of file (i, e) = Some ?row" using v unfolding Ok p by (simp add: layout_of_def)
      then have "those (map (layout_of file) (enumerate i (e # es))) =
          map_option ((#) ?row) (those (map (layout_of file) (enumerate (Suc i) es)))"
        by simp
      then show ?thesis by auto
    qed
    finally show ?thesis .
  next
    case (Err x)
    with 1 v show ?thesis by (simp add: layout_of_def)
  next
    case Panic
    with 1 v show ?thesis by (simp add: layout_of_def)
  qed
qed simp

lemma structural_view_data:
  assumes "structural_view a = (v, a')"
  shows "za_entries a' = za_entries a" and "za_summary a' = za_summary a"
    and "cu_data (za_reader a') = cu_data (za_reader a)"
proof -
  obtain c where loop: "structural_loop 0 (za_entries a) (za_reader a) = (v, c)" and a': "a' = a\<lparr>za_reader := c\<rparr>"
    using assms by (auto simp: structural_view_def split: prod.splits)
  have "keeps_data (structural_loop i ms)" for i ms
  proof (induction i ms rule: structural_loop.induct)
    case (2 i m ms)
    then show ?case by (auto intro!: keeps_data_seq keeps_data_read_lfh split: prod.split)
  qed (simp add: keeps_data_def)
  from keeps_dataD [OF this loop] a' show "za_entries a' = za_entries a" "za_summary a' = za_summary a"
    "cu_data (za_reader a') = cu_data (za_reader a)" by simp_all
qed

lemma structural_view_rows:
  assumes "structural_view a = (Ok layout, a')"
  shows "length layout = length (za_entries a)"
    and "j < length layout \<Longrightarrow> el_index (layout ! j) = j \<and> el_central (layout ! j) = central_fields (za_entries a ! j) \<and>
      el_extra (layout ! j) = ce_extra (za_entries a ! j)"
proof -
  have those: "those xs = Some ys \<longleftrightarrow> xs = map Some ys" for xs :: "entry_layout option list" and ys
    by (induction xs arbitrary: ys) (auto split: option.splits)
  from assms have "fst (structural_loop 0 (za_entries a) (za_reader a)) = Ok layout"
    by (auto simp: structural_view_def split: prod.splits)
  then have eq: "map (layout_of (cu_data (za_reader a))) (enumerate 0 (za_entries a)) = map Some layout"
    using structural_loop_eq those by blast
  from arg_cong [OF eq, of length] show len: "length layout = length (za_entries a)" by simp
  assume j: "j < length layout"
  from arg_cong [OF eq, of "\<lambda>xs. xs ! j"] j len
  have "Some (layout ! j) = layout_of (cu_data (za_reader a)) (j, za_entries a ! j)"
    by (simp add: nth_enumerate_eq)
  then show "el_index (layout ! j) = j \<and> el_central (layout ! j) = central_fields (za_entries a ! j) \<and>
      el_extra (layout ! j) = ce_extra (za_entries a ! j)"
    by (auto simp: layout_of_def split: outcome.splits)
qed

text \<open>
  The structural view succeeds exactly when every entry's local header reads, and is then the
  table of the entries in directory order, each beside the header its own offset points at.
\<close>

theorem structural_view_table:
  "fst (structural_view a) = Ok ls \<longleftrightarrow>
     those (map (layout_of (cu_data (za_reader a))) (enumerate 0 (za_entries a))) = Some ls"
  using structural_loop_eq [of "za_reader a" _ 0 "za_entries a" ls]
  by (cases "structural_loop 0 (za_entries a) (za_reader a)") (simp add: structural_view_def)

text \<open>
  An entry is refused as spanned exactly when its own disk, the directory's start disk or this
  disk is non-zero, and the error names the first of these that is.
\<close>

theorem check_local_disk_cases:
  "(check_local_disk m this_disk start_disk = Ok () \<longleftrightarrow>
      ce_disk_start m = 0 \<and> start_disk = 0 \<and> this_disk = 0) \<and>
   (check_local_disk m this_disk start_disk = Err (SpannedArchive name d) \<longleftrightarrow>
      name = ce_name m \<and> d \<noteq> 0 \<and>
      [d] = take 1 (filter (\<lambda>x. x \<noteq> 0) [ucast (ce_disk_start m), start_disk, this_disk]))"
proof -
  have "unat (ce_disk_start m) < 2 ^ 32" by (rule less_trans [OF unat_lt16]) simp
  then have "unat (of_nat (unat (ce_disk_start m)) :: u32) = unat (ce_disk_start m)"
    by (simp add: unat_of_nat del: of_nat_unat)
  then have "unat (ucast (ce_disk_start m) :: u32) = unat (ce_disk_start m)" by (simp only: of_nat_unat)
  then have "(ucast (ce_disk_start m) :: u32) = 0 \<longleftrightarrow> ce_disk_start m = 0"
    by (simp only: word_unat_eq_iff unsigned_0)
  then show ?thesis by (auto simp: check_local_disk_def)
qed

end
