(* ===== verification/ZipCrypto.thy ===== *)
theory ZipCrypto
  imports Io LocalHeader
begin

unbundle bit_operations_syntax

text \<open>
  Traditional ZipCrypto of \<open>core/src/crypto.rs\<close>: the three-key stream cipher, its reader and
  the 12-byte encryption header. The cipher is specified by its encrypting inverse.
\<close>

section \<open>The cipher\<close>

fun crc32_rounds :: "nat \<Rightarrow> u32 \<Rightarrow> u32" where
  "crc32_rounds 0 c = c"
| "crc32_rounds (Suc n) c =
     crc32_rounds n (if c AND 1 \<noteq> 0 then drop_bit 1 c XOR 0xEDB88320 else drop_bit 1 c)"

definition crc32_byte :: "u32 \<Rightarrow> u8 \<Rightarrow> u32" where
  "crc32_byte crc b = drop_bit 8 crc XOR crc32_rounds 8 ((crc XOR ucast b) AND 0xff)"

record zc_keys =
  key0 :: u32
  key1 :: u32
  key2 :: u32

definition initial_keys :: zc_keys where
  "initial_keys = \<lparr> key0 = 0x12345678, key1 = 0x23456789, key2 = 0x34567890 \<rparr>"

definition update_keys :: "zc_keys \<Rightarrow> u8 \<Rightarrow> zc_keys" where
  "update_keys k b =
     (let k0 = crc32_byte (key0 k) b;
          k1 = (key1 k + (k0 AND 0xff)) * 134775813 + 1;
          k2 = crc32_byte (key2 k) (ucast (drop_bit 24 k1))
      in \<lparr> key0 = k0, key1 = k1, key2 = k2 \<rparr>)"

definition keystream :: "zc_keys \<Rightarrow> u8" where
  "keystream k =
     (let temp = ucast ((key2 k OR 2) AND 0xffff) :: u16
      in ucast (drop_bit 8 ((ucast temp :: u32) * ucast (temp XOR 1))))"

definition decrypt_byte :: "zc_keys \<Rightarrow> u8 \<Rightarrow> u8 \<times> zc_keys" where
  "decrypt_byte k cipher = (let plain = cipher XOR keystream k in (plain, update_keys k plain))"

fun decrypt_bytes :: "zc_keys \<Rightarrow> u8 list \<Rightarrow> u8 list \<times> zc_keys" where
  "decrypt_bytes k [] = ([], k)"
| "decrypt_bytes k (c # cs) =
     (case decrypt_byte k c of (p, k1) \<Rightarrow>
      case decrypt_bytes k1 cs of (ps, k2) \<Rightarrow> (p # ps, k2))"

definition password_keys :: "u8 list \<Rightarrow> zc_keys" where
  "password_keys password = fold (\<lambda>b k. update_keys k b) password initial_keys"

section \<open>The reader\<close>

record 's zipcrypto_reader =
  zr_inner :: 's
  zr_keys :: zc_keys

definition ZipCryptoReader_new ::
  "(nat \<Rightarrow> ('s, u8 list, io_error) act) \<Rightarrow> 's \<Rightarrow> u8 list \<Rightarrow> u8 \<Rightarrow> rstring
     \<Rightarrow> ('s zipcrypto_reader, zip_core_error) outcome" where
  "ZipCryptoReader_new rd inner password check_byte entry =
     (case read_exact rd 12 inner of
        (Ok header, i) \<Rightarrow>
          (case decrypt_bytes (password_keys password) header of (plain, k) \<Rightarrow>
             if plain ! 11 \<noteq> check_byte then Err (WrongPassword entry)
             else Ok \<lparr> zr_inner = i, zr_keys = k \<rparr>)
      | (Err e, _) \<Rightarrow> Err (Io e)
      | (Panic, _) \<Rightarrow> Panic)"

definition zipcrypto_read ::
  "(nat \<Rightarrow> ('s, u8 list, io_error) act) \<Rightarrow> nat \<Rightarrow> ('s zipcrypto_reader, u8 list, io_error) act" where
  "zipcrypto_read rd n r =
     (case rd n (zr_inner r) of
        (Ok bs, i) \<Rightarrow>
          (case decrypt_bytes (zr_keys r) bs of (ps, k) \<Rightarrow> (Ok ps, \<lparr> zr_inner = i, zr_keys = k \<rparr>))
      | (Err e, i) \<Rightarrow> (Err e, r\<lparr>zr_inner := i\<rparr>)
      | (Panic, i) \<Rightarrow> (Panic, r\<lparr>zr_inner := i\<rparr>))"

section \<open>The inverse cipher\<close>

fun encrypt_bytes :: "zc_keys \<Rightarrow> u8 list \<Rightarrow> u8 list" where
  "encrypt_bytes k [] = []"
| "encrypt_bytes k (p # ps) = (p XOR keystream k) # encrypt_bytes (update_keys k p) ps"

definition plain_of :: "zc_keys \<Rightarrow> u8 list \<Rightarrow> u8 list" where
  "plain_of k cs = fst (decrypt_bytes k cs)"

definition keys_after :: "zc_keys \<Rightarrow> u8 list \<Rightarrow> zc_keys" where
  "keys_after k cs = snd (decrypt_bytes k cs)"

lemma decrypt_bytes_split: "decrypt_bytes k cs = (plain_of k cs, keys_after k cs)"
  by (simp add: plain_of_def keys_after_def)

lemma plain_of_simps [simp]:
  "plain_of k [] = []" "keys_after k [] = k"
  "plain_of k (c # cs) = (c XOR keystream k) # plain_of (update_keys k (c XOR keystream k)) cs"
  "keys_after k (c # cs) = keys_after (update_keys k (c XOR keystream k)) cs"
  by (simp_all add: plain_of_def keys_after_def decrypt_byte_def Let_def split: prod.split)

lemma length_plain_of [simp]: "length (plain_of k cs) = length cs"
  by (induction cs arbitrary: k) auto

lemma length_encrypt_bytes [simp]: "length (encrypt_bytes k ps) = length ps"
  by (induction ps arbitrary: k) auto

text \<open>Decryption may be cut anywhere, as the reader cuts it.\<close>

lemma plain_of_append:
  "plain_of k (as @ bs) = plain_of k as @ plain_of (keys_after k as) bs"
  "keys_after k (as @ bs) = keys_after (keys_after k as) bs"
  by (induction as arbitrary: k) auto

lemma take_plain_of: "take n (plain_of k cs) = plain_of k (take n cs)"
  by (induction cs arbitrary: k n) (auto simp: take_Cons split: nat.split)

lemma drop_plain_of: "drop n (plain_of k cs) = plain_of (keys_after k (take n cs)) (drop n cs)"
  by (induction cs arbitrary: k n) (auto simp: drop_Cons take_Cons split: nat.split)

lemma xor_cancel [simp]: "(a XOR b) XOR b = (a :: 'a::len word)"
  by (simp add: xor.assoc)

lemma plain_of_encrypt [simp]: "plain_of k (encrypt_bytes k ps) = ps"
  by (induction ps arbitrary: k) auto

lemma encrypt_plain_of [simp]: "encrypt_bytes k (plain_of k cs) = cs"
  by (induction cs arbitrary: k) auto

lemma keys_after_encrypt [simp]: "keys_after k (encrypt_bytes k ps) = fold (\<lambda>b k. update_keys k b) ps k"
  by (induction ps arbitrary: k) auto

lemma encrypt_append:
  "encrypt_bytes k (as @ bs) = encrypt_bytes k as @ encrypt_bytes (fold (\<lambda>b k. update_keys k b) as k) bs"
  by (induction as arbitrary: k) auto

section \<open>The reader as a stream\<close>

context read_stream
begin

lemma zipcrypto_stream:
  "read_stream (zipcrypto_read rd) (\<lambda>r. plain_of (zr_keys r) (content (zr_inner r))) (\<lambda>r. inv (zr_inner r))"
proof (unfold_locales, goal_cases)
  case (1 r n)
  then have "content (zr_inner r) \<noteq> []" by auto
  from rd_some [OF 1(1,2) this] obtain k i where k: "0 < k" "k \<le> n" "k \<le> length (content (zr_inner r))"
    and rd: "rd n (zr_inner r) = (Ok (take k (content (zr_inner r))), i)"
    "content i = drop k (content (zr_inner r))" "inv i"
    by blast
  then show ?case
    by (intro exI [of _ k] exI [of _ "\<lparr> zr_inner = i, zr_keys = keys_after (zr_keys r) (take k (content (zr_inner r))) \<rparr>"])
      (auto simp: zipcrypto_read_def decrypt_bytes_split take_plain_of drop_plain_of)
next
  case (2 r n)
  then have "content (zr_inner r) = []" by (metis length_0_conv length_plain_of)
  from rd_eof [OF 2(1,2) this] show ?case
    by (auto simp: zipcrypto_read_def decrypt_bytes_split)
qed

lemma ZipCryptoReader_new_enough:
  assumes "inv s" and "12 \<le> length (content s)"
  shows "\<exists>i. content i = drop 12 (content s) \<and> inv i \<and>
    ZipCryptoReader_new rd s password check entry =
     (if plain_of (password_keys password) (content s) ! 11 \<noteq> check then Err (WrongPassword entry)
      else Ok \<lparr> zr_inner = i, zr_keys = keys_after (password_keys password) (take 12 (content s)) \<rparr>)"
proof -
  from read_exact_enough [OF assms] obtain i where i: "read_exact rd 12 s = (Ok (take 12 (content s)), i)"
    "content i = drop 12 (content s)" "inv i" by blast
  have "plain_of (password_keys password) (take 12 (content s)) ! 11 = plain_of (password_keys password) (content s) ! 11"
    by (simp add: nth_take flip: take_plain_of)
  with i show ?thesis by (auto simp: ZipCryptoReader_new_def decrypt_bytes_split)
qed

lemma ZipCryptoReader_new_short:
  assumes "inv s" and "length (content s) < 12"
  shows "ZipCryptoReader_new rd s password check entry = Err (Io eof_error)"
  using read_exact_short [OF assms] by (auto simp: ZipCryptoReader_new_def)

end

text \<open>As the archive uses it: over \<open>Take\<close> of the file.\<close>

abbreviation zc_window :: "cursor take_reader zipcrypto_reader \<Rightarrow> u8 list" where
  "zc_window r \<equiv> plain_of (zr_keys r) (window (zr_inner r))"

interpretation zcw: read_stream "zipcrypto_read (take_read cursor_read)" zc_window "\<lambda>r. True"
  by (rule win.zipcrypto_stream)

text \<open>The reader over an encrypted window, from its opening to the end.\<close>

lemma zipcrypto_reads:
  assumes "window t = encrypt_bytes (password_keys password) (header @ plain)"
    and "length header = 12" and "last header = check" and "\<And>i. 0 < sizes i"
  shows "\<exists>r r'. ZipCryptoReader_new (take_read cursor_read) t password check entry = Ok r \<and>
    read_to_end (zipcrypto_read (take_read cursor_read)) sizes 0 [] r = Some (Ok plain, r')"
proof -
  let ?k = "password_keys password" and ?k' = "fold (\<lambda>b k. update_keys k b) header (password_keys password)"
  have "12 \<le> length (window t)" using assms(1,2) by (simp only: length_encrypt_bytes) simp
  from win.ZipCryptoReader_new_enough [OF _ this, of password check entry] obtain i where
    i: "window i = drop 12 (window t)"
    "ZipCryptoReader_new (take_read cursor_read) t password check entry =
     (if plain_of ?k (window t) ! 11 \<noteq> check then Err (WrongPassword entry)
      else Ok \<lparr> zr_inner = i, zr_keys = keys_after ?k (take 12 (window t)) \<rparr>)" by blast
  have w: "window t = encrypt_bytes ?k header @ encrypt_bytes ?k' plain"
    by (simp only: assms(1) encrypt_append)
  have "plain_of ?k (window t) ! 11 = header ! 11"
    using assms(1,2) by (simp only: plain_of_encrypt nth_append) simp
  also have "\<dots> = check" using assms(2,3) by (simp add: last_conv_nth flip: length_greater_0_conv)
  finally have "plain_of ?k (window t) ! 11 = check" .
  moreover have "keys_after ?k (take 12 (window t)) = ?k'" unfolding w using assms(2) by simp
  ultimately have new: "ZipCryptoReader_new (take_read cursor_read) t password check entry =
      Ok \<lparr> zr_inner = i, zr_keys = ?k' \<rparr>" using i(2) by simp
  have "zc_window \<lparr> zr_inner = i, zr_keys = ?k' \<rparr> = plain"
    unfolding zipcrypto_reader.select_convs i(1) w using assms(2) by simp
  with zcw.read_to_end_content [where s = "\<lparr> zr_inner = i, zr_keys = ?k' \<rparr>" and i = 0 and acc = "[]"
      and sizes = sizes, OF TrueI assms(4)]
  obtain r' where "read_to_end (zipcrypto_read (take_read cursor_read)) sizes 0 [] \<lparr> zr_inner = i, zr_keys = ?k' \<rparr> =
      Some (Ok plain, r')" by auto
  with new show ?thesis by blast
qed

text \<open>
  A ZipCrypto entry whose stored bytes are the encryption, under the password's keys, of a
  12-byte header ending in the check byte and of the plaintext, opens with that password, and
  reading it to the end returns the plaintext, however the reads are sized.
\<close>

theorem zipcrypto_roundtrip:
  assumes "window t = encrypt_bytes (password_keys password) (header @ plain)"
    and "length header = 12" and "last header = check" and "\<And>i. 0 < sizes i"
  shows "\<exists>r r'. ZipCryptoReader_new (take_read cursor_read) t password check entry = Ok r \<and>
    read_to_end (zipcrypto_read (take_read cursor_read)) sizes 0 [] r = Some (Ok plain, r')"
  using assms by (rule zipcrypto_reads)

theorem zipcrypto_roundtrip_witness:
  "\<exists>r r'. ZipCryptoReader_new (take_read cursor_read)
      (take_new (cursor_new (encrypt_bytes (password_keys [1, 2]) (replicate 11 0 @ [7] @ [65, 66]))) 14)
      [1, 2] 7 [] = Ok r \<and>
    read_to_end (zipcrypto_read (take_read cursor_read)) (\<lambda>_. 1) 0 [] r = Some (Ok [65, 66], r')"
  using zipcrypto_roundtrip [where header = "replicate 11 0 @ [7]" and plain = "[65, 66]" and
      t = "take_new (cursor_new (encrypt_bytes (password_keys [1, 2]) (replicate 11 0 @ [7] @ [65, 66]))) 14"
      and password = "[1, 2]" and check = 7 and sizes = "\<lambda>_. 1" and entry = "[]"]
  by (simp add: take_new_def)

text \<open>
  A ZipCrypto reader opens exactly when the 12-byte header is there and its last decrypted byte
  is the check byte; otherwise the error tells a short entry from a wrong password.
\<close>

theorem zipcrypto_opens_iff:
  "((\<exists>r. ZipCryptoReader_new (take_read cursor_read) t password check entry = Ok r) \<longleftrightarrow>
      12 \<le> length (window t) \<and> plain_of (password_keys password) (window t) ! 11 = check) \<and>
   (ZipCryptoReader_new (take_read cursor_read) t password check entry = Err (WrongPassword entry) \<longleftrightarrow>
      12 \<le> length (window t) \<and> plain_of (password_keys password) (window t) ! 11 \<noteq> check)"
proof (cases "12 \<le> length (window t)")
  case True
  from win.ZipCryptoReader_new_enough [OF TrueI this, of password check entry] obtain i where
    "ZipCryptoReader_new (take_read cursor_read) t password check entry =
     (if plain_of (password_keys password) (window t) ! 11 \<noteq> check then Err (WrongPassword entry)
      else Ok \<lparr> zr_inner = i, zr_keys = keys_after (password_keys password) (take 12 (window t)) \<rparr>)"
    by blast
  with True show ?thesis
    by (cases "plain_of (password_keys password) (window t) ! 11 = check") simp_all
next
  case False
  then have "length (window t) < 12" by (simp only: not_le)
  from win.ZipCryptoReader_new_short [OF TrueI this] False show ?thesis by auto
qed

end
