(* ===== verification/Externals.thy ===== *)
theory Externals
  imports ZipCrypto
begin

text \<open>
  The third-party crates as parameters: the CRC-32 hasher of \<open>crc32fast\<close>, and SHA-1, PBKDF2,
  HMAC-SHA1, AES-CTR and AES-CBC of RustCrypto. Each is a record of the operations the code calls;
  what their documentation promises and the code relies on is a predicate on that record.
\<close>

section \<open>The CRC-32 hasher\<close>

record 'h crc_lib =
  crc_new :: 'h
  crc_update :: "'h \<Rightarrow> u8 list \<Rightarrow> 'h"
  crc_finalize :: "'h \<Rightarrow> u32"

text \<open>Feeding a buffer in pieces is feeding it whole.\<close>

definition crc_chunked :: "('h, 'z) crc_lib_scheme \<Rightarrow> bool" where
  "crc_chunked L \<longleftrightarrow> (\<forall>h a b. crc_update L (crc_update L h a) b = crc_update L h (a @ b)) \<and>
     (\<forall>h. crc_update L h [] = h)"

definition crc_of :: "('h, 'z) crc_lib_scheme \<Rightarrow> u8 list \<Rightarrow> u32" where
  "crc_of L bs = crc_finalize L (crc_update L (crc_new L) bs)"

text \<open>A concrete hasher: the bytewise CRC-32, with the crate's own byte step.\<close>

definition bytewise_crc :: "u32 crc_lib" where
  "bytewise_crc = \<lparr> crc_new = - 1, crc_update = (\<lambda>h bs. fold (\<lambda>b c. crc32_byte c b) bs h),
     crc_finalize = not \<rparr>"

lemma crc_chunked_bytewise: "crc_chunked bytewise_crc"
  by (simp add: crc_chunked_def bytewise_crc_def)

section \<open>WinZip AES\<close>

text \<open>
  \<open>ctr_new\<close> is \<open>Ctr128LE::<Aes128/192/256>::new(key, iv)\<close>, the cipher chosen by the key length.
\<close>

record ('c, 'm) aes_lib =
  pbkdf2_sha1 :: "u8 list \<Rightarrow> u8 list \<Rightarrow> nat \<Rightarrow> nat \<Rightarrow> u8 list"
  ctr_new :: "u8 list \<Rightarrow> u8 list \<Rightarrow> 'c"
  ctr_apply :: "'c \<Rightarrow> u8 list \<Rightarrow> u8 list \<times> 'c"
  hmac_new :: "u8 list \<Rightarrow> 'm"
  hmac_update :: "'m \<Rightarrow> u8 list \<Rightarrow> 'm"
  hmac_finalize :: "'m \<Rightarrow> u8 list"

text \<open>
  PBKDF2 fills the buffer it is given; the stream cipher works in place and does not depend on how
  the stream is cut; the MAC does not depend on how the message is cut and has 20 bytes.
\<close>

definition aes_lib_ok :: "('c, 'm, 'z) aes_lib_scheme \<Rightarrow> bool" where
  "aes_lib_ok L \<longleftrightarrow>
     (\<forall>p s n len. length (pbkdf2_sha1 L p s n len) = len) \<and>
     (\<forall>c a. length (fst (ctr_apply L c a)) = length a) \<and>
     (\<forall>c a b. ctr_apply L c (a @ b) =
        (fst (ctr_apply L c a) @ fst (ctr_apply L (snd (ctr_apply L c a)) b),
         snd (ctr_apply L (snd (ctr_apply L c a)) b))) \<and>
     (\<forall>m a b. hmac_update L (hmac_update L m a) b = hmac_update L m (a @ b)) \<and>
     (\<forall>m. hmac_update L m [] = m) \<and>
     (\<forall>m. length (hmac_finalize L m) = 20)"

text \<open>An instance with a keystream of counter values and an additive checksum.\<close>

fun counter_apply :: "u8 \<Rightarrow> u8 list \<Rightarrow> u8 list \<times> u8" where
  "counter_apply c [] = ([], c)"
| "counter_apply c (b # bs) = (case counter_apply (c + 1) bs of (ps, c') \<Rightarrow> (xor b c # ps, c'))"

definition counter_lib :: "(u8, u8) aes_lib" where
  "counter_lib = \<lparr> pbkdf2_sha1 = (\<lambda>p s n len. replicate len 3), ctr_new = (\<lambda>key iv. 5),
     ctr_apply = counter_apply, hmac_new = (\<lambda>key. 0),
     hmac_update = (\<lambda>m bs. fold (+) bs m), hmac_finalize = (\<lambda>m. replicate 20 m) \<rparr>"

lemma length_counter_apply: "length (fst (counter_apply c a)) = length a"
  by (induction c a rule: counter_apply.induct) (auto split: prod.split simp: case_prod_beta)

lemma counter_apply_append:
  "counter_apply c (a @ b) =
     (fst (counter_apply c a) @ fst (counter_apply (snd (counter_apply c a)) b),
      snd (counter_apply (snd (counter_apply c a)) b))"
  by (induction c a rule: counter_apply.induct) (auto simp: case_prod_beta)

lemma counter_lib_ok: "aes_lib_ok counter_lib"
  unfolding aes_lib_ok_def counter_lib_def aes_lib.select_convs
  by (intro conjI allI) (rule counter_apply_append | simp add: length_counter_apply)+

section \<open>PKWARE strong encryption\<close>

text \<open>
  \<open>cbc_new\<close> is \<open>cbc::Decryptor::<Aes128/192/256>::new_from_slices(key, iv)\<close>, chosen by the key
  length; \<open>cbc_block\<close> is \<open>decrypt_block_mut\<close> on a 16-byte block.
\<close>

record 'd strong_lib =
  sha1 :: "u8 list \<Rightarrow> u8 list"
  cbc_new :: "u8 list \<Rightarrow> u8 list \<Rightarrow> 'd option"
  cbc_block :: "'d \<Rightarrow> u8 list \<Rightarrow> u8 list \<times> 'd"

text \<open>A digest has 20 bytes, a decrypted block 16, and the three AES key lengths are accepted.\<close>

definition strong_lib_ok :: "('d, 'z) strong_lib_scheme \<Rightarrow> bool" where
  "strong_lib_ok L \<longleftrightarrow>
     (\<forall>m. length (sha1 L m) = 20) \<and>
     (\<forall>d b. length b = 16 \<longrightarrow> length (fst (cbc_block L d b)) = 16) \<and>
     (\<forall>k iv. length k \<in> {16, 24, 32} \<longrightarrow> length iv = 16 \<longrightarrow> cbc_new L k iv \<noteq> None)"

text \<open>An instance: chained exclusive-or with the previous ciphertext block.\<close>

definition chain_lib :: "u8 list strong_lib" where
  "chain_lib = \<lparr> sha1 = (\<lambda>m. replicate 20 (fold (+) m 0)), cbc_new = (\<lambda>k iv. Some iv),
     cbc_block = (\<lambda>d b. (map (\<lambda>i. xor (b ! i) (if i < length d then d ! i else 0)) [0..<length b], b)) \<rparr>"

lemma chain_lib_ok: "strong_lib_ok chain_lib"
  by (simp add: strong_lib_ok_def chain_lib_def)

end
