(* ===== verification/WinZipAes.thy ===== *)
theory WinZipAes
  imports Externals
begin

text \<open>
  WinZip AES (method 99) of \<open>core/src/crypto.rs\<close>: the salt and password verifier, and the reader
  that decrypts in place, authenticates the ciphertext and checks the trailing code at the end.
  \<open>constant_time_eq\<close> is equality of the two slices.
\<close>

section \<open>The reader\<close>

definition salt_len :: "u8 \<Rightarrow> usize" where
  "salt_len s = (if s = 1 then 8 else if s = 2 then 12 else 16)"

definition key_len :: "u8 \<Rightarrow> usize" where
  "key_len s = (if s = 1 then 16 else if s = 2 then 24 else 32)"

record ('s, 'c, 'm) aes_reader =
  ar_inner :: 's
  ar_cipher :: 'c
  ar_hmac :: 'm
  ar_remaining :: u64
  ar_entry :: rstring
  ar_done :: bool

definition ctr_iv :: "u8 list" where
  "ctr_iv = 1 # replicate 15 0"

definition aes_overhead :: "aes_info \<Rightarrow> u64" where
  "aes_overhead info = of_nat (salt_len (strength info)) + 2 + 10"

definition AesReader_new ::
  "('c, 'm, 'z) aes_lib_scheme \<Rightarrow> (nat \<Rightarrow> ('s, u8 list, io_error) act) \<Rightarrow> 's \<Rightarrow> u8 list \<Rightarrow> aes_info
     \<Rightarrow> u64 \<Rightarrow> rstring \<Rightarrow> (('s, 'c, 'm) aes_reader, zip_core_error) outcome" where
  "AesReader_new L rd inner password info compressed_size entry =
     (let klen = key_len (strength info);
          slen = salt_len (strength info);
          overhead = aes_overhead info
      in
      if compressed_size < overhead then
        Err (UnsupportedEncryption entry (lit ''AES entry too small for salt/verifier/auth''))
      else
        (case seq (with_err Io (read_exact rd slen)) (\<lambda>salt.
              seq (with_err Io (read_exact rd 2)) (\<lambda>pwd_verify.
              ret (salt, pwd_verify))) inner of
           (Ok (salt, pwd_verify), inner') \<Rightarrow>
             (let derived = pbkdf2_sha1 L password salt 1000 (2 * klen + 2) in
              and_then (slice derived 0 klen) (\<lambda>enc_key.
              and_then (slice derived klen (2 * klen)) (\<lambda>mac_key.
              and_then (slice derived (2 * klen) (2 * klen + 2)) (\<lambda>derived_verify.
              if derived_verify \<noteq> pwd_verify then Err (WrongPassword entry)
              else Ok \<lparr> ar_inner = inner', ar_cipher = ctr_new L enc_key ctr_iv,
                     ar_hmac = hmac_new L mac_key, ar_remaining = compressed_size - overhead,
                     ar_entry = entry, ar_done = False \<rparr>))))
         | (Err e, _) \<Rightarrow> Err e
         | (Panic, _) \<Rightarrow> Panic))"

definition aes_finish ::
  "('c, 'm, 'z) aes_lib_scheme \<Rightarrow> (nat \<Rightarrow> ('s, u8 list, io_error) act)
     \<Rightarrow> (('s, 'c, 'm) aes_reader, unit, io_error) act" where
  "aes_finish L rd r =
     (case read_exact rd 10 (ar_inner r) of
        (Ok code, i) \<Rightarrow>
          (and_then (slice (hmac_finalize L (ar_hmac r)) 0 10) (\<lambda>computed.
             if computed \<noteq> code then Err (IoOther (WrongPassword (ar_entry r))) else Ok ()),
           r\<lparr>ar_inner := i\<rparr>)
      | (Err e, i) \<Rightarrow> (Err e, r\<lparr>ar_inner := i\<rparr>)
      | (Panic, i) \<Rightarrow> (Panic, r\<lparr>ar_inner := i\<rparr>))"

definition aes_read ::
  "('c, 'm, 'z) aes_lib_scheme \<Rightarrow> (nat \<Rightarrow> ('s, u8 list, io_error) act) \<Rightarrow> nat
     \<Rightarrow> (('s, 'c, 'm) aes_reader, u8 list, io_error) act" where
  "aes_read L rd len r =
     (if ar_remaining r = 0 then
        (if \<not> ar_done r then seq (aes_finish L rd) (\<lambda>_. ret []) (r\<lparr>ar_done := True\<rparr>)
         else (Ok [], r))
      else
        (case rd (min len (unat (ar_remaining r))) (ar_inner r) of
           (Ok bs, i) \<Rightarrow>
             if bs = [] then (Err (IoOther (WrongPassword (ar_entry r))), r\<lparr>ar_inner := i\<rparr>)
             else
               (case ctr_apply L (ar_cipher r) bs of (plain, c) \<Rightarrow>
                  (case sub64 (ar_remaining r) (of_nat (length bs)) of
                     Ok rem \<Rightarrow> (Ok plain, r\<lparr>ar_inner := i, ar_hmac := hmac_update L (ar_hmac r) bs,
                       ar_cipher := c, ar_remaining := rem\<rparr>)
                   | Err e \<Rightarrow> (Err e, r)
                   | Panic \<Rightarrow> (Panic, r\<lparr>ar_inner := i, ar_hmac := hmac_update L (ar_hmac r) bs,
                       ar_cipher := c\<rparr>)))
         | (Err e, i) \<Rightarrow> (Err e, r\<lparr>ar_inner := i\<rparr>)
         | (Panic, i) \<Rightarrow> (Panic, r\<lparr>ar_inner := i\<rparr>)))"

section \<open>What reading to the end returns\<close>

text \<open>
  With \<open>c\<close> left in the stream: an error when the ciphertext or its code is cut short, the
  wrong-password error when the code does not authenticate the ciphertext, else the plaintext.
\<close>

definition aes_outcome ::
  "('c, 'm, 'z) aes_lib_scheme \<Rightarrow> ('s, 'c, 'm) aes_reader \<Rightarrow> u8 list \<Rightarrow> (u8 list, io_error) outcome" where
  "aes_outcome L r c =
     (let rem = unat (ar_remaining r) in
      if length c < rem then Err (IoOther (WrongPassword (ar_entry r)))
      else if length c < rem + 10 then Err eof_error
      else if take 10 (hmac_finalize L (hmac_update L (ar_hmac r) (take rem c))) = take 10 (drop rem c)
      then Ok (fst (ctr_apply L (ar_cipher r) (take rem c)))
      else Err (IoOther (WrongPassword (ar_entry r))))"

definition prepend_ok :: "u8 list \<Rightarrow> (u8 list, io_error) outcome \<Rightarrow> (u8 list, io_error) outcome" where
  "prepend_ok acc v = and_then v (\<lambda>bs. Ok (acc @ bs))"

lemma aes_lib_okD:
  assumes "aes_lib_ok L"
  shows "length (pbkdf2_sha1 L p s n len) = len"
    and "length (fst (ctr_apply L c a)) = length a"
    and "ctr_apply L c (a @ b) =
        (fst (ctr_apply L c a) @ fst (ctr_apply L (snd (ctr_apply L c a)) b),
         snd (ctr_apply L (snd (ctr_apply L c a)) b))"
    and "hmac_update L (hmac_update L m a) b = hmac_update L m (a @ b)"
    and "hmac_update L m [] = m"
    and "length (hmac_finalize L m) = 20"
  using assms unfolding aes_lib_ok_def by blast+

lemma ctr_apply_Nil: "aes_lib_ok L \<Longrightarrow> fst (ctr_apply L c []) = []"
  using aes_lib_okD(2) [of L c "[]"] by simp

lemma aes_outcome_step:
  assumes "aes_lib_ok L" and "k \<le> length c" and "k \<le> unat (ar_remaining r)"
    and "unat (ar_remaining r') = unat (ar_remaining r) - k" and "ar_entry r' = ar_entry r"
    and "ar_hmac r' = hmac_update L (ar_hmac r) (take k c)"
    and "ar_cipher r' = snd (ctr_apply L (ar_cipher r) (take k c))"
  shows "prepend_ok (fst (ctr_apply L (ar_cipher r) (take k c))) (aes_outcome L r' (drop k c)) = aes_outcome L r c"
proof -
  let ?rem = "unat (ar_remaining r)"
  have split: "take ?rem c = take k c @ take (?rem - k) (drop k c)"
    using assms(3) by (simp flip: take_add)
  have "fst (ctr_apply L (ar_cipher r) (take ?rem c)) =
      fst (ctr_apply L (ar_cipher r) (take k c)) @ fst (ctr_apply L (ar_cipher r') (take (?rem - k) (drop k c)))"
    unfolding split assms(7) by (simp only: aes_lib_okD(3) [OF assms(1)] fst_conv)
  moreover have "hmac_update L (ar_hmac r') (take (?rem - k) (drop k c)) = hmac_update L (ar_hmac r) (take ?rem c)"
    unfolding split assms(6) by (rule aes_lib_okD(4) [OF assms(1)])
  moreover have "drop (?rem - k) (drop k c) = drop ?rem c" using assms(3) by simp
  moreover have "length (drop k c) < ?rem - k \<longleftrightarrow> length c < ?rem"
    "length (drop k c) < ?rem - k + 10 \<longleftrightarrow> length c < ?rem + 10"
    using assms(2,3) by auto
  ultimately show ?thesis
    by (simp only: aes_outcome_def Let_def assms(4,5)) (simp add: prepend_ok_def)
qed

context read_stream
begin

lemma aes_finish_outcome:
  assumes L: "aes_lib_ok L" and "inv (ar_inner r)" and "ar_remaining r = 0"
  shows "\<exists>r'. seq (aes_finish L rd) (\<lambda>_. ret []) (r\<lparr>ar_done := True\<rparr>) =
      (aes_outcome L r (content (ar_inner r)), r') \<and> ar_done r' \<and> ar_remaining r' = 0"
proof (rule read_exact_cases [OF assms(2), of 10])
  let ?c = "content (ar_inner r)"
  fix s
  assume 1: "10 \<le> length ?c" "with_err Io (read_exact rd 10) (ar_inner r) = (Ok (take 10 ?c), s)"
  have sl: "slice (hmac_finalize L (ar_hmac r)) 0 10 =
      (Ok (take 10 (hmac_finalize L (ar_hmac r))) :: (u8 list, io_error) outcome)"
    using aes_lib_okD(6) [OF L] by (simp add: slice_OkI)
  show ?thesis
    using 1 assms(3) by (simp add: aes_finish_def aes_outcome_def sl seq_def aes_lib_okD(5) [OF L] ctr_apply_Nil [OF L])
next
  fix s
  assume 1: "length (content (ar_inner r)) < 10" "with_err Io (read_exact rd 10) (ar_inner r) = (Err (Io eof_error), s)"
  from read_exact_short [OF assms(2) 1(1)] obtain s' where "read_exact rd 10 (ar_inner r) = (Err eof_error, s')" by blast
  with 1(1) assms(3) show ?thesis by (simp add: aes_finish_def aes_outcome_def seq_def)
qed

lemma aes_read_to_end:
  assumes L: "aes_lib_ok L" and sizes: "\<And>i. 0 < sizes i"
    and "inv (ar_inner r)" and "\<not> ar_done r"
  shows "\<exists>r'. read_to_end (aes_read L rd) sizes i acc r =
    Some (prepend_ok acc (aes_outcome L r (content (ar_inner r))), r')"
  using assms(3,4)
proof (induction "unat (ar_remaining r)" arbitrary: r i acc rule: less_induct)
  case less
  let ?c = "content (ar_inner r)"
  show ?case
  proof (cases "ar_remaining r = 0")
    case True
    from aes_finish_outcome [OF L less.prems(1) True] obtain r' where
      r': "aes_read L rd (sizes i) r = (aes_outcome L r ?c, r')"
      using True less.prems(2) by (auto simp: aes_read_def)
    have "aes_outcome L r ?c = Ok [] \<or> (\<exists>e. aes_outcome L r ?c = Err e)"
      using True by (simp add: aes_outcome_def Let_def ctr_apply_Nil [OF L])
    with r' show ?thesis
      by (subst read_to_end.simps) (auto simp: prepend_ok_def)
  next
    case False
    let ?n = "min (sizes i) (unat (ar_remaining r))"
    have n: "0 < ?n" using sizes False by (simp add: unat_gt_0)
    show ?thesis
    proof (cases "?c = []")
      case True
      from rd_eof [OF less.prems(1) n True] obtain s' where "rd ?n (ar_inner r) = (Ok [], s')" by blast
      then have "aes_read L rd (sizes i) r =
          (Err (IoOther (WrongPassword (ar_entry r))), r\<lparr>ar_inner := s'\<rparr>)"
        using False by (simp add: aes_read_def)
      moreover have "aes_outcome L r ?c = Err (IoOther (WrongPassword (ar_entry r)))"
        using True False by (simp add: aes_outcome_def unat_gt_0)
      ultimately show ?thesis by (subst read_to_end.simps) (simp add: prepend_ok_def)
    next
      case c: False
      from rd_some [OF less.prems(1) n c] obtain k s' where k: "0 < k" "k \<le> ?n" "k \<le> length ?c"
        and rd: "rd ?n (ar_inner r) = (Ok (take k ?c), s')"
        and s': "content s' = drop k ?c" "inv s'" by blast
      have klt: "k < 2 ^ 64" using k(2) le_less_trans [OF _ unat_lt64, of k "ar_remaining r"] by simp
      then have uk: "unat (of_nat k :: u64) = k" by (simp add: unat_of_nat64)
      let ?rem = "ar_remaining r - of_nat k"
      have le: "of_nat k \<le> ar_remaining r" using k(2) uk by (simp add: word_le_nat_alt)
      then have urem: "unat ?rem = unat (ar_remaining r) - k" using uk by (simp add: unat_sub)
      let ?p = "ctr_apply L (ar_cipher r) (take k ?c)"
      define r1 where "r1 = r\<lparr>ar_inner := s', ar_hmac := hmac_update L (ar_hmac r) (take k ?c),
          ar_cipher := snd ?p, ar_remaining := ?rem\<rparr>"
      have tne: "take k ?c \<noteq> []" and tl: "length (take k ?c) = k" using k c by simp_all
      have "sub64 (ar_remaining r) (of_nat (length (take k ?c))) = (Ok ?rem :: (u64, io_error) outcome)"
        unfolding tl using le by (simp add: sub64_def)
      then have step: "aes_read L rd (sizes i) r = (Ok (fst ?p), r1)"
        using False rd tne by (simp add: aes_read_def case_prod_beta r1_def)
      have pne: "fst ?p \<noteq> []" using aes_lib_okD(2) [OF L, of "ar_cipher r" "take k ?c"] tne
        by (metis length_0_conv)
      have "unat (ar_remaining r1) < unat (ar_remaining r)" using urem k by (simp add: r1_def)
      moreover have "inv (ar_inner r1)" "\<not> ar_done r1" using s' less.prems by (simp_all add: r1_def)
      ultimately obtain r' where "read_to_end (aes_read L rd) sizes (Suc i) (acc @ fst ?p) r1 =
          Some (prepend_ok (acc @ fst ?p) (aes_outcome L r1 (content (ar_inner r1))), r')"
        using less.hyps by blast
      moreover have "prepend_ok (fst ?p) (aes_outcome L r1 (content (ar_inner r1))) = aes_outcome L r ?c"
        using aes_outcome_step [OF L k(3), of r r1] k(2) urem s'(1) by (simp add: r1_def)
      moreover have "prepend_ok (acc @ fst ?p) v = prepend_ok acc (prepend_ok (fst ?p) v)" for v
        by (cases v) (simp_all add: prepend_ok_def)
      ultimately show ?thesis using step pne by (subst read_to_end.simps) simp
    qed
  qed
qed

end

section \<open>An entry from its window of the file\<close>

definition aes_derived :: "('c, 'm, 'z) aes_lib_scheme \<Rightarrow> u8 list \<Rightarrow> aes_info \<Rightarrow> u8 list \<Rightarrow> u8 list" where
  "aes_derived L password info salt =
     pbkdf2_sha1 L password salt 1000 (2 * key_len (strength info) + 2)"

definition aes_verifier :: "('c, 'm, 'z) aes_lib_scheme \<Rightarrow> u8 list \<Rightarrow> aes_info \<Rightarrow> u8 list \<Rightarrow> u8 list" where
  "aes_verifier L password info salt = drop (2 * key_len (strength info)) (aes_derived L password info salt)"

definition aes_code :: "('c, 'm, 'z) aes_lib_scheme \<Rightarrow> u8 list \<Rightarrow> aes_info \<Rightarrow> u8 list \<Rightarrow> u8 list \<Rightarrow> u8 list" where
  "aes_code L password info salt ct =
     (let k = key_len (strength info) in
      take 10 (hmac_finalize L (hmac_update L
        (hmac_new L (take k (drop k (aes_derived L password info salt)))) ct)))"

definition aes_plain :: "('c, 'm, 'z) aes_lib_scheme \<Rightarrow> u8 list \<Rightarrow> aes_info \<Rightarrow> u8 list \<Rightarrow> u8 list \<Rightarrow> u8 list" where
  "aes_plain L password info salt ct =
     fst (ctr_apply L (ctr_new L (take (key_len (strength info)) (aes_derived L password info salt)) ctr_iv) ct)"

lemma unat_aes_overhead: "unat (aes_overhead info) = salt_len (strength info) + 12"
  by (simp add: aes_overhead_def salt_len_def)

lemma AesReader_new_window:
  assumes L: "aes_lib_ok L" and t: "window t = salt @ pv @ rest"
    and len: "length salt = salt_len (strength info)" "length pv = 2"
    and size: "salt_len (strength info) + 12 \<le> unat compressed_size"
  shows "\<exists>i. window i = rest \<and> AesReader_new L (take_read cursor_read) t password info compressed_size entry =
    (if aes_verifier L password info salt \<noteq> pv then Err (WrongPassword entry)
     else Ok \<lparr> ar_inner = i,
       ar_cipher = ctr_new L (take (key_len (strength info)) (aes_derived L password info salt)) ctr_iv,
       ar_hmac = hmac_new L (take (key_len (strength info)) (drop (key_len (strength info)) (aes_derived L password info salt))),
       ar_remaining = compressed_size - aes_overhead info, ar_entry = entry, ar_done = False \<rparr>)"
proof -
  let ?k = "key_len (strength info)" and ?s = "salt_len (strength info)"
  have "?s \<le> length (window t)" unfolding t using len by simp
  from win.read_exact_enough [OF TrueI this] obtain i1 where
    1: "read_exact (take_read cursor_read) ?s t = (Ok salt, i1)" "window i1 = pv @ rest"
    using len unfolding t by auto
  have "2 \<le> length (window i1)" unfolding 1 using len by simp
  from win.read_exact_enough [OF TrueI this] obtain i2 where
    2: "read_exact (take_read cursor_read) 2 i1 = (Ok pv, i2)" "window i2 = rest"
    using len unfolding 1 by auto
  have d: "length (aes_derived L password info salt) = 2 * ?k + 2"
    by (simp add: aes_derived_def aes_lib_okD(1) [OF L])
  let ?d = "aes_derived L password info salt"
  have sl: "slice ?d 0 ?k = (Ok (take ?k ?d) :: (u8 list, zip_core_error) outcome)"
    "slice ?d ?k (2 * ?k) = (Ok (take ?k (drop ?k ?d)) :: (u8 list, zip_core_error) outcome)"
    "slice ?d (2 * ?k) (2 * ?k + 2) = (Ok (aes_verifier L password info salt) :: (u8 list, zip_core_error) outcome)"
    using d by (simp_all add: slice_OkI aes_verifier_def)
  have reads: "seq (with_err Io (read_exact (take_read cursor_read) ?s)) (\<lambda>salt.
      seq (with_err Io (read_exact (take_read cursor_read) 2)) (\<lambda>pwd_verify. ret (salt, pwd_verify))) t =
      (Ok (salt, pv), i2)" using 1(1) 2(1) by simp
  have small: "\<not> compressed_size < aes_overhead info"
    using size by (simp add: word_less_nat_alt unat_aes_overhead)
  have "AesReader_new L (take_read cursor_read) t password info compressed_size entry =
    (if aes_verifier L password info salt \<noteq> pv then Err (WrongPassword entry)
     else Ok \<lparr> ar_inner = i2, ar_cipher = ctr_new L (take ?k ?d) ctr_iv,
       ar_hmac = hmac_new L (take ?k (drop ?k ?d)),
       ar_remaining = compressed_size - aes_overhead info, ar_entry = entry, ar_done = False \<rparr>)"
    unfolding AesReader_new_def Let_def if_not_P [OF small] reads outcome.case prod.case
      aes_derived_def [symmetric] sl and_then.simps ..
  with 2(2) show ?thesis by blast
qed

text \<open>The reader over salt, verifier, ciphertext and code, from its opening to the end.\<close>

lemma aes_reads:
  assumes "aes_lib_ok L" and "window t = salt @ pv @ ct @ code"
    and "length salt = salt_len (strength info)" and "length pv = 2" and "length code = 10"
    and "unat compressed_size = length (salt @ pv @ ct @ code)" and "\<And>i. 0 < sizes i"
  shows "if pv \<noteq> aes_verifier L password info salt
    then AesReader_new L (take_read cursor_read) t password info compressed_size entry = Err (WrongPassword entry)
    else \<exists>r r'. AesReader_new L (take_read cursor_read) t password info compressed_size entry = Ok r \<and>
      read_to_end (aes_read L (take_read cursor_read)) sizes 0 [] r =
        Some (if code = aes_code L password info salt ct then Ok (aes_plain L password info salt ct)
              else Err (IoOther (WrongPassword entry)), r')"
proof -
  have sz: "unat compressed_size = salt_len (strength info) + 12 + length ct"
    using assms(3-6) by simp
  from AesReader_new_window [OF assms(1-4), of compressed_size password entry] sz obtain i where
    i: "window i = ct @ code" "AesReader_new L (take_read cursor_read) t password info compressed_size entry =
    (if aes_verifier L password info salt \<noteq> pv then Err (WrongPassword entry)
     else Ok \<lparr> ar_inner = i,
       ar_cipher = ctr_new L (take (key_len (strength info)) (aes_derived L password info salt)) ctr_iv,
       ar_hmac = hmac_new L (take (key_len (strength info)) (drop (key_len (strength info)) (aes_derived L password info salt))),
       ar_remaining = compressed_size - aes_overhead info, ar_entry = entry, ar_done = False \<rparr>)" (is "_ = (if _ then _ else Ok ?r)")
    by auto
  have "aes_overhead info \<le> compressed_size" using sz by (simp add: word_le_nat_alt unat_aes_overhead)
  then have rem: "unat (compressed_size - aes_overhead info) = length ct"
    using sz by (simp add: unat_sub unat_aes_overhead)
  have "\<exists>r'. read_to_end (aes_read L (take_read cursor_read)) sizes 0 [] ?r =
      Some (prepend_ok [] (aes_outcome L ?r (window (ar_inner ?r))), r')"
    using win.aes_read_to_end [OF assms(1,7), of ?r] by simp
  moreover have "prepend_ok [] (aes_outcome L ?r (window (ar_inner ?r))) =
      (if code = aes_code L password info salt ct then Ok (aes_plain L password info salt ct)
       else Err (IoOther (WrongPassword entry)))"
    using assms(5) rem i(1)
    by (simp add: aes_outcome_def prepend_ok_def aes_code_def aes_plain_def Let_def)
  ultimately show ?thesis using i(2) by auto
qed

text \<open>
  An AES entry made of salt, verifier, ciphertext and code is refused with the wrong-password
  error when the verifier is not the derived one; otherwise reading it to the end, with buffers of
  any positive sizes, returns the decrypted ciphertext if the code authenticates all of it and the
  wrong-password error if it does not.
\<close>

theorem aes_entry_authenticated:
  assumes "aes_lib_ok L" and "window t = salt @ pv @ ct @ code"
    and "length salt = salt_len (strength info)" and "length pv = 2" and "length code = 10"
    and "unat compressed_size = length (salt @ pv @ ct @ code)" and "\<And>i. 0 < sizes i"
  shows "if pv \<noteq> aes_verifier L password info salt
    then AesReader_new L (take_read cursor_read) t password info compressed_size entry = Err (WrongPassword entry)
    else \<exists>r r'. AesReader_new L (take_read cursor_read) t password info compressed_size entry = Ok r \<and>
      read_to_end (aes_read L (take_read cursor_read)) sizes 0 [] r =
        Some (if code = aes_code L password info salt ct then Ok (aes_plain L password info salt ct)
              else Err (IoOther (WrongPassword entry)), r')"
  using assms by (rule aes_reads)

theorem aes_entry_authenticated_witness:
  "\<exists>r r'. AesReader_new counter_lib (take_read cursor_read)
      (take_new (cursor_new (replicate 8 0 @ [3, 3] @ [1, 2] @ replicate 10 3)) 22)
      [9] \<lparr> strength = 1, actual_method = 0, is_ae2 = True \<rparr> 22 [] = Ok r \<and>
    read_to_end (aes_read counter_lib (take_read cursor_read)) (\<lambda>_. 1) 0 [] r = Some (Ok [4, 4], r')"
proof -
  let ?info = "\<lparr> strength = 1, actual_method = 0, is_ae2 = True \<rparr>"
  have "aes_verifier counter_lib [9] ?info (replicate 8 0) = [3, 3]"
    "aes_code counter_lib [9] ?info (replicate 8 0) [1, 2] = replicate 10 3"
    "aes_plain counter_lib [9] ?info (replicate 8 0) [1, 2] = [4, 4]"
    by code_simp+
  then show ?thesis
    using aes_entry_authenticated [OF counter_lib_ok, where t = "take_new (cursor_new (replicate 8 0 @ [3, 3] @ [1, 2] @ replicate 10 3)) 22"
        and salt = "replicate 8 0" and pv = "[3, 3]" and ct = "[1, 2]" and code = "replicate 10 3"
        and info = ?info and compressed_size = 22 and sizes = "\<lambda>_. 1" and password = "[9]" and entry = "[]"]
    by (simp add: take_new_def salt_len_def)
qed

text \<open>
  Asked for zero bytes while ciphertext is left, the AES reader reports a wrong password, where
  the contract of \<open>Read\<close> has it return zero bytes.
\<close>

theorem aes_empty_read_refused:
  assumes "ar_remaining r \<noteq> 0"
  shows "fst (aes_read L (take_read cursor_read) 0 r) = Err (IoOther (WrongPassword (ar_entry r)))"
  using assms by (simp add: aes_read_def take_read_def cursor_read_def split: prod.split)

theorem aes_empty_read_refused_witness:
  "fst (aes_read counter_lib (take_read cursor_read) 0
     \<lparr> ar_inner = take_new (cursor_new [1]) 1, ar_cipher = 0, ar_hmac = 0, ar_remaining = 1,
       ar_entry = [], ar_done = False \<rparr>) = Err (IoOther (WrongPassword []))"
  by (subst aes_empty_read_refused) simp_all

end
