(* ===== verification/StrongCrypto.thy ===== *)
theory StrongCrypto
  imports Externals
begin

unbundle bit_operations_syntax

text \<open>
  PKWARE strong encryption (password-based AES) of \<open>core/src/crypto.rs\<close>: the layout checks of the
  decryption header, the key derivation, the two password gates, and the CBC reader.
\<close>

abbreviation ALG_AES128 :: u16 where "ALG_AES128 \<equiv> 0x660E"
abbreviation AES_BLOCK :: usize where "AES_BLOCK \<equiv> 16"
abbreviation MAX_STRONG_REM :: usize where "MAX_STRONG_REM \<equiv> 262144"

section \<open>Keys\<close>

definition derive_key_half :: "('d, 'z) strong_lib_scheme \<Rightarrow> u8 list \<Rightarrow> u8 \<Rightarrow> u8 list" where
  "derive_key_half L digest c =
     (let buf = replicate 64 c
      in sha1 L (map2 (XOR) (take 20 buf) digest @ drop 20 buf))"

definition crypt_derive_key :: "('d, 'z) strong_lib_scheme \<Rightarrow> u8 list \<Rightarrow> usize \<Rightarrow> u8 list" where
  "crypt_derive_key L digest key_size =
     take key_size (derive_key_half L digest 0x36 @ derive_key_half L digest 0x5C)"

definition CbcDec_new ::
  "('d, 'z) strong_lib_scheme \<Rightarrow> u8 list \<Rightarrow> u8 list \<Rightarrow> rstring \<Rightarrow> ('d, zip_core_error) outcome" where
  "CbcDec_new L key iv entry =
     (let err = UnsupportedEncryption entry (lit ''invalid AES key length '' @ fmt_dec (length key))
      in if length key = 16 \<or> length key = 24 \<or> length key = 32
         then ok_or (cbc_new L key iv) err else Err err)"

text \<open>\<open>chunks_exact_mut(16)\<close> leaves a short last chunk alone.\<close>

function cbc_chunks :: "('d, 'z) strong_lib_scheme \<Rightarrow> 'd \<Rightarrow> u8 list \<Rightarrow> u8 list" where
  "cbc_chunks L d data =
     (if length data < AES_BLOCK then data
      else fst (cbc_block L d (take AES_BLOCK data)) @
           cbc_chunks L (snd (cbc_block L d (take AES_BLOCK data))) (drop AES_BLOCK data))"
  by pat_completeness auto
termination
  by (relation "measure (\<lambda>(L, d, data). length data)") auto

declare cbc_chunks.simps [simp del]

definition cbc_decrypt_buffer ::
  "('d, 'z) strong_lib_scheme \<Rightarrow> u8 list \<Rightarrow> u8 list \<Rightarrow> u8 list \<Rightarrow> rstring \<Rightarrow> (u8 list, zip_core_error) outcome" where
  "cbc_decrypt_buffer L key iv data entry =
     and_then (CbcDec_new L key iv entry) (\<lambda>dec. Ok (cbc_chunks L dec data))"

section \<open>The header layout\<close>

record strong_layout =
  key_size :: usize
  rd_size :: usize
  valid_off :: usize
  valid_size :: usize

definition u16_at :: "u8 list \<Rightarrow> usize \<Rightarrow> (u16, 'e) outcome" where
  "u16_at p i = and_then (slice p i (i + 2)) (\<lambda>b. Ok (from_le_bytes b))"

definition u32_at :: "u8 list \<Rightarrow> usize \<Rightarrow> (u32, 'e) outcome" where
  "u32_at p i = and_then (slice p i (i + 4)) (\<lambda>b. Ok (from_le_bytes b))"

definition parse_strong_layout :: "u8 list \<Rightarrow> rstring \<Rightarrow> (strong_layout, zip_core_error) outcome" where
  "parse_strong_layout p entry =
    (let refuse = (\<lambda>reason. Err (UnsupportedEncryption entry reason));
         rem_size = length p
     in
     and_then (u16_at p 0) (\<lambda>fmt.
     if fmt \<noteq> 3 then
       refuse (lit ''strong-encryption format '' @ fmt_dec (unat fmt) @ lit '' (expected 3)'')
     else and_then (u16_at p 2) (\<lambda>alg.
     if \<not> (ALG_AES128 \<le> alg \<and> alg - ALG_AES128 \<le> 2) then
       refuse (lit ''strong-encryption AlgID '' @ fmt_hex_width 6 (unat alg) @
         lit '' is not AES (0x660E/0F/10)'')
     else and_then (u16_at p 4) (\<lambda>bit_len16.
     and_then (u16_at p 6) (\<lambda>flags.
     let bit_len = unat bit_len16;
         ksize = 16 + unat (alg - ALG_AES128) * 8
     in
     if ksize * 8 \<noteq> bit_len then
       refuse (lit ''strong-encryption BitLen '' @ fmt_dec bit_len @
         lit '' does not match AlgID key size '' @ fmt_dec ksize)
     else if has_bits flags 0x4000 then
       refuse (lit ''strong-encryption uses 3DES for the ERD (unsupported)'')
     else if has_bits flags 0x0002 then
       refuse (lit ''strong-encryption is certificate-based (no private key)'')
     else if \<not> has_bits flags 0x0001 then
       refuse (lit ''strong-encryption header sets neither the password nor certificate flag'')
     else and_then (u16_at p 8) (\<lambda>rd16.
     let rsize = unat rd16 in
     if (case checked_add_usize rsize 16 of None \<Rightarrow> True | Some v \<Rightarrow> rem_size < v) then
       refuse (lit ''strong-encryption ERD size '' @ fmt_dec rsize @ lit '' overflows the '' @
         fmt_dec rem_size @ lit ''-byte header'')
     else if rsize < AES_BLOCK \<or> rsize mod AES_BLOCK \<noteq> 0 then
       refuse (lit ''strong-encryption ERD size '' @ fmt_dec rsize @
         lit '' is not a positive multiple of '' @ fmt_dec AES_BLOCK)
     else
     let reserved_off = 10 + rsize in
     and_then (u32_at p reserved_off) (\<lambda>reserved.
     if reserved \<noteq> 0 then
       refuse (lit ''strong-encryption Reserved1 '' @ fmt_hex (unat reserved) @
         lit '' (certificate recipient list, unsupported)'')
     else
     let vsize_off = reserved_off + 4 in
     and_then (u16_at p vsize_off) (\<lambda>vs16.
     let vsize = unat vs16; voff = vsize_off + 2 in
     if vsize < 4 \<or> vsize mod AES_BLOCK \<noteq> 0 \<or> checked_add_usize voff vsize \<noteq> Some rem_size then
       refuse (lit ''strong-encryption validation blob size '' @ fmt_dec vsize @
         lit '' is inconsistent with the header'')
     else Ok \<lparr> key_size = ksize, rd_size = rsize, valid_off = voff, valid_size = vsize \<rparr>))))))))"

section \<open>The decryption header\<close>

record strong_header =
  sh_iv :: "u8 list"
  sh_file_key :: "u8 list"
  sh_header_len :: u64

text \<open>The initialization vector: \<open>(iv, iv_used, header_len)\<close>.\<close>

definition read_strong_iv ::
  "(nat \<Rightarrow> ('s, u8 list, io_error) act) \<Rightarrow> u32 \<Rightarrow> u64 \<Rightarrow> rstring
     \<Rightarrow> ('s, u8 list \<times> usize \<times> u64, zip_core_error) act" where
  "read_strong_iv rd crc unpack_size entry =
     seq (with_err Io (read_exact rd 2)) (\<lambda>buf2.
     let iv_size_field = (from_le_bytes buf2 :: u16) in
     if iv_size_field = 0 then
       ret (le32 crc @ le64 unpack_size @ replicate 4 0, 12, 2)
     else if iv_size_field = 16 then
       seq (with_err Io (read_exact rd 16)) (\<lambda>iv. ret (iv, 16, 2 + 16))
     else
       fail (UnsupportedEncryption entry (lit ''strong-encryption IV size '' @
         fmt_dec (unat iv_size_field) @ lit '' (only 0 or 16 supported)'')))"

text \<open>
  What the password yields once the remainder \<open>p\<close> is read: the file key, or the error of the
  first gate that fails.
\<close>

definition strong_file_key ::
  "('d, 'z) strong_lib_scheme \<Rightarrow> ('h, 'y) crc_lib_scheme \<Rightarrow> u8 list \<Rightarrow> u8 list \<Rightarrow> usize \<Rightarrow> u8 list
     \<Rightarrow> rstring \<Rightarrow> (u8 list, zip_core_error) outcome" where
  "strong_file_key L H p iv iv_used password entry =
     and_then (parse_strong_layout p entry) (\<lambda>lay.
     let master_key = crypt_derive_key L (sha1 L password) (key_size lay) in
     and_then (slice p 10 (10 + rd_size lay)) (\<lambda>erd_cipher.
     and_then (cbc_decrypt_buffer L master_key iv erd_cipher entry) (\<lambda>erd.
     let rd_len = rd_size lay - AES_BLOCK in
     and_then (slice_from erd rd_len) (\<lambda>pad.
     if list_ex (\<lambda>b. unat b \<noteq> AES_BLOCK) pad then Err (WrongPassword entry)
     else
     and_then (slice erd 0 rd_len) (\<lambda>rd.
     and_then (slice iv 0 iv_used) (\<lambda>iv_prefix.
     let file_key = crypt_derive_key L (sha1 L (iv_prefix @ rd)) (key_size lay) in
     and_then (slice p (valid_off lay) (valid_off lay + valid_size lay)) (\<lambda>vcipher.
     and_then (cbc_decrypt_buffer L file_key iv vcipher entry) (\<lambda>vdata.
     let split = valid_size lay - 4 in
     and_then (u32_at vdata split) (\<lambda>want.
     and_then (slice vdata 0 split) (\<lambda>body.
     if crc_of H body \<noteq> want then Err (WrongPassword entry)
     else Ok file_key))))))))))"

definition read_strong_header ::
  "('d, 'z) strong_lib_scheme \<Rightarrow> ('h, 'y) crc_lib_scheme \<Rightarrow> (nat \<Rightarrow> ('s, u8 list, io_error) act)
     \<Rightarrow> u8 list \<Rightarrow> u32 \<Rightarrow> u64 \<Rightarrow> rstring \<Rightarrow> ('s, strong_header, zip_core_error) act" where
  "read_strong_header L H rd password crc unpack_size entry =
     seq (read_strong_iv rd crc unpack_size entry) (\<lambda>(iv, iv_used, len0).
     seq (with_err Io (read_exact rd 4)) (\<lambda>buf4.
     let rem_size = unat (from_le_bytes buf4 :: u32) in
     if \<not> (16 \<le> rem_size \<and> rem_size \<le> MAX_STRONG_REM) then
       fail (UnsupportedEncryption entry (lit ''strong-encryption header remainder '' @
         fmt_dec rem_size @ lit '' bytes out of range''))
     else
     seq (with_err Io (read_exact rd rem_size)) (\<lambda>p.
     seq (lift_outcome (strong_file_key L H p iv iv_used password entry)) (\<lambda>file_key.
     seq (lift_outcome (slice p (rem_size - AES_BLOCK) rem_size)) (\<lambda>file_iv.
     ret \<lparr> sh_iv = file_iv, sh_file_key = file_key, sh_header_len = len0 + 4 + of_nat rem_size \<rparr>)))))"

section \<open>The CBC reader\<close>

text \<open>
  A failed \<open>read_exact\<close> leaves the block buffer half written; the buffer is exhausted at that
  point and is overwritten before it is read again, so the model keeps its old content.
\<close>

record ('s, 'd) strong_reader =
  sr_inner :: 's
  sr_cipher :: 'd
  sr_block :: "u8 list"
  sr_block_pos :: usize
  sr_block_len :: usize
  sr_remaining :: u64

definition StrongAesReader_new ::
  "('d, 'z) strong_lib_scheme \<Rightarrow> 's \<Rightarrow> u8 list \<Rightarrow> u8 list \<Rightarrow> u64 \<Rightarrow> rstring
     \<Rightarrow> (('s, 'd) strong_reader, zip_core_error) outcome" where
  "StrongAesReader_new L inner file_key iv enc_len entry =
     and_then (CbcDec_new L file_key iv entry) (\<lambda>cipher. Ok
       \<lparr> sr_inner = inner, sr_cipher = cipher, sr_block = replicate AES_BLOCK 0, sr_block_pos = 0,
         sr_block_len = 0, sr_remaining = enc_len \<rparr>)"

definition strong_deliver :: "nat \<Rightarrow> (('s, 'd) strong_reader, u8 list, io_error) act" where
  "strong_deliver len r =
     (let n = min (sr_block_len r - sr_block_pos r) len in
      case slice (sr_block r) (sr_block_pos r) (sr_block_pos r + n) of
        Ok bs \<Rightarrow> (Ok bs, r\<lparr>sr_block_pos := sr_block_pos r + n\<rparr>)
      | Err e \<Rightarrow> (Err e, r)
      | Panic \<Rightarrow> (Panic, r))"

definition strong_read ::
  "('d, 'z) strong_lib_scheme \<Rightarrow> (nat \<Rightarrow> ('s, u8 list, io_error) act) \<Rightarrow> nat
     \<Rightarrow> (('s, 'd) strong_reader, u8 list, io_error) act" where
  "strong_read L rd len r =
     (if sr_block_len r \<le> sr_block_pos r then
        (if sr_remaining r = 0 then (Ok [], r)
         else case read_exact rd AES_BLOCK (sr_inner r) of
           (Ok blk, i) \<Rightarrow>
             (case cbc_block L (sr_cipher r) blk of (plain, c) \<Rightarrow>
                strong_deliver len (r\<lparr>sr_inner := i, sr_cipher := c, sr_block := plain,
                  sr_block_pos := 0, sr_block_len := AES_BLOCK,
                  sr_remaining := saturating_sub64 (sr_remaining r) (of_nat AES_BLOCK)\<rparr>))
         | (Err e, i) \<Rightarrow> (Err e, r\<lparr>sr_inner := i\<rparr>)
         | (Panic, i) \<Rightarrow> (Panic, r\<lparr>sr_inner := i\<rparr>))
      else strong_deliver len r)"

section \<open>The layout checks\<close>

lemma u16_at_Ok: "i + 2 \<le> length p \<Longrightarrow> u16_at p i = Ok (from_le_bytes (take 2 (drop i p)))"
  by (simp add: u16_at_def slice_OkI)

lemma u32_at_Ok: "i + 4 \<le> length p \<Longrightarrow> u32_at p i = Ok (from_le_bytes (take 4 (drop i p)))"
  by (simp add: u32_at_def slice_OkI)

definition field16 :: "u8 list \<Rightarrow> usize \<Rightarrow> u16" where
  "field16 p i = from_le_bytes (take 2 (drop i p))"

definition field32 :: "u8 list \<Rightarrow> usize \<Rightarrow> u32" where
  "field32 p i = from_le_bytes (take 4 (drop i p))"

text \<open>The shape a header remainder must have, as one condition on its fields.\<close>

definition strong_shape :: "u8 list \<Rightarrow> bool" where
  "strong_shape p \<longleftrightarrow>
     (let k = unat (field16 p 2 - ALG_AES128); rsize = unat (field16 p 8);
          vsize = unat (field16 p (14 + rsize))
      in field16 p 0 = 3 \<and> ALG_AES128 \<le> field16 p 2 \<and> k \<le> 2 \<and>
         unat (field16 p 4) = (16 + k * 8) * 8 \<and>
         \<not> has_bits (field16 p 6) 0x4000 \<and> \<not> has_bits (field16 p 6) 0x0002 \<and>
         has_bits (field16 p 6) 0x0001 \<and>
         rsize + 16 \<le> length p \<and> 16 \<le> rsize \<and> rsize mod 16 = 0 \<and>
         field32 p (10 + rsize) = 0 \<and>
         4 \<le> vsize \<and> vsize mod 16 = 0 \<and> 16 + rsize + vsize = length p)"

definition strong_layout_of :: "u8 list \<Rightarrow> strong_layout" where
  "strong_layout_of p = (let rsize = unat (field16 p 8) in
     \<lparr> key_size = 16 + unat (field16 p 2 - ALG_AES128) * 8, rd_size = rsize,
       valid_off = 16 + rsize, valid_size = unat (field16 p (14 + rsize)) \<rparr>)"

lemma checked_add_usize_eq: "k < 2 ^ 64 \<Longrightarrow> checked_add_usize a b = Some k \<longleftrightarrow> a + b = k"
  by (auto simp: checked_add_usize_def)

lemma parse_strong_layout_cases:
  assumes "16 \<le> length p" and "length p < 2 ^ 64"
  shows "if strong_shape p then parse_strong_layout p entry = Ok (strong_layout_of p)
    else (\<exists>reason. parse_strong_layout p entry = Err (UnsupportedEncryption entry reason))"
proof -
  let ?r = "unat (field16 p 8)"
  have at: "u16_at p 0 = Ok (field16 p 0)" "u16_at p 2 = Ok (field16 p 2)" "u16_at p 4 = Ok (field16 p 4)"
    "u16_at p 6 = Ok (field16 p 6)" "u16_at p 8 = Ok (field16 p 8)"
    using assms by (simp_all add: u16_at_Ok field16_def)
  have fits: "(case checked_add_usize ?r 16 of None \<Rightarrow> True | Some v \<Rightarrow> length p < v) \<longleftrightarrow> \<not> ?r + 16 \<le> length p"
  proof -
    have "?r < 65536" by simp
    then have "?r + 16 < 18446744073709551616" by linarith
    then show ?thesis by (simp add: checked_add_usize_def not_le)
  qed
  have at2: "u32_at p (10 + ?r) = Ok (field32 p (10 + ?r))" "u16_at p (10 + ?r + 4) = Ok (field16 p (14 + ?r))"
    if "?r + 16 \<le> length p"
    using that by (simp_all add: u32_at_Ok u16_at_Ok field16_def field32_def add.commute add.left_commute)
  have k: "alg - ALG_AES128 \<le> 2 \<longleftrightarrow> unat (alg - ALG_AES128) \<le> 2" for alg
    by (simp add: word_le_nat_alt)
  have vo: "10 + ?r + 4 + 2 = 16 + ?r" by simp
  note ce = checked_add_usize_eq [OF assms(2)]
  show ?thesis
  proof (cases "?r + 16 \<le> length p")
    case True
    show ?thesis
      unfolding parse_strong_layout_def Let_def at at2 [OF True] and_then.simps fits vo ce k
        strong_shape_def strong_layout_of_def
      using True by (auto simp: not_le)
  next
    case False
    then show ?thesis
      unfolding parse_strong_layout_def Let_def at and_then.simps fits strong_shape_def by auto
  qed
qed

text \<open>
  C31: For a remainder of at least 16 bytes, as the header declares it, the layout parser accepts
  exactly the shapes the format allows, returns the regions the fields delimit, refuses everything
  else with the unsupported-encryption error, and never indexes outside the buffer.
\<close>

theorem strong_layout_exact:
  assumes "16 \<le> length p" and "length p \<le> MAX_STRONG_REM"
  shows "parse_strong_layout p entry \<noteq> Panic \<and>
    (parse_strong_layout p entry = Ok lay \<longleftrightarrow> strong_shape p \<and> lay = strong_layout_of p) \<and>
    (\<not> strong_shape p \<longleftrightarrow> (\<exists>reason. parse_strong_layout p entry = Err (UnsupportedEncryption entry reason)))"
proof -
  have "length p < 2 ^ 64" by (rule le_less_trans [OF assms(2)]) simp
  from parse_strong_layout_cases [OF assms(1) this, of entry] show ?thesis
    by (cases "strong_shape p") auto
qed

text \<open>A password-encrypted AES-128 remainder: one ERD block pair and one validation block.\<close>

definition sample_remainder :: "u8 list" where
  "sample_remainder = [3, 0, 0x0E, 0x66, 128, 0, 1, 0, 16, 0] @ replicate 16 9 @ [0, 0, 0, 0, 16, 0] @ replicate 16 8"

theorem strong_layout_exact_witness:
  "parse_strong_layout sample_remainder [] =
     Ok \<lparr> key_size = 16, rd_size = 16, valid_off = 32, valid_size = 16 \<rparr>"
proof -
  have shape: "strong_shape sample_remainder" by code_simp
  have lay: "strong_layout_of sample_remainder = \<lparr> key_size = 16, rd_size = 16, valid_off = 32, valid_size = 16 \<rparr>"
    by code_simp
  show ?thesis
    using strong_layout_exact [of sample_remainder "[]" "strong_layout_of sample_remainder"] shape lay
    by (simp add: sample_remainder_def)
qed

section \<open>Key derivation and the password gates\<close>

lemma length_derive_key_half: "strong_lib_ok L \<Longrightarrow> length (derive_key_half L d c) = 20"
  by (simp add: derive_key_half_def strong_lib_ok_def Let_def)

lemma length_crypt_derive_key:
  "strong_lib_ok L \<Longrightarrow> length (crypt_derive_key L d n) = min n 40"
  by (simp add: crypt_derive_key_def length_derive_key_half)

lemma length_cbc_chunks: "strong_lib_ok L \<Longrightarrow> length (cbc_chunks L d data) = length data"
proof (induction L d data rule: cbc_chunks.induct)
  case (1 L d data)
  show ?case
  proof (cases "length data < AES_BLOCK")
    case False
    then have "length (take AES_BLOCK data) = 16" by simp
    with "1.prems" have "length (fst (cbc_block L d (take AES_BLOCK data))) = 16"
      by (simp add: strong_lib_ok_def)
    with 1 False show ?thesis by (subst cbc_chunks.simps) simp
  qed (simp add: cbc_chunks.simps)
qed

lemma CbcDec_new_Ok:
  assumes "strong_lib_ok L" and "length k \<in> {16, 24, 32}" and "length iv = 16"
  obtains d where "cbc_new L k iv = Some d" and "CbcDec_new L k iv entry = Ok d"
proof -
  from assms have "cbc_new L k iv \<noteq> None" unfolding strong_lib_ok_def by blast
  then obtain d where d: "cbc_new L k iv = Some d" by blast
  with assms(2) have "CbcDec_new L k iv entry = Ok d" by (auto simp: CbcDec_new_def Let_def)
  with d that show ?thesis by blast
qed

lemma cbc_decrypt_buffer_Ok:
  assumes "strong_lib_ok L" and "length k \<in> {16, 24, 32}" and "length iv = 16"
  obtains plain where "cbc_decrypt_buffer L k iv data entry = Ok plain" and "length plain = length data"
proof -
  from CbcDec_new_Ok [OF assms] obtain d where "CbcDec_new L k iv entry = Ok d" by blast
  then have "cbc_decrypt_buffer L k iv data entry = Ok (cbc_chunks L d data)"
    by (simp add: cbc_decrypt_buffer_def)
  with that length_cbc_chunks [OF assms(1)] show ?thesis by blast
qed

lemma strong_shape_key_size:
  "strong_shape p \<Longrightarrow> key_size (strong_layout_of p) \<in> {16, 24, 32}"
proof -
  assume "strong_shape p"
  then have "unat (field16 p 2 - ALG_AES128) \<le> 2" by (simp add: strong_shape_def Let_def)
  then have "unat (field16 p 2 - ALG_AES128) \<in> {0, 1, 2}" by auto
  then show ?thesis by (auto simp: strong_layout_of_def Let_def)
qed

lemma strong_shape_regions:
  assumes "strong_shape p"
  shows "16 \<le> rd_size (strong_layout_of p)" and "10 + rd_size (strong_layout_of p) \<le> length p"
    and "4 \<le> valid_size (strong_layout_of p)"
    and "valid_off (strong_layout_of p) + valid_size (strong_layout_of p) = length p"
  using assms by (auto simp: strong_shape_def strong_layout_of_def Let_def)

text \<open>The gates end in a key of the announced size or in an error; no step indexes out of range.\<close>

lemma strong_file_key_cases:
  assumes L: "strong_lib_ok L" and p: "16 \<le> length p" "length p < 2 ^ 64"
    and iv: "length iv = 16" "iv_used \<le> 16"
  shows "case strong_file_key L H p iv iv_used password entry of
      Ok key \<Rightarrow> length key \<in> {16, 24, 32}
    | Err e \<Rightarrow> e = WrongPassword entry \<or> (\<exists>reason. e = UnsupportedEncryption entry reason)
    | Panic \<Rightarrow> False"
proof (cases "strong_shape p")
  case True
  let ?lay = "strong_layout_of p"
  have lay: "parse_strong_layout p entry = Ok ?lay"
    using parse_strong_layout_cases [OF p, of entry] True by simp
  note reg = strong_shape_regions [OF True]
  have ks: "length (crypt_derive_key L d (key_size ?lay)) \<in> {16, 24, 32}" for d
    using strong_shape_key_size [OF True] by (auto simp: length_crypt_derive_key [OF L])
  let ?m = "crypt_derive_key L (sha1 L password) (key_size ?lay)"
  have s1: "slice p 10 (10 + rd_size ?lay) = (Ok (take (rd_size ?lay) (drop 10 p)) :: (u8 list, zip_core_error) outcome)"
    using reg by (simp add: slice_OkI)
  from cbc_decrypt_buffer_Ok [OF L ks iv(1)] obtain erd where erd:
    "cbc_decrypt_buffer L ?m iv (take (rd_size ?lay) (drop 10 p)) entry = Ok erd"
    "length erd = length (take (rd_size ?lay) (drop 10 p))" by blast
  then have lerd: "length erd = rd_size ?lay" using reg by simp
  let ?n = "rd_size ?lay - AES_BLOCK"
  have s2: "slice_from erd ?n = (Ok (drop ?n erd) :: (u8 list, zip_core_error) outcome)"
    "slice erd 0 ?n = (Ok (take ?n erd) :: (u8 list, zip_core_error) outcome)"
    using lerd by (simp_all add: slice_from_OkI slice_OkI)
  have s3: "slice iv 0 iv_used = (Ok (take iv_used iv) :: (u8 list, zip_core_error) outcome)"
    using iv by (simp add: slice_OkI)
  let ?f = "crypt_derive_key L (sha1 L (take iv_used iv @ take ?n erd)) (key_size ?lay)"
  let ?v = "take (valid_size ?lay) (drop (valid_off ?lay) p)"
  have s4: "slice p (valid_off ?lay) (valid_off ?lay + valid_size ?lay) = (Ok ?v :: (u8 list, zip_core_error) outcome)"
    using reg by (simp add: slice_OkI)
  from cbc_decrypt_buffer_Ok [OF L ks iv(1)] obtain vd where vd:
    "cbc_decrypt_buffer L ?f iv ?v entry = Ok vd" "length vd = length ?v" by blast
  then have lvd: "length vd = valid_size ?lay" using reg by simp
  let ?s = "valid_size ?lay - 4"
  have s5: "u32_at vd ?s = (Ok (from_le_bytes (take 4 (drop ?s vd))) :: (u32, zip_core_error) outcome)"
    "slice vd 0 ?s = (Ok (take ?s vd) :: (u8 list, zip_core_error) outcome)"
    using lvd reg by (simp_all add: u32_at_Ok slice_OkI)
  show ?thesis
    unfolding strong_file_key_def lay Let_def and_then.simps s1 erd(1) s2 s3 s4 vd(1) s5
    using ks by simp
next
  case False
  then show ?thesis
    using parse_strong_layout_cases [OF p, of entry] by (auto simp: strong_file_key_def)
qed

section \<open>Where the header ends\<close>

context read_stream
begin

text \<open>The IV stage consumes what it says and yields 16 bytes.\<close>

lemma read_strong_iv_cases:
  assumes "inv s"
  shows "case read_strong_iv rd crc sz entry s of
      (Ok (iv, used, n), s') \<Rightarrow> length iv = 16 \<and> used \<le> 16 \<and> unat n \<le> 18 \<and>
        unat n \<le> length (content s) \<and> content s' = drop (unat n) (content s) \<and> inv s'
    | (Err e, s') \<Rightarrow> True
    | (Panic, s') \<Rightarrow> False"
proof (rule read_exact_cases [OF assms, of 2])
  fix s1
  assume 1: "2 \<le> length (content s)" "with_err Io (read_exact rd 2) s = (Ok (take 2 (content s)), s1)"
    "content s1 = drop 2 (content s)" "inv s1"
  show ?thesis
  proof (cases "(from_le_bytes (take 2 (content s)) :: u16) = 0")
    case True
    with 1 show ?thesis by (simp add: read_strong_iv_def Let_def)
  next
    case False
    show ?thesis
    proof (cases "(from_le_bytes (take 2 (content s)) :: u16) = 16")
      case True
      show ?thesis
      proof (rule read_exact_cases [OF 1(4), of 16])
        fix s2
        assume "16 \<le> length (content s1)" "with_err Io (read_exact rd 16) s1 = (Ok (take 16 (content s1)), s2)"
          "content s2 = drop 16 (content s1)" "inv s2"
        with 1 True show ?thesis by (simp add: read_strong_iv_def Let_def)
      next
        fix s2
        assume "with_err Io (read_exact rd 16) s1 = (Err (Io eof_error), s2)"
        with 1 True show ?thesis by (simp add: read_strong_iv_def Let_def)
      qed
    qed (use 1 False in \<open>simp add: read_strong_iv_def Let_def\<close>)
  qed
qed (simp add: read_strong_iv_def)

lemma strong_header_length:
  "unat n \<le> 18 \<Longrightarrow> r \<le> MAX_STRONG_REM \<Longrightarrow> unat (n + 4 + of_nat r :: u64) = unat n + 4 + r"
  using unat_add64 [of n 4] unat_add64 [of "n + 4" "of_nat r"] unat_of_nat64 [of r] by simp

text \<open>The header once its three regions have been read.\<close>

lemma read_strong_header_run:
  assumes "read_strong_iv rd crc sz entry s = (Ok (iv, used, n), s1)"
    and "with_err Io (read_exact rd 4) s1 = (Ok szb, s2)"
    and "with_err Io (read_exact rd (unat (from_le_bytes szb :: u32))) s2 = (Ok p, s3)"
    and "length p = unat (from_le_bytes szb :: u32)"
  defines "rem \<equiv> unat (from_le_bytes szb :: u32)"
  shows "16 \<le> rem \<and> rem \<le> MAX_STRONG_REM \<Longrightarrow> read_strong_header L H rd password crc sz entry s =
    (and_then (strong_file_key L H p iv used password entry) (\<lambda>key.
       Ok \<lparr> sh_iv = drop (rem - AES_BLOCK) p, sh_file_key = key, sh_header_len = n + 4 + of_nat rem \<rparr>), s3)"
proof -
  assume b: "16 \<le> rem \<and> rem \<le> MAX_STRONG_REM"
  then have sl: "slice p (rem - AES_BLOCK) rem = (Ok (drop (rem - AES_BLOCK) p) :: (u8 list, zip_core_error) outcome)"
    using assms(4) by (simp add: slice_OkI rem_def)
  show ?thesis
    using assms(1-3) b sl unfolding read_strong_header_def
    by (cases "strong_file_key L H p iv used password entry") (simp_all add: Let_def rem_def)
qed

lemma read_strong_header_cases:
  assumes "inv s" and L: "strong_lib_ok L"
  shows "case read_strong_header L H rd password crc sz entry s of
      (Ok h, s') \<Rightarrow> unat (sh_header_len h) \<le> length (content s) \<and>
        content s' = drop (unat (sh_header_len h)) (content s) \<and> inv s' \<and>
        length (sh_iv h) = 16 \<and> length (sh_file_key h) \<in> {16, 24, 32}
    | (Err e, s') \<Rightarrow> True
    | (Panic, s') \<Rightarrow> False"
proof (cases "read_strong_iv rd crc sz entry s")
  case (Pair v s1)
  note iv_cases = read_strong_iv_cases [OF assms(1), of crc sz entry, unfolded Pair]
  show ?thesis
  proof (cases v)
    case (Ok r)
    obtain iv used n where r: "r = (iv, used, n)" by (cases r)
    from iv_cases have iv: "length iv = 16" "used \<le> 16" "unat n \<le> 18" "unat n \<le> length (content s)"
      "content s1 = drop (unat n) (content s)" "inv s1"
      unfolding Ok r by auto
    note step1 = Pair [unfolded Ok r]
    show ?thesis
    proof (rule read_exact_cases [OF iv(6), of 4])
      fix s2
      assume 2: "4 \<le> length (content s1)" "with_err Io (read_exact rd 4) s1 = (Ok (take 4 (content s1)), s2)"
        "content s2 = drop 4 (content s1)" "inv s2"
      let ?rem = "unat (from_le_bytes (take 4 (content s1)) :: u32)"
      show ?thesis
      proof (cases "16 \<le> ?rem \<and> ?rem \<le> MAX_STRONG_REM")
        case True
        show ?thesis
        proof (rule read_exact_cases [OF 2(4), of ?rem])
          fix s3
          let ?p = "take ?rem (content s2)"
          assume 3: "?rem \<le> length (content s2)" "with_err Io (read_exact rd ?rem) s2 = (Ok ?p, s3)"
            "content s3 = drop ?rem (content s2)" "inv s3"
          have lp: "length ?p = ?rem" using 3(1) by simp
          then have "16 \<le> length ?p" "length ?p < 2 ^ 64" using True by simp_all
          note fk = strong_file_key_cases [where H = H and password = password and entry = entry, OF L this iv(1,2)]
          note run = read_strong_header_run [OF Pair [unfolded Ok r] 2(2) 3(2) lp, of L H password]
          show ?thesis
          proof (cases "strong_file_key L H ?p iv used password entry")
            case (Ok key)
            have "unat (n + 4 + of_nat ?rem) = unat n + 4 + ?rem"
              using iv(3) True by (intro strong_header_length) simp_all
            moreover have "content s3 = drop (unat n + 4 + ?rem) (content s)"
              by (simp add: 3(3) 2(3) iv(5) ac_simps)
            moreover have "unat n + 4 + ?rem \<le> length (content s)"
              using 3(1) 2(1,3) iv(4,5) by simp
            moreover have "length (drop (?rem - AES_BLOCK) ?p) = 16" using lp True by simp
            moreover have "length key \<in> {16, 24, 32}" using fk unfolding Ok by simp
            ultimately show ?thesis using 3(4) run True by (simp add: Ok)
          next
            case (Err e)
            then show ?thesis using run True by simp
          next
            case Panic
            with fk show ?thesis by simp
          qed
        next
          fix s3
          assume "with_err Io (read_exact rd ?rem) s2 = (Err (Io eof_error), s3)"
          then show ?thesis
            using step1 2(2) True by (simp add: read_strong_header_def Let_def)
        qed
      qed (use step1 2(2) in \<open>auto simp add: read_strong_header_def Let_def\<close>)
    next
      fix s2
      assume "with_err Io (read_exact rd 4) s1 = (Err (Io eof_error), s2)"
      then show ?thesis using step1 by (simp add: read_strong_header_def)
    qed
  next
    case (Err e)
    with Pair show ?thesis by (simp add: read_strong_header_def)
  next
    case Panic
    with iv_cases show ?thesis by simp
  qed
qed

end

section \<open>The CBC reader as a stream\<close>

text \<open>The block state of the reader: the staged plaintext still to deliver.\<close>

definition staged :: "('s, 'd) strong_reader \<Rightarrow> u8 list" where
  "staged r = take (sr_block_len r - sr_block_pos r) (drop (sr_block_pos r) (sr_block r))"

definition strong_ok :: "('s, 'd) strong_reader \<Rightarrow> bool" where
  "strong_ok r \<longleftrightarrow> sr_block_pos r \<le> sr_block_len r \<and> sr_block_len r \<le> length (sr_block r) \<and>
     unat (sr_remaining r) mod 16 = 0"

lemma length_staged: "strong_ok r \<Longrightarrow> length (staged r) = sr_block_len r - sr_block_pos r"
  by (auto simp: staged_def strong_ok_def min_def)

lemma cbc_chunks_Nil [simp]: "cbc_chunks L d [] = []"
  by (subst cbc_chunks.simps) simp

lemma strong_deliver_ok:
  assumes "strong_ok r" and "n = min (length (staged r)) len"
  shows "strong_deliver len r = (Ok (take n (staged r)), r\<lparr>sr_block_pos := sr_block_pos r + n\<rparr>)"
    and "staged (r\<lparr>sr_block_pos := sr_block_pos r + n\<rparr>) = drop n (staged r)"
    and "strong_ok (r\<lparr>sr_block_pos := sr_block_pos r + n\<rparr>)"
proof -
  have n: "n = min (sr_block_len r - sr_block_pos r) len" using assms(2) length_staged [OF assms(1)] by simp
  have sl: "slice (sr_block r) (sr_block_pos r) (sr_block_pos r + n) =
      (Ok (take n (drop (sr_block_pos r) (sr_block r))) :: (u8 list, io_error) outcome)"
    using assms(1) n by (auto simp: slice_OkI strong_ok_def min_def)
  have "take n (staged r) = take n (drop (sr_block_pos r) (sr_block r))"
    using n by (simp add: staged_def)
  then show "strong_deliver len r = (Ok (take n (staged r)), r\<lparr>sr_block_pos := sr_block_pos r + n\<rparr>)"
    by (simp only: strong_deliver_def Let_def n [symmetric] sl outcome.case)
  show "staged (r\<lparr>sr_block_pos := sr_block_pos r + n\<rparr>) = drop n (staged r)"
    by (simp add: staged_def drop_take add.commute)
  show "strong_ok (r\<lparr>sr_block_pos := sr_block_pos r + n\<rparr>)"
    using assms(1) n by (auto simp: strong_ok_def)
qed

context read_stream
begin

lemma strong_stream:
  assumes L: "strong_lib_ok L"
  shows "read_stream (strong_read L rd)
    (\<lambda>r. staged r @ cbc_chunks L (sr_cipher r) (take (unat (sr_remaining r)) (content (sr_inner r))))
    (\<lambda>r. strong_ok r \<and> inv (sr_inner r) \<and> unat (sr_remaining r) \<le> length (content (sr_inner r)))"
    (is "read_stream _ ?content ?inv")
proof (unfold_locales, goal_cases)
  case (1 r n)
  then have ok: "strong_ok r" and i: "inv (sr_inner r)" and rem: "unat (sr_remaining r) \<le> length (content (sr_inner r))"
    by auto
  show ?case
  proof (cases "staged r = []")
    case False
    let ?k = "min (length (staged r)) n"
    note d = strong_deliver_ok [OF ok refl, of n]
    have "\<not> sr_block_len r \<le> sr_block_pos r" using False by (auto simp: staged_def)
    then have "strong_read L rd n r = (Ok (take ?k (staged r)), r\<lparr>sr_block_pos := sr_block_pos r + ?k\<rparr>)"
      using d(1) by (simp add: strong_read_def)
    moreover have "0 < ?k" using False 1(2) by simp
    ultimately show ?thesis
      using d(2,3) i rem
      by (intro exI [of _ ?k] exI [of _ "r\<lparr>sr_block_pos := sr_block_pos r + ?k\<rparr>"]) (simp add: min_def)
  next
    case True
    with ok have pos: "sr_block_len r \<le> sr_block_pos r" using length_staged [OF ok] by simp
    let ?rem = "unat (sr_remaining r)"
    have "?rem \<noteq> 0" using 1(3) True cbc_chunks_Nil [of L "sr_cipher r"] by (metis append_Nil take_0)
    with ok have rem16: "16 \<le> ?rem" unfolding strong_ok_def by (metis mod_less not_le)
    with rem have "16 \<le> length (content (sr_inner r))" by linarith
    from read_exact_enough [OF i this] obtain j where
      j: "read_exact rd AES_BLOCK (sr_inner r) = (Ok (take 16 (content (sr_inner r))), j)"
      "content j = drop 16 (content (sr_inner r))" "inv j" by blast
    let ?blk = "take 16 (content (sr_inner r))"
    have lblk: "length ?blk = 16" using rem16 rem by simp
    let ?cb = "cbc_block L (sr_cipher r) ?blk"
    from L lblk have lp: "length (fst ?cb) = 16" by (simp only: strong_lib_ok_def)
    have rem': "unat (saturating_sub64 (sr_remaining r) 16) = ?rem - 16"
      using rem16 by (simp add: saturating_sub64_def word_le_nat_alt unat_sub)
    define r1 where "r1 = r\<lparr>sr_inner := j, sr_cipher := snd ?cb, sr_block := fst ?cb, sr_block_pos := 0,
        sr_block_len := AES_BLOCK, sr_remaining := saturating_sub64 (sr_remaining r) (of_nat AES_BLOCK)\<rparr>"
    have ok': "strong_ok r1"
      using ok lp rem16 unfolding strong_ok_def r1_def by (simp add: rem' mod_diff_eq le_mod_geq)
    have st: "staged r1 = fst ?cb" using lp by (simp add: staged_def r1_def)
    have r1: "sr_inner r1 = j" "sr_cipher r1 = snd ?cb" "unat (sr_remaining r1) = ?rem - 16"
      by (simp_all add: r1_def rem')
    define k where "k = min (length (staged r1)) n"
    define r2 where "r2 = r1\<lparr>sr_block_pos := sr_block_pos r1 + k\<rparr>"
    note d = strong_deliver_ok [OF ok' k_def, folded r2_def]
    have r2: "sr_inner r2 = j" "sr_cipher r2 = snd ?cb" "unat (sr_remaining r2) = ?rem - 16"
      by (simp_all add: r2_def r1)
    have "strong_read L rd n r = strong_deliver n r1"
      using pos j(1) rem16 by (auto simp: strong_read_def case_prod_beta r1_def)
    with d(1) have run: "strong_read L rd n r = (Ok (take k (fst ?cb)), r2)" by (simp only: st)
    have lt: "length (take ?rem (content (sr_inner r))) = ?rem" using rem by simp
    have chunks: "cbc_chunks L (sr_cipher r) (take ?rem (content (sr_inner r))) =
        fst ?cb @ cbc_chunks L (snd ?cb) (take (?rem - 16) (content j))"
      using rem16 lt by (subst cbc_chunks.simps) (simp add: j(2) take_take drop_take min_absorb1)
    have k: "0 < k" "k \<le> n" "k \<le> length (fst ?cb)" using lp st 1(2) by (simp_all add: k_def)
    have "unat (sr_remaining r2) \<le> length (content (sr_inner r2))" using rem by (simp add: r2 j(2))
    with run d(2,3) j(3) k show ?thesis
      unfolding chunks True append_Nil
      by (intro exI [of _ k] exI [of _ r2]) (simp add: r2 st)
  qed
next
  case (2 r n)
  then have e: "staged r = []" "cbc_chunks L (sr_cipher r) (take (unat (sr_remaining r)) (content (sr_inner r))) = []"
    by auto
  have "length (take (unat (sr_remaining r)) (content (sr_inner r))) = 0"
    using e(2) length_cbc_chunks [OF L, of "sr_cipher r"] by (metis list.size(3))
  then have "sr_remaining r = 0" using 2(1) by (auto simp: unat_eq_0)
  moreover have "sr_block_len r \<le> sr_block_pos r" using e(1) 2(1) length_staged [of r] by simp
  ultimately show ?case using 2 by (simp add: strong_read_def)
qed

end

section \<open>Over the entry's window of the file\<close>

text \<open>
  Reading the decryption header never panics, and when it succeeds the stream stands exactly
  the announced header length into the entry (so subtracting that length from the compressed size
  never underflows), with a 16-byte chaining vector and a key of an AES length.
\<close>

theorem strong_header_bounds:
  assumes "strong_lib_ok L"
  shows "fst (read_strong_header L H (take_read cursor_read) password crc sz entry t) \<noteq> Panic \<and>
    (\<forall>h t'. read_strong_header L H (take_read cursor_read) password crc sz entry t = (Ok h, t') \<longrightarrow>
      unat (sh_header_len h) \<le> length (window t) \<and> window t' = drop (unat (sh_header_len h)) (window t) \<and>
      length (sh_iv h) = 16 \<and> length (sh_file_key h) \<in> {16, 24, 32})"
  using win.read_strong_header_cases [where H = H and password = password and crc = crc and sz = sz
      and entry = entry and s = t, OF TrueI assms]
  by (auto split: prod.splits outcome.splits)

theorem strong_header_bounds_witness:
  "fst (read_strong_header chain_lib bytewise_crc (take_read cursor_read) [1] 0 0 []
     (take_new (cursor_new [16, 0]) 2)) \<noteq> Panic"
  using strong_header_bounds [OF chain_lib_ok] by blast

lemma strong_new_ok:
  "StrongAesReader_new L inner key iv enc_len entry = Ok r \<Longrightarrow> unat enc_len mod 16 = 0 \<Longrightarrow>
     strong_ok r \<and> staged r = [] \<and> sr_inner r = inner \<and> sr_remaining r = enc_len \<and>
     CbcDec_new L key iv entry = Ok (sr_cipher r)"
  by (auto simp: StrongAesReader_new_def strong_ok_def staged_def)

text \<open>
  A strong-encryption reader over ciphertext of whole blocks delivers, read to the end with
  buffers of any positive sizes, exactly the block-by-block CBC decryption of that ciphertext.
\<close>

theorem strong_reader_content:
  assumes "strong_lib_ok L" and "StrongAesReader_new L t key iv enc_len entry = Ok r"
    and "unat enc_len mod 16 = 0" and "unat enc_len \<le> length (window t)" and "\<And>i. 0 < sizes i"
  shows "\<exists>dec r'. CbcDec_new L key iv entry = Ok dec \<and>
    read_to_end (strong_read L (take_read cursor_read)) sizes 0 [] r =
      Some (Ok (cbc_chunks L dec (take (unat enc_len) (window t))), r')"
proof -
  note r = strong_new_ok [OF assms(2,3)]
  then have "strong_ok r \<and> True \<and> unat (sr_remaining r) \<le> length (window (sr_inner r))"
    using assms(4) by simp
  from read_stream.read_to_end_content [OF win.strong_stream [OF assms(1)] this, of sizes 0 "[]"] assms(5)
  have "\<exists>r'. read_to_end (strong_read L (take_read cursor_read)) sizes 0 [] r =
      Some (Ok (staged r @ cbc_chunks L (sr_cipher r) (take (unat (sr_remaining r)) (window (sr_inner r)))), r')"
    by auto
  with r show ?thesis by simp
qed

theorem strong_reader_content_witness:
  "\<exists>r r'. StrongAesReader_new chain_lib (take_new (cursor_new (replicate 16 7)) 16) (replicate 16 1)
      (replicate 16 2) 16 [] = Ok r \<and>
    read_to_end (strong_read chain_lib (take_read cursor_read)) (\<lambda>_. 5) 0 [] r =
      Some (Ok (replicate 16 5), r')"
proof -
  let ?t = "take_new (cursor_new (replicate 16 7)) 16 :: cursor take_reader"
  have dec: "CbcDec_new chain_lib (replicate 16 1) (replicate 16 2) [] = Ok (replicate 16 2)"
    by (simp add: CbcDec_new_def chain_lib_def Let_def)
  then obtain r where r: "StrongAesReader_new chain_lib ?t (replicate 16 1) (replicate 16 2) 16 [] = Ok r"
    by (simp add: StrongAesReader_new_def)
  have w: "window ?t = replicate 16 7" by (simp add: take_new_def)
  have "map (\<lambda>i. xor (replicate 16 7 ! i) (if i < 16 then replicate 16 2 ! i else 0)) [0..<16] =
      (replicate 16 5 :: u8 list)" by code_simp
  then have c: "cbc_chunks chain_lib (replicate 16 2) (replicate 16 7) = replicate 16 5"
    by (subst cbc_chunks.simps) (simp add: chain_lib_def)
  from strong_reader_content [OF chain_lib_ok r, of "\<lambda>_. 5"] dec w c r show ?thesis by auto
qed

end
