(* ===== verification/Codec.thy ===== *)
theory Codec
  imports WinZipAes StrongCrypto
begin

text \<open>
  Decompression dispatch of \<open>core/src/codec.rs\<close>: the choice of decoder by method, the
  decompression-bomb caps and the LZMA wrapper. The decoders themselves (\<open>flate2\<close>,
  \<open>deflate64\<close>, \<open>bzip2_rs\<close>, \<open>ruzstd\<close>, \<open>lzma_rs\<close>) are parameters.
\<close>

section \<open>The decoders as parameters\<close>

text \<open>
  A streaming decoder owns its input reader; \<open>'x\<close> is its state. \<open>lzma_run\<close> and \<open>xz_run\<close> give
  the buffers the one-shot decoders hand to their writer and their own error, if any;
  \<open>lzma_io_text\<close> is how \<open>lzma_rs\<close> prints an error of that writer.
\<close>

record ('s, 'x) codec_lib =
  deflate_new :: "'s \<Rightarrow> 'x"
  deflate_read :: "(nat \<Rightarrow> ('s, u8 list, io_error) act) \<Rightarrow> nat \<Rightarrow> ('x, u8 list, io_error) act"
  deflate64_new :: "'s \<Rightarrow> 'x"
  deflate64_read :: "(nat \<Rightarrow> ('s, u8 list, io_error) act) \<Rightarrow> nat \<Rightarrow> ('x, u8 list, io_error) act"
  bzip2_new :: "'s \<Rightarrow> 'x"
  bzip2_read :: "(nat \<Rightarrow> ('s, u8 list, io_error) act) \<Rightarrow> nat \<Rightarrow> ('x, u8 list, io_error) act"
  zstd_new :: "(nat \<Rightarrow> ('s, u8 list, io_error) act) \<Rightarrow> 's \<Rightarrow> ('x, rstring) outcome"
  zstd_read :: "(nat \<Rightarrow> ('s, u8 list, io_error) act) \<Rightarrow> nat \<Rightarrow> ('x, u8 list, io_error) act"
  lzma_run :: "u8 list \<Rightarrow> u64 \<Rightarrow> u8 list list \<times> rstring option"
  xz_run :: "u8 list \<Rightarrow> u8 list list \<times> rstring option"
  lzma_io_text :: "rstring \<Rightarrow> rstring"

section \<open>The caps\<close>

definition MAX_BUFFERED_DECODE :: u64 where
  "MAX_BUFFERED_DECODE = 4 * 1024 * 1024 * 1024"

definition cap_text :: "u64 \<Rightarrow> rstring" where
  "cap_text cap = lit ''decompressed output exceeds the '' @ fmt_dec (unat cap) @ lit ''-byte cap''"

text \<open>\<open>None\<close> is a decoder that never ends: \<open>read_to_end\<close> on the limited view of it.\<close>

definition read_capped ::
  "(nat \<Rightarrow> ('s, u8 list, io_error) act) \<Rightarrow> (nat \<Rightarrow> nat) \<Rightarrow> 's \<Rightarrow> u64
     \<Rightarrow> (u8 list, io_error) outcome option" where
  "read_capped rd sizes r cap =
     (case read_to_end (take_read rd) sizes 0 [] (take_new r (saturating_add64 cap 1)) of
        None \<Rightarrow> None
      | Some (v, _) \<Rightarrow> Some (and_then v (\<lambda>out.
          if unat cap < length out then Err (io_other_msg (cap_text cap)) else Ok out)))"

record capped_writer =
  cw_buf :: "u8 list"
  cw_cap :: u64

definition CappedWriter_new :: "u64 \<Rightarrow> capped_writer" where
  "CappedWriter_new cap = \<lparr> cw_buf = [], cw_cap = cap \<rparr>"

definition capped_write :: "u8 list \<Rightarrow> (capped_writer, usize, io_error) act" where
  "capped_write data w =
     (if unat (cw_cap w) < length (cw_buf w) + length data
      then (Err (io_other_msg (cap_text (cw_cap w))), w)
      else (Ok (length data), w\<lparr>cw_buf := cw_buf w @ data\<rparr>))"

fun write_chunks :: "u8 list list \<Rightarrow> (capped_writer, unit, io_error) act" where
  "write_chunks [] = ret ()"
| "write_chunks (d # ds) = seq (capped_write d) (\<lambda>_. write_chunks ds)"

text \<open>A one-shot decoder writing into the sink: its writes, then its own verdict.\<close>

definition run_one_shot ::
  "(rstring \<Rightarrow> rstring) \<Rightarrow> u8 list list \<times> rstring option \<Rightarrow> u64 \<Rightarrow> (u8 list, zip_core_error) outcome" where
  "run_one_shot io_text = (\<lambda>(chunks, verdict) cap.
     case write_chunks chunks (CappedWriter_new cap) of
       (Ok _, w) \<Rightarrow> (case verdict of None \<Rightarrow> Ok (cw_buf w) | Some e \<Rightarrow> Err (Io (io_other_msg e)))
     | (Err e, _) \<Rightarrow> Err (Io (io_other_msg (io_text (display_io_error e))))
     | (Panic, _) \<Rightarrow> Panic)"

definition decode_zip_lzma ::
  "('s, 'x, 'z) codec_lib_scheme \<Rightarrow> u8 list \<Rightarrow> u64 \<Rightarrow> (u8 list, zip_core_error) outcome" where
  "decode_zip_lzma L data expected_size =
     (if length data < 4 then Err (Format Truncated)
      else and_then (u16_at data 2) (\<lambda>props_len.
        if props_len \<noteq> 5 then
          Err (Malformed (lit ''<lzma>'') (lit ''unexpected LZMA properties length '' @
            fmt_dec (unat props_len) @ lit '' (expected 5)''))
        else and_then (slice_from data 4) (\<lambda>body.
          run_one_shot (lzma_io_text L) (lzma_run L body expected_size) MAX_BUFFERED_DECODE)))"

section \<open>The decoder of an entry\<close>

datatype ('s, 'x) decoder =
    StoredDecoder 's
  | DeflateDecoder 'x
  | Deflate64Decoder 'x
  | BufferedDecoder cursor

definition buffered :: "(u8 list, zip_core_error) outcome \<Rightarrow> (('s, 'x) decoder, zip_core_error) outcome" where
  "buffered v = and_then v (\<lambda>decoded. Ok (BufferedDecoder (cursor_new decoded)))"

definition Decoder_new ::
  "('s, 'x, 'z) codec_lib_scheme \<Rightarrow> (nat \<Rightarrow> ('s, u8 list, io_error) act) \<Rightarrow> (nat \<Rightarrow> nat)
     \<Rightarrow> compression_method \<Rightarrow> u64 \<Rightarrow> 's \<Rightarrow> (('s, 'x) decoder, zip_core_error) outcome option" where
  "Decoder_new L rd sizes meth expected_size input =
     (case meth of
        Stored \<Rightarrow> Some (Ok (StoredDecoder input))
      | Deflated \<Rightarrow> Some (Ok (DeflateDecoder (deflate_new L input)))
      | Deflate64 \<Rightarrow> Some (Ok (Deflate64Decoder (deflate64_new L input)))
      | Bzip2 \<Rightarrow>
          map_option (\<lambda>v. buffered (map_err Io v))
            (read_capped (bzip2_read L rd) sizes (bzip2_new L input) MAX_BUFFERED_DECODE)
      | Zstd \<Rightarrow>
          (case zstd_new L rd input of
             Ok dec \<Rightarrow> map_option (\<lambda>v. buffered (map_err Io v))
               (read_capped (zstd_read L rd) sizes dec MAX_BUFFERED_DECODE)
           | Err e \<Rightarrow> Some (Err (Io (io_other_msg e)))
           | Panic \<Rightarrow> Some Panic)
      | Lzma \<Rightarrow>
          map_option (\<lambda>(v, _). buffered (and_then (map_err Io v) (\<lambda>raw. decode_zip_lzma L raw expected_size)))
            (read_to_end rd sizes 0 [] input)
      | Xz \<Rightarrow>
          map_option (\<lambda>(v, _). buffered (and_then (map_err Io v) (\<lambda>raw.
              run_one_shot (lzma_io_text L) (xz_run L raw) MAX_BUFFERED_DECODE)))
            (read_to_end rd sizes 0 [] input)
      | _ \<Rightarrow> Some (Err (UnsupportedMethod meth)))"

definition lift_read ::
  "('a \<Rightarrow> 'b) \<Rightarrow> (u8 list, io_error) outcome \<times> 'a \<Rightarrow> (u8 list, io_error) outcome \<times> 'b" where
  "lift_read f = (\<lambda>(v, s). (v, f s))"

definition decoder_read ::
  "('s, 'x, 'z) codec_lib_scheme \<Rightarrow> (nat \<Rightarrow> ('s, u8 list, io_error) act) \<Rightarrow> nat
     \<Rightarrow> (('s, 'x) decoder, u8 list, io_error) act" where
  "decoder_read L rd n d =
     (case d of
        StoredDecoder r \<Rightarrow> lift_read StoredDecoder (rd n r)
      | DeflateDecoder r \<Rightarrow> lift_read DeflateDecoder (deflate_read L rd n r)
      | Deflate64Decoder r \<Rightarrow> lift_read Deflate64Decoder (deflate64_read L rd n r)
      | BufferedDecoder c \<Rightarrow> lift_read BufferedDecoder (cursor_read n c))"

section \<open>The caps hold\<close>

lemma write_chunks_cases:
  "length (cw_buf w) \<le> unat (cw_cap w) \<Longrightarrow> write_chunks ds w =
     (if length (cw_buf w) + length (concat ds) \<le> unat (cw_cap w)
      then (Ok (), w\<lparr>cw_buf := cw_buf w @ concat ds\<rparr>)
      else (Err (io_other_msg (cap_text (cw_cap w))), snd (write_chunks ds w)))"
proof (induction ds arbitrary: w)
  case (Cons d ds)
  show ?case
  proof (cases "unat (cw_cap w) < length (cw_buf w) + length d")
    case True
    then show ?thesis by (simp add: capped_write_def)
  next
    case False
    let ?w = "w\<lparr>cw_buf := cw_buf w @ d\<rparr>"
    have "capped_write d w = (Ok (length d), ?w)" using False by (simp add: capped_write_def)
    then have step: "write_chunks (d # ds) w = write_chunks ds ?w" by simp
    show ?thesis
      unfolding step using Cons.IH [of ?w] False
      by (cases "length (cw_buf w) + length d + length (concat ds) \<le> unat (cw_cap w)") (auto simp: add.assoc)
  qed
qed simp

lemma run_one_shot_Ok:
  assumes "run_one_shot t (chunks, verdict) cap = Ok out"
  shows "out = concat chunks \<and> length out \<le> unat cap \<and> verdict = None"
proof (cases "length (concat chunks) \<le> unat cap")
  case True
  then have "write_chunks chunks (CappedWriter_new cap) = (Ok (), \<lparr> cw_buf = concat chunks, cw_cap = cap \<rparr>)"
    using write_chunks_cases [of "CappedWriter_new cap" chunks] by (simp add: CappedWriter_new_def)
  with assms True show ?thesis by (simp add: run_one_shot_def split: option.splits)
next
  case False
  then obtain w where "write_chunks chunks (CappedWriter_new cap) = (Err (io_other_msg (cap_text cap)), w)"
    using write_chunks_cases [of "CappedWriter_new cap" chunks] by (simp add: CappedWriter_new_def)
  with assms show ?thesis by (simp add: run_one_shot_def)
qed

context read_stream
begin

text \<open>Below the cap the whole content is read; above it the read fails.\<close>

lemma read_capped_content:
  assumes "inv s" and "\<And>i. 0 < sizes i" and "unat cap + 1 < 2 ^ 64"
  shows "read_capped rd sizes s cap =
    Some (if length (content s) \<le> unat cap then Ok (content s) else Err (io_other_msg (cap_text cap)))"
proof -
  let ?t = "take_new s (saturating_add64 cap 1)"
  have lim: "unat (saturating_add64 cap 1) = unat cap + 1"
    using assms(3) by (simp add: unat_saturating_add64)
  from assms(1) have "inv (tk_inner ?t)" by (simp add: take_new_def)
  from read_stream.read_to_end_content [OF take_stream this, where sizes = sizes and i = 0 and acc = "[]", OF assms(2)]
  obtain t' where "read_to_end (take_read rd) sizes 0 [] ?t = Some (Ok (take (unat cap + 1) (content s)), t')"
    by (auto simp: take_new_def lim)
  then show ?thesis by (auto simp: read_capped_def)
qed

end

lemma and_then_eq_Err: "and_then v f = Err e \<longleftrightarrow> v = Err e \<or> (\<exists>a. v = Ok a \<and> f a = Err e)"
  by (cases v) auto

lemma read_capped_Ok: "read_capped rd sizes s cap = Some (Ok out) \<Longrightarrow> length out \<le> unat cap"
  by (auto simp: read_capped_def split: option.splits if_splits)

lemma decode_zip_lzma_Ok:
  "decode_zip_lzma L data n = Ok out \<Longrightarrow> length out \<le> unat MAX_BUFFERED_DECODE"
  by (cases "lzma_run L (drop 4 data) n")
    (auto simp: decode_zip_lzma_def slice_from_def dest!: run_one_shot_Ok split: if_splits)

lemma buffered_decoder_small:
  assumes "Decoder_new L rd sizes meth n input = Some (Ok (BufferedDecoder c))"
  shows "length (cu_data c) \<le> unat MAX_BUFFERED_DECODE \<and> cu_pos c = 0"
proof -
  have one: "buffered v = Ok (BufferedDecoder c) \<longleftrightarrow> (\<exists>out. v = Ok out \<and> c = cursor_new out)" for v
    by (auto simp: buffered_def)
  have run: "run_one_shot t r cap = Ok out \<Longrightarrow> length out \<le> unat cap" for t r cap out
    by (cases r) (auto dest: run_one_shot_Ok)
  show ?thesis
    using assms
    by (cases meth)
      (auto simp: Decoder_new_def one cursor_new_def dest!: read_capped_Ok decode_zip_lzma_Ok run
        split: outcome.splits)
qed

text \<open>
  C35: Whatever the decoder crates do, a one-shot decoded entry never holds more than the 4 GiB cap,
  and is served from its first byte.
\<close>

theorem buffered_decode_capped:
  assumes "Decoder_new L rd sizes meth n input = Some (Ok (BufferedDecoder c))"
  shows "length (cu_data c) \<le> unat MAX_BUFFERED_DECODE \<and> cu_pos c = 0"
  using assms by (rule buffered_decoder_small)

text \<open>A library whose streaming decoders pass the bytes through.\<close>

definition raw_lib :: "('s, 's) codec_lib" where
  "raw_lib = \<lparr> deflate_new = (\<lambda>s. s), deflate_read = (\<lambda>rd. rd), deflate64_new = (\<lambda>s. s),
     deflate64_read = (\<lambda>rd. rd), bzip2_new = (\<lambda>s. s), bzip2_read = (\<lambda>rd. rd),
     zstd_new = (\<lambda>rd. Ok), zstd_read = (\<lambda>rd. rd), lzma_run = (\<lambda>d n. ([d], None)),
     xz_run = (\<lambda>d. ([d], None)), lzma_io_text = (\<lambda>t. t) \<rparr>"

lemma unat_MAX_BUFFERED_DECODE: "unat MAX_BUFFERED_DECODE = 4294967296"
  by (simp add: MAX_BUFFERED_DECODE_def)

theorem buffered_decode_capped_witness:
  "\<exists>c. Decoder_new raw_lib (take_read cursor_read) (\<lambda>_. 1) Bzip2 0 (take_new (cursor_new [7, 8]) 2) =
      Some (Ok (BufferedDecoder c)) \<and> cu_data c = [7, 8] \<and> length (cu_data c) \<le> 4294967296"
proof -
  let ?s = "take_new (cursor_new [7, 8]) 2 :: cursor take_reader"
  have "window ?s = [7, 8]" by (simp add: take_new_def)
  then have "read_capped (take_read cursor_read) (\<lambda>_. 1) ?s MAX_BUFFERED_DECODE = Some (Ok [7, 8])"
    using win.read_capped_content [of "\<lambda>_. 1" MAX_BUFFERED_DECODE ?s]
    by (simp add: unat_MAX_BUFFERED_DECODE)
  then have "Decoder_new raw_lib (take_read cursor_read) (\<lambda>_. 1) Bzip2 0 ?s =
      Some (Ok (BufferedDecoder (cursor_new [7, 8])))"
    by (simp add: Decoder_new_def raw_lib_def buffered_def)
  with buffered_decode_capped [OF this] show ?thesis by (simp add: unat_MAX_BUFFERED_DECODE)
qed

text \<open>
  A method is refused as unsupported exactly when it is none of the seven that are decoded, and
  the error names it.
\<close>

theorem decoder_unsupported_iff:
  "Decoder_new L rd sizes meth n input = Some (Err (UnsupportedMethod m)) \<longleftrightarrow>
     meth \<notin> {Stored, Deflated, Deflate64, Bzip2, Lzma, Zstd, Xz} \<and> m = meth"
proof -
  have b: "buffered v = Err (UnsupportedMethod m) \<longleftrightarrow> v = Err (UnsupportedMethod m)" for v
    by (cases v) (auto simp: buffered_def)
  have io: "map_err Io v \<noteq> Err (UnsupportedMethod m)" for v :: "(u8 list, io_error) outcome"
    by (cases v) auto
  have run: "run_one_shot t r cap \<noteq> Err (UnsupportedMethod m)" for t r cap
    by (auto simp: run_one_shot_def split: prod.splits outcome.splits option.splits)
  have sl: "slice_from d k \<noteq> Err (UnsupportedMethod m)" "u16_at d k \<noteq> Err (UnsupportedMethod m)" for d k
    by (simp_all add: slice_from_def slice_def u16_at_def slice_get_def)
  have lz: "decode_zip_lzma L raw n \<noteq> Err (UnsupportedMethod m)" for raw
    by (simp add: decode_zip_lzma_def and_then_eq_Err run sl)
  show ?thesis
    by (cases meth)
      (auto simp: Decoder_new_def b io run lz and_then_eq_Err split: outcome.splits)
qed

end
