(* ===== verification/Roundtrip.thy ===== *)
theory Roundtrip
  imports Container
begin

text \<open>
  The container parser as the inverse of the format: an archive laid out as prefix, local
  entries, central directory, EOCD record and comment parses to the entries of its headers,
  shifted by the prefix.
\<close>

section \<open>The format of a whole archive\<close>

definition encode_eocd :: "u16 \<Rightarrow> u32 \<Rightarrow> u32 \<Rightarrow> u8 list \<Rightarrow> u8 list" where
  "encode_eocd cnt sz off comment =
     le32 EOCD_SIG @ le16 0 @ le16 0 @ le16 cnt @ le16 cnt @ le32 sz @ le32 off @
     le16 (of_nat (length comment)) @ comment"

text \<open>No byte of the record after its own signature starts another EOCD signature.\<close>

definition comment_ok :: "u16 \<Rightarrow> u32 \<Rightarrow> u32 \<Rightarrow> u8 list \<Rightarrow> bool" where
  "comment_ok cnt sz off comment \<longleftrightarrow> length comment < 65536 \<and>
     list_all (\<lambda>j. \<not> eocd_sig_at (encode_eocd cnt sz off comment) j) [1..<Suc (length comment)]"

definition directory :: "cd_header list \<Rightarrow> u8 list" where
  "directory hs = concat (map encode_header hs)"

definition archive_eocd :: "u8 list \<Rightarrow> cd_header list \<Rightarrow> u8 list \<Rightarrow> u8 list" where
  "archive_eocd body hs comment =
     encode_eocd (of_nat (length hs)) (of_nat (length (directory hs))) (of_nat (length body)) comment"

definition encode_archive :: "u8 list \<Rightarrow> u8 list \<Rightarrow> cd_header list \<Rightarrow> u8 list \<Rightarrow> u8 list" where
  "encode_archive pre body hs comment =
     (pre @ body) @ directory hs @ archive_eocd body hs comment"

text \<open>
  What the writer respects: the headers fit their length fields, nothing needs Zip64, the
  comment hides no second record, and, where data precedes the archive, the unshifted
  directory offset does not happen to point at a header signature.
\<close>

definition archive_ok :: "u8 list \<Rightarrow> u8 list \<Rightarrow> cd_header list \<Rightarrow> u8 list \<Rightarrow> bool" where
  "archive_ok pre body hs comment \<longleftrightarrow>
     list_all header_ok hs \<and> length hs < 65535 \<and>
     length (directory hs) < 4294967295 \<and> length body < 4294967295 \<and> length pre < 2 ^ 62 \<and>
     comment_ok (of_nat (length hs)) (of_nat (length (directory hs))) (of_nat (length body)) comment \<and>
     (pre = [] \<or> (hs \<noteq> [] \<and>
        take 4 (drop (length body) (encode_archive pre body hs comment)) \<noteq> le32 CD_HEADER_SIG))"

lemma length_encode_eocd [simp]: "length (encode_eocd n s o' comment) = 22 + length comment"
  by (simp add: encode_eocd_def)

lemma length_archive_eocd: "length (archive_eocd body hs comment) = 22 + length comment"
  by (simp add: archive_eocd_def)

lemma le32_inj [simp]: "le32 a = le32 b \<longleftrightarrow> a = b"
proof
  assume "le32 a = le32 b"
  then have "(from_le_bytes (le32 a) :: u32) = from_le_bytes (le32 b)" by simp
  then show "a = b" by (simp del: to_le_bytes.simps)
qed simp

lemma le32_of: "length bs = 4 \<Longrightarrow> from_le_bytes bs = (w :: u32) \<longleftrightarrow> bs = le32 w"
  using to_le_bytes_from_le_bytes [of bs, where 'a = 32] by (auto simp del: to_le_bytes.simps)

section \<open>The record\<close>

lemma find_eocd_encoded:
  assumes "comment_ok n sz off comment"
  shows "find_eocd (front @ encode_eocd n sz off comment) = Some (length front)"
proof -
  have here: "eocd_sig_at (front @ encode_eocd n sz off comment) (length front)"
    by (simp add: eocd_sig_at_def encode_eocd_def)
  have later: "\<not> eocd_sig_at (front @ encode_eocd n sz off comment) j"
    if "length front < j" "j + EOCD_MIN \<le> length (front @ encode_eocd n sz off comment)" for j
  proof -
    from that have "j - length front \<in> set [1..<Suc (length comment)]" by auto
    with assms have "\<not> eocd_sig_at (encode_eocd n sz off comment) (j - length front)"
      unfolding comment_ok_def list_all_iff by blast
    with that show ?thesis by (simp add: eocd_sig_at_def)
  qed
  show ?thesis unfolding find_eocd_Some using here later by simp
qed

lemma parse_eocd_encoded:
  assumes "length comment < 65536"
  shows "parse_eocd (encode_eocd n sz off comment) = Ok
    \<lparr> eo_disk_number = 0, eo_cd_start_disk = 0, eo_total_entries = n, eo_cd_size = sz,
      eo_cd_offset = off, eo_comment_len = of_nat (length comment) \<rparr>"
proof -
  have "parses (seq Reader_u16 (\<lambda>disk_number.
         seq Reader_u16 (\<lambda>cd_start_disk.
         seq Reader_u16 (\<lambda>entries_this_disk.
         seq Reader_u16 (\<lambda>total_entries.
         seq Reader_u32 (\<lambda>cd_size.
         seq Reader_u32 (\<lambda>cd_offset.
         seq Reader_u16 (\<lambda>comment_len.
         ret \<lparr> eo_disk_number = disk_number, eo_cd_start_disk = cd_start_disk,
               eo_total_entries = total_entries, eo_cd_size = cd_size,
               eo_cd_offset = cd_offset, eo_comment_len = comment_len \<rparr>)))))))
     :: (reader, eocd32, format_error) act)
    (le16 0 @ le16 0 @ le16 n @ le16 n @ le32 sz @ le32 off @ le16 (of_nat (length comment)) @ [])
    \<lparr> eo_disk_number = 0, eo_cd_start_disk = 0, eo_total_entries = n, eo_cd_size = sz,
      eo_cd_offset = off, eo_comment_len = of_nat (length comment) \<rparr>"
    by (rule consumes_seq, rule parses_u16 parses_u32)+ (rule consumes_ret)
  note inner = consumes_with_err [OF this, of Format]
  have "parses parse_eocd_act (le32 EOCD_SIG @
      (le16 0 @ le16 0 @ le16 n @ le16 n @ le32 sz @ le32 off @ le16 (of_nat (length comment)) @ []))
    \<lparr> eo_disk_number = 0, eo_cd_start_disk = 0, eo_total_entries = n, eo_cd_size = sz,
      eo_cd_offset = off, eo_comment_len = of_nat (length comment) \<rparr>"
    unfolding parse_eocd_act_def
    by (rule consumes_seq [OF consumes_with_err [OF parses_u32]])
      (simp only: simp_thms if_False inner)
  from parses_run [OF this, of comment] assms show ?thesis
    by (simp add: parse_eocd_def encode_eocd_def)
qed

section \<open>Locating the directory of an encoded archive\<close>

lemma length_directory_pos: "hs \<noteq> [] \<Longrightarrow> 46 \<le> length (directory hs)"
  by (cases hs) (simp_all add: directory_def length_encode_header)

lemma directory_starts: "hs \<noteq> [] \<Longrightarrow> take 4 (directory hs @ t) = le32 CD_HEADER_SIG"
  by (cases hs) (simp_all add: directory_def encode_header_def)

lemma cd_header_at_value:
  "fst (cd_header_at off c) = Ok (take 4 (drop (unat off) (cu_data c)) = le32 CD_HEADER_SIG)"
proof -
  let ?b = "take 4 (drop (unat off) (cu_data c))"
  have "(4 \<le> length (drop (unat off) (cu_data c)) \<and> from_le_bytes ?b = CD_HEADER_SIG) \<longleftrightarrow>
      ?b = le32 CD_HEADER_SIG"
  proof (cases "4 \<le> length (drop (unat off) (cu_data c))")
    case True
    then have "length ?b = 4" by (simp only: length_take min_absorb2)
    from le32_of [OF this, of CD_HEADER_SIG] True show ?thesis by simp
  next
    case False
    then have "length ?b \<noteq> length (le32 CD_HEADER_SIG)" by simp
    then have "?b \<noteq> le32 CD_HEADER_SIG" by (rule contrapos_nn) simp
    with False show ?thesis by blast
  qed
  then show ?thesis by (simp add: cd_header_at_eq Let_def)
qed

lemma cd_header_at_data: "cu_data (snd (cd_header_at off c)) = cu_data c"
  using keeps_data_cd_header_at by (simp add: keeps_data_def)

text \<open>The prefix found is the length of the prepended data.\<close>

lemma detect_prefix_encoded:
  assumes "archive_ok pre body hs comment" and "cu_data c = encode_archive pre body hs comment"
  shows "\<exists>c'. detect_prefix False (of_nat (length (pre @ body @ directory hs)))
      (of_nat (length body)) (of_nat (length (directory hs))) c = (Ok (of_nat (length pre)), c')"
proof -
  let ?p = "of_nat (length (pre @ body @ directory hs)) :: u64"
  let ?o = "of_nat (length body) :: u64" and ?s = "of_nat (length (directory hs)) :: u64"
  let ?n = "of_nat (length pre) :: u64"
  have small: "length pre < 4611686018427387904" "length body < 4294967295" "length (directory hs) < 4294967295"
    using assms(1) by (simp_all add: archive_ok_def)
  then have u: "unat ?o = length body" "unat ?s = length (directory hs)" "unat ?n = length pre"
    "unat ?p = length pre + length body + length (directory hs)"
    by (simp_all only: length_append unat_of_nat64)
  have sum: "saturating_add64 ?o ?s = ?o + ?s" and usum: "unat (?o + ?s) = length body + length (directory hs)"
    using small u unat_add64 [of ?o ?s] by (simp_all add: saturating_add64_def)
  have sub: "checked_sub64 ?p (saturating_add64 ?o ?s) = Some ?n"
    unfolding sum using u usum by (simp add: checked_sub64_def word_le_nat_alt)
  show ?thesis
  proof (cases "pre = []")
    case True
    then show ?thesis unfolding detect_prefix_def sub by simp
  next
    case False
    then have hs: "hs \<noteq> []" and
      here: "take 4 (drop (length body) (cu_data c)) \<noteq> le32 CD_HEADER_SIG"
      using assms by (auto simp: archive_ok_def)
    have n0: "?n \<noteq> 0" using False u(3) by (metis length_0_conv unat_0)
    obtain c1 where 1: "cd_header_at ?o c = (Ok False, c1)"
      using cd_header_at_value [of ?o c] here u(1) by (cases "cd_header_at ?o c") simp
    then have c1: "cu_data c1 = encode_archive pre body hs comment"
      using cd_header_at_data [of ?o c] assms(2) by simp
    have ush: "unat (?o + ?n) = length body + length pre" and sh: "add64 ?o ?n = (Ok (?o + ?n) :: (u64, zip_core_error) outcome)"
      using small u unat_add64 [of ?o ?n] by (simp_all add: add64_OkI)
    have "drop (unat (?o + ?n)) (cu_data c1) = directory hs @ archive_eocd body hs comment"
      unfolding ush c1 encode_archive_def by simp
    with directory_starts [OF hs] cd_header_at_value [of "?o + ?n" c1]
    obtain c2 where 2: "cd_header_at (?o + ?n) c1 = (Ok True, c2)"
      by (cases "cd_header_at (?o + ?n) c1") simp
    show ?thesis
      unfolding detect_prefix_def sub
      using n0 1 2 sh by simp
  qed
qed

lemma of_nat32_not_sentinel: "n < 4294967295 \<Longrightarrow> (of_nat n :: u32) \<noteq> U32_SENTINEL"
  by (simp add: word_unat_eq_iff unat_of_nat_small)

lemma of_nat16_not_sentinel: "n < 65535 \<Longrightarrow> (of_nat n :: u16) \<noteq> U16_SENTINEL"
  by (simp add: word_unat_eq_iff unat_of_nat_small)

definition location_of :: "u8 list \<Rightarrow> u8 list \<Rightarrow> cd_header list \<Rightarrow> u8 list \<Rightarrow> cd_location" where
  "location_of pre body hs comment =
     \<lparr> lo_cd_size = of_nat (length (directory hs)), lo_total_entries = length hs,
       lo_disk_number = 0, lo_cd_start_disk = 0, lo_prefix = of_nat (length pre),
       lo_actual_cd_offset = of_nat (length body + length pre),
       lo_eocd_end_offset = of_nat (length (encode_archive pre body hs comment)),
       lo_comment_len = of_nat (length comment) \<rparr>"

text \<open>The steps of a successful search without Zip64.\<close>

lemma locate_steps:
  assumes "min (unat flen) EOCD_SCAN_MAX = n" and "EOCD_MIN \<le> n"
    and "sub64 flen (of_nat n) = (Ok st :: (u64, zip_core_error) outcome)"
    and "cursor_read_exact n (c\<lparr>cu_pos := unat st\<rparr>) = (Ok tail, c1)"
    and "find_eocd tail = Some rel" and "rel \<le> length tail" and "parse_eocd (drop rel tail) = Ok eo"
    and "add64 st (of_nat rel) = (Ok p :: (u64, zip_core_error) outcome)"
    and "add64 p (of_nat EOCD_MIN) = (Ok q :: (u64, zip_core_error) outcome)"
    and "add64 q (ucast (eo_comment_len eo)) = (Ok e :: (u64, zip_core_error) outcome)"
    and "\<not> is_zip64_eocd eo"
    and "detect_prefix False p (ucast (eo_cd_offset eo)) (ucast (eo_cd_size eo)) c1 = (Ok pr, c2)"
    and "add64 (ucast (eo_cd_offset eo)) pr = (Ok actual :: (u64, zip_core_error) outcome)"
    and "checked_add64 actual (ucast (eo_cd_size eo)) = Some cd_end" and "\<not> flen < cd_end"
    and "\<not> MAX_ENTRIES < unat (eo_total_entries eo)"
  shows "locate_central_directory flen c =
    (Ok \<lparr> lo_cd_size = ucast (eo_cd_size eo), lo_total_entries = unat (eo_total_entries eo),
       lo_disk_number = ucast (eo_disk_number eo), lo_cd_start_disk = ucast (eo_cd_start_disk eo),
       lo_prefix = pr, lo_actual_cd_offset = actual, lo_eocd_end_offset = e,
       lo_comment_len = eo_comment_len eo \<rparr>, c2)"
proof -
  have tail: "slice_from tail rel = (Ok (drop rel tail) :: (u8 list, zip_core_error) outcome)"
    using assms(6) by (rule slice_from_OkI)
  have n: "\<not> n < EOCD_MIN" using assms(2) by simp
  have seek: "with_err Io (seek_start st) c = (Ok (), c\<lparr>cu_pos := unat st\<rparr>)" by (simp add: seek_start_def)
  show ?thesis
    unfolding locate_central_directory_def Let_def assms(1) if_not_P [OF n]
    by (simp only: assms tail seek seq_Ok with_err_Ok lift_outcome_apply ok_or_simps
        prod.case if_False option.case ret_apply)
qed

text \<open>The scanned window of a file that ends in a record: it holds the whole record.\<close>

lemma scan_window:
  fixes c :: cursor
  assumes "cu_data c = A @ e" and "length e = 22 + k" and "k < 65536" and "length (A @ e) < 2 ^ 63"
  defines "n \<equiv> min (length (A @ e)) EOCD_SCAN_MAX" and "flen \<equiv> of_nat (length (A @ e)) :: u64"
  defines "st \<equiv> length (A @ e) - n"
  shows "EOCD_MIN \<le> n" and "min (unat flen) EOCD_SCAN_MAX = n" and "st + length (drop st A) = length A"
    and "sub64 flen (of_nat n) = (Ok (of_nat st) :: (u64, zip_core_error) outcome)"
    and "cursor_read_exact n (c\<lparr>cu_pos := unat (of_nat st :: u64)\<rparr>) = (Ok (drop st A @ e), c\<lparr>cu_pos := st + n\<rparr>)"
proof -
  have n: "22 + k \<le> n" "n \<le> length (A @ e)" using assms(2,3) by (simp_all add: n_def)
  then show "EOCD_MIN \<le> n" by simp
  have st: "st \<le> length A" "st + n = length (A @ e)" "st < 2 ^ 63"
    using n assms(2,4) by (simp_all add: st_def)
  then show "st + length (drop st A) = length A" by simp
  have flen: "unat flen = length (A @ e)" and un: "unat (of_nat n :: u64) = n" "unat (of_nat st :: u64) = st"
    unfolding flen_def by (intro unat_of_nat64; use assms(4) n(2) st(3) in simp)+
  show "min (unat flen) EOCD_SCAN_MAX = n" unfolding flen n_def ..
  have le: "of_nat n \<le> flen" using n(2) un(1) flen by (simp add: word_le_nat_alt)
  then have "flen - of_nat n = of_nat st"
    using st flen un by (simp add: word_unat_eq_iff unat_sub st_def)
  with le show "sub64 flen (of_nat n) = (Ok (of_nat st) :: (u64, zip_core_error) outcome)" by (simp add: sub64_def)
  have "take n (drop st (A @ e)) = drop st (A @ e)" using st(2) by simp
  then have "take n (drop st (A @ e)) = drop st A @ e" using st(1) by simp
  moreover have "cursor_read_exact n (c\<lparr>cu_pos := st\<rparr>) = (Ok (take n (drop st (A @ e))), c\<lparr>cu_pos := st + n\<rparr>)"
    using cursor_read_exact_at [of st n c] unfolding assms(1) st(2) by blast
  ultimately show "cursor_read_exact n (c\<lparr>cu_pos := unat (of_nat st :: u64)\<rparr>) = (Ok (drop st A @ e), c\<lparr>cu_pos := st + n\<rparr>)"
    unfolding un(2) by simp
qed

text \<open>The record of a written archive, and the directory it points to.\<close>

definition written_eocd :: "u8 list \<Rightarrow> cd_header list \<Rightarrow> u8 list \<Rightarrow> eocd32" where
  "written_eocd body hs comment = \<lparr> eo_disk_number = 0, eo_cd_start_disk = 0, eo_total_entries = of_nat (length hs),
     eo_cd_size = of_nat (length (directory hs)), eo_cd_offset = of_nat (length body),
     eo_comment_len = of_nat (length comment) \<rparr>"

lemma written_eocd_fields:
  assumes "archive_ok pre body hs comment"
  shows "parse_eocd (archive_eocd body hs comment) = Ok (written_eocd body hs comment)"
    and "\<not> is_zip64_eocd (written_eocd body hs comment)"
    and "ucast (eo_cd_offset (written_eocd body hs comment)) = (of_nat (length body) :: u64)"
    and "ucast (eo_cd_size (written_eocd body hs comment)) = (of_nat (length (directory hs)) :: u64)"
    and "ucast (eo_comment_len (written_eocd body hs comment)) = (of_nat (length comment) :: u64)"
    and "unat (eo_total_entries (written_eocd body hs comment)) = length hs"
proof -
  have small: "length body < 4294967295" "length (directory hs) < 4294967295" "length hs < 65535" "length comment < 65536"
    using assms by (simp_all add: archive_ok_def comment_ok_def)
  show "parse_eocd (archive_eocd body hs comment) = Ok (written_eocd body hs comment)"
    unfolding archive_eocd_def written_eocd_def by (rule parse_eocd_encoded) (rule small)
  show "\<not> is_zip64_eocd (written_eocd body hs comment)"
    using small by (simp add: is_zip64_eocd_def written_eocd_def of_nat32_not_sentinel of_nat16_not_sentinel)
  show "ucast (eo_cd_offset (written_eocd body hs comment)) = (of_nat (length body) :: u64)"
    "ucast (eo_cd_size (written_eocd body hs comment)) = (of_nat (length (directory hs)) :: u64)"
    "ucast (eo_comment_len (written_eocd body hs comment)) = (of_nat (length comment) :: u64)"
    "unat (eo_total_entries (written_eocd body hs comment)) = length hs"
    using small unfolding written_eocd_def
    by (simp_all only: eocd32.select_convs) (simp_all add: ucast_of_nat32 ucast_of_nat16 unat_of_nat_small)
qed

lemma locate_encoded:
  assumes "archive_ok pre body hs comment" and "cu_data c = encode_archive pre body hs comment"
  shows "\<exists>c'. locate_central_directory (of_nat (length (cu_data c))) c =
    (Ok (location_of pre body hs comment), c')"
proof -
  let ?A = "pre @ body @ directory hs" and ?e = "archive_eocd body hs comment"
  let ?F = "?A @ ?e" and ?eo = "written_eocd body hs comment"
  have F: "encode_archive pre body hs comment = ?F" by (simp add: encode_archive_def)
  have small: "length pre < 4611686018427387904" "length body < 4294967295"
    "length (directory hs) < 4294967295" "length hs < 65535" "length comment < 65536"
    using assms(1) by (simp_all add: archive_ok_def comment_ok_def)
  have le: "length ?e = 22 + length comment" by (simp add: length_archive_eocd)
  have lF: "length ?F = length ?A + 22 + length comment" using le by simp
  have lA: "length ?A = length pre + length body + length (directory hs)" by simp
  have bound: "length ?F < 2 ^ 63" using lF lA small by simp
  note scan = scan_window [OF assms(2) [unfolded F] le small(5) bound]
  let ?n = "min (length ?F) EOCD_SCAN_MAX"
  let ?st = "length ?F - ?n"
  let ?front = "drop ?st ?A"
  have find: "find_eocd (?front @ ?e) = Some (length ?front)"
    using assms(1) unfolding archive_eocd_def archive_ok_def by (intro find_eocd_encoded) simp
  note fields = written_eocd_fields [OF assms(1)]
  have pos: "add64 (of_nat ?st) (of_nat (length ?front)) = (Ok (of_nat (length ?A)) :: (u64, zip_core_error) outcome)"
    and past: "add64 (of_nat (length ?A)) (of_nat EOCD_MIN) = (Ok (of_nat (length ?A + 22)) :: (u64, zip_core_error) outcome)"
    and the_end: "add64 (of_nat (length ?A + 22)) (of_nat (length comment)) = (Ok (of_nat (length ?F)) :: (u64, zip_core_error) outcome)"
    and act: "add64 (of_nat (length body)) (of_nat (length pre)) =
      (Ok (of_nat (length body + length pre)) :: (u64, zip_core_error) outcome)"
    by (rule add64_of_nat; use scan(3) lF lA small in linarith)+
  have ce: "checked_add64 (of_nat (length body + length pre)) (of_nat (length (directory hs))) = Some (of_nat (length ?A) :: u64)"
    using checked_add64_of_nat [of "length body + length pre" "length (directory hs)"] small lA by (simp add: ac_simps)
  have rng: "\<not> of_nat (length ?F) < (of_nat (length ?A) :: u64)"
    using unat_of_nat64 [of "length ?F"] unat_of_nat64 [of "length ?A"] bound lF by (simp only: word_less_nat_alt) simp
  from detect_prefix_encoded [OF assms(1), of "c\<lparr>cu_pos := ?st + ?n\<rparr>"] assms(2) obtain c' where
    det: "detect_prefix False (of_nat (length ?A)) (of_nat (length body)) (of_nat (length (directory hs)))
      (c\<lparr>cu_pos := ?st + ?n\<rparr>) = (Ok (of_nat (length pre)), c')" by auto
  have rel: "length ?front \<le> length (?front @ ?e)" "drop (length ?front) (?front @ ?e) = ?e"
    by (simp_all only: length_append le_add1 append_eq_conv_conj [THEN iffD1, THEN conjunct2, OF refl, symmetric])
  have cap: "\<not> MAX_ENTRIES < unat (eo_total_entries ?eo)" using fields(6) small(4) by simp
  have "locate_central_directory (of_nat (length ?F)) c = (Ok (location_of pre body hs comment), c')"
    using locate_steps [of "of_nat (length ?F)" ?n "of_nat ?st" c "?front @ ?e" _ "length ?front" ?eo, unfolded fields(3-5) rel(2),
      OF scan(2,1,4,5) find rel(1) fields(1) pos past the_end fields(2) det act ce rng cap]
    by (simp only: location_of_def F fields(6)) (simp add: written_eocd_def)
  then show ?thesis unfolding assms(2) F by blast
qed

section \<open>The round trip\<close>

definition summary_of :: "u8 list \<Rightarrow> u8 list \<Rightarrow> cd_header list \<Rightarrow> u8 list \<Rightarrow> archive_summary" where
  "summary_of pre body hs comment =
     \<lparr> file_len = of_nat (length (encode_archive pre body hs comment)),
       central_dir_offset = of_nat (length body + length pre),
       central_dir_size = of_nat (length (directory hs)),
       eocd_end_offset = of_nat (length (encode_archive pre body hs comment)),
       comment_len = of_nat (length comment), disk_number = 0, cd_start_disk = 0,
       archive_signature_len = None \<rparr>"

lemma archive_signature_none:
  assumes "6 \<le> length (ahead c)" and "take 4 (ahead c) = le32 EOCD_SIG"
  shows "\<exists>c'. archive_signature cd (length cd) c = (Ok None, c')"
proof -
  have "take 4 (take 6 (ahead c)) \<noteq> le32 ARCHIVE_SIG_SIG"
    using assms(2) by (simp add: take_take del: to_le_bytes.simps)
  with assms(1) show ?thesis
    by (simp add: archive_signature_def slice_from_OkI cursor_read_exact_def)
qed

lemma read_encoded:
  assumes "archive_ok pre body hs comment" and "cu_data c = encode_archive pre body hs comment"
    and "entries_of hs = Ok es"
  shows "\<exists>c'. read_central_directory flen (location_of pre body hs comment) c =
    (and_then (shift_entries (of_nat (length pre)) es)
       (\<lambda>es'. Ok (es', (summary_of pre body hs comment)\<lparr>file_len := flen\<rparr>)), c')"
proof -
  let ?e = "archive_eocd body hs comment"
  have small: "length pre < 4611686018427387904" "length body < 4294967295"
    "length (directory hs) < 4294967295" and ok: "list_all header_ok hs"
    using assms(1) by (simp_all add: archive_ok_def)
  let ?off = "of_nat (length body + length pre) :: u64" and ?sz = "of_nat (length (directory hs)) :: u64"
  have u: "unat ?off = length pre + length body" "unat ?sz = length (directory hs)"
    using small by (simp_all only: unat_of_nat64)
  have F: "drop (length pre + length body) (cu_data c) = directory hs @ ?e"
    unfolding assms(2) encode_archive_def by simp
  have le: "length pre + length body + length (directory hs) \<le> length (cu_data c)"
    unfolding assms(2) encode_archive_def by simp
  let ?c = "c\<lparr>cu_pos := length pre + length body + length (directory hs)\<rparr>"
  have rd: "cursor_read_exact (length (directory hs)) (c\<lparr>cu_pos := length pre + length body\<rparr>) =
      (Ok (directory hs), ?c)"
    using cursor_read_exact_at [OF le] F by simp
  have es: "parse_cd_entries (directory hs) (length hs) = Ok (es, length (directory hs))"
    using parse_cd_entries_encoded [OF ok assms(3), of "[]"] small by (simp add: directory_def)
  have "ahead ?c = drop (length (directory hs)) (drop (length pre + length body) (cu_data c))"
    by (simp add: ac_simps)
  then have a: "ahead ?c = ?e" unfolding F by simp
  then have "6 \<le> length (ahead ?c)" "take 4 (ahead ?c) = le32 EOCD_SIG"
    by (simp_all add: archive_eocd_def encode_eocd_def del: to_le_bytes.simps ahead_seek)
  then obtain c' where sig: "archive_signature (directory hs) (length (directory hs)) ?c = (Ok None, c')"
    using archive_signature_none by blast
  have sh: "(if 0 < p then shift_entries p es else Ok es) = shift_entries p es" for p
    by (simp add: shift_entries_0 word_greater_zero_iff)
  have "read_central_directory flen (location_of pre body hs comment) c =
    seq (lift_outcome (shift_entries (of_nat (length pre)) es)) (\<lambda>shifted.
      seq (archive_signature (directory hs) (length (directory hs))) (\<lambda>sig_len.
      ret (shifted,
       \<lparr> file_len = flen, central_dir_offset = ?off, central_dir_size = ?sz,
         eocd_end_offset = of_nat (length (encode_archive pre body hs comment)),
         comment_len = of_nat (length comment), disk_number = 0,
         cd_start_disk = 0, archive_signature_len = sig_len \<rparr>))) ?c"
    unfolding read_central_directory_def location_of_def cd_location.select_convs
    using rd es by (simp only: seek_start_def seq_Ok with_err_Ok u lift_outcome_apply prod.case sh)
  moreover have "\<exists>c'. \<dots> = (and_then (shift_entries (of_nat (length pre)) es)
       (\<lambda>es'. Ok (es', (summary_of pre body hs comment)\<lparr>file_len := flen\<rparr>)), c')"
    by (cases "shift_entries (of_nat (length pre)) es") (simp_all add: sig summary_of_def)
  ultimately show ?thesis by simp
qed

lemma open_encoded:
  assumes "archive_ok pre body hs comment" and "entries_of hs = Ok es"
  shows "\<exists>c'. cu_data c' = encode_archive pre body hs comment \<and>
    ZipArchive_new (cursor_new (encode_archive pre body hs comment)) =
    and_then (shift_entries (of_nat (length pre)) es) (\<lambda>es'.
      Ok \<lparr> za_reader = c', za_entries = es', za_summary = summary_of pre body hs comment \<rparr>)"
proof -
  let ?F = "encode_archive pre body hs comment"
  from locate_encoded [OF assms(1), of "at_end ?F"] obtain c1 where
    1: "locate_central_directory (of_nat (length ?F)) (at_end ?F) = (Ok (location_of pre body hs comment), c1)"
    by auto
  from keeps_dataD [OF keeps_data_locate 1] have d: "cu_data c1 = ?F" by simp
  from read_encoded [OF assms(1) d assms(2), of "of_nat (length ?F)"] obtain c2 where
    2: "read_central_directory (of_nat (length ?F)) (location_of pre body hs comment) c1 =
      (and_then (shift_entries (of_nat (length pre)) es) (\<lambda>es'. Ok (es', summary_of pre body hs comment)), c2)"
    by (auto simp: summary_of_def)
  from keeps_dataD [OF keeps_data_read 2] d have "cu_data c2 = ?F" by simp
  moreover have "ZipArchive_new (cursor_new ?F) =
    and_then (shift_entries (of_nat (length pre)) es) (\<lambda>es'.
      Ok \<lparr> za_reader = c2, za_entries = es', za_summary = summary_of pre body hs comment \<rparr>)"
    unfolding ZipArchive_new_eq parse_central_directory_def seq_Ok [of "locate_central_directory _", OF 1] 2
    by (cases "shift_entries (of_nat (length pre)) es") simp_all
  ultimately show ?thesis by blast
qed

lemma unat_length_pre: "archive_ok pre body hs comment \<Longrightarrow> unat (of_nat (length pre) :: u64) = length pre"
  by (intro unat_of_nat64) (simp add: archive_ok_def)

text \<open>
  C2: An archive written as prepended data, local entries, central directory, EOCD record and
  comment opens to exactly the entries its headers describe, each local-header offset shifted by
  the length of the prepended data, and to the summary of that layout.
\<close>

theorem archive_roundtrip:
  assumes "archive_ok pre body hs comment" and "entries_of hs = Ok es"
    and "\<forall>e \<in> set es. unat (ce_lfh_offset e) + length pre < 2 ^ 64"
  shows "\<exists>a. ZipArchive_new (cursor_new (encode_archive pre body hs comment)) = Ok a \<and>
    za_entries a = map (\<lambda>e. e\<lparr>ce_lfh_offset := ce_lfh_offset e + of_nat (length pre)\<rparr>) es \<and>
    za_summary a = summary_of pre body hs comment \<and>
    cu_data (za_reader a) = encode_archive pre body hs comment"
proof -
  have "shift_entries (of_nat (length pre)) es =
      Ok (map (\<lambda>e. e\<lparr>ce_lfh_offset := ce_lfh_offset e + of_nat (length pre)\<rparr>) es)"
    using assms(3) by (simp only: shift_entries_Ok unat_length_pre [OF assms(1)])
  with open_encoded [OF assms(1,2)] show ?thesis by auto
qed

text \<open>
  Where data precedes an archive and the local-header offset of an entry plus the length of
  that data reaches 2^64, opening the archive panics on the unchecked addition.
\<close>

theorem archive_prefix_overflow:
  assumes "archive_ok pre body hs comment" and "entries_of hs = Ok es" and "e \<in> set es"
    and "2 ^ 64 \<le> unat (ce_lfh_offset e) + length pre"
  shows "ZipArchive_new (cursor_new (encode_archive pre body hs comment)) = Panic"
proof -
  have "shift_entries (of_nat (length pre)) es = Panic"
    using assms(3,4) by (auto simp only: shift_entries_Panic_iff unat_length_pre [OF assms(1)])
  with open_encoded [OF assms(1,2)] show ?thesis by auto
qed

section \<open>Concrete archives\<close>

text \<open>One stored entry, and one whose local-header offset is the 64-bit maximum of a Zip64 extra field.\<close>

definition sample_header :: cd_header where
  "sample_header = \<lparr> h_version_made = 20, h_version_needed = 20, h_flags = 0, h_method = 0,
     h_mod_time = 0, h_mod_date = 0, h_crc32 = 0, h_compressed32 = 2, h_uncompressed32 = 2,
     h_disk_start = 0, h_internal = 0, h_external = 0, h_lfh_offset32 = 0,
     h_name = [97, 46, 98], h_extra = [], h_comment = [] \<rparr>"

definition wrap_header :: cd_header where
  "wrap_header = sample_header\<lparr>h_lfh_offset32 := U32_SENTINEL,
     h_extra := extra_record 1 (le64 0xFFFFFFFFFFFFFFFF)\<rparr>"

lemma sample_ok: "archive_ok [1] [2, 3] [sample_header] []"
  by (simp add: archive_ok_def comment_ok_def header_ok_def encode_archive_def directory_def
      archive_eocd_def encode_eocd_def encode_header_def encode_fixed_def sample_header_def le_eval)

lemma wrap_ok: "archive_ok [1] [2, 3] [wrap_header] []"
  by (simp add: archive_ok_def comment_ok_def header_ok_def encode_archive_def directory_def
      archive_eocd_def encode_eocd_def encode_header_def encode_fixed_def wrap_header_def
      sample_header_def extra_record_def le_eval)

lemma sample_entries: "\<exists>e. entries_of [sample_header] = Ok [e] \<and> ce_lfh_offset e = 0"
  by (simp add: entry_of_plain sample_header_def)

text \<open>The two archives open as the general lemma says: one with its entry shifted, one panicking.\<close>

lemma sample_shift: "shift_entries 1 [e] = Ok [e\<lparr>ce_lfh_offset := 1\<rparr>]" if "ce_lfh_offset e = 0"
  using that by (simp add: add64_def)

lemma sample_opens:
  "\<exists>a. ZipArchive_new (cursor_new (encode_archive [1] [2, 3] [sample_header] [])) = Ok a"
proof -
  from sample_entries obtain e where e: "entries_of [sample_header] = Ok [e]" "ce_lfh_offset e = 0" by blast
  from open_encoded [OF sample_ok e(1)] show ?thesis by (auto simp: add64_def e(2))
qed

lemma sample_length: "length (encode_archive [1] [2, 3] [sample_header] []) = 74"
  by (simp add: encode_archive_def directory_def length_encode_header length_archive_eocd sample_header_def)

theorem archive_open_panics_iff_witness:
  "\<not> (\<exists>loc c es k. locate_central_directory (of_nat (length ([] :: u8 list))) (at_end []) = (Ok loc, c) \<and>
     located_entries [] loc = Ok (es, k) \<and>
     (\<exists>e \<in> set es. 2 ^ 64 \<le> unat (ce_lfh_offset e) + unat (lo_prefix loc))) \<and>
   ZipArchive_new (cursor_new []) \<noteq> Panic"
proof -
  have "ZipArchive_new (cursor_new []) \<noteq> Panic"
    by (simp add: ZipArchive_new_eq parse_central_directory_def locate_central_directory_def)
  then show ?thesis using archive_open_panics_iff [of "[]"] by simp
qed

theorem archive_open_bounds_witness:
  "\<exists>a. ZipArchive_new (cursor_new (encode_archive [1] [2, 3] [sample_header] [])) = Ok a \<and>
     unat (central_dir_offset (za_summary a)) + unat (central_dir_size (za_summary a)) \<le> 74"
  using sample_opens
    archive_open_bounds [of "encode_archive [1] [2, 3] [sample_header] []", unfolded sample_length]
  by auto

theorem archive_roundtrip_witness:
  "\<exists>a e. ZipArchive_new (cursor_new (encode_archive [1] [2, 3] [sample_header] [])) = Ok a \<and>
     entries_of [sample_header] = Ok [e] \<and> za_entries a = [e\<lparr>ce_lfh_offset := 1\<rparr>]"
proof -
  from sample_entries obtain e where e: "entries_of [sample_header] = Ok [e]" "ce_lfh_offset e = 0" by blast
  from archive_roundtrip [OF sample_ok e(1)] e show ?thesis by auto
qed

lemma wrap_entries: "\<exists>e. entries_of [wrap_header] = Ok [e] \<and> ce_lfh_offset e = 0xFFFFFFFFFFFFFFFF"
proof -
  let ?n = "\<lambda>x. x = U32_SENTINEL"
  have "fst (zip64_loop False False True 2 2 (ucast U32_SENTINEL)
      (Reader_new (extra_record ZIP64_EXTRA_ID (le64 0xFFFFFFFFFFFFFFFF)))) =
      Ok (2, 2, 0xFFFFFFFFFFFFFFFF)"
    using zip64_loop_hit [of "Reader_new (extra_record ZIP64_EXTRA_ID (le64 0xFFFFFFFFFFFFFFFF))"
        "le64 0xFFFFFFFFFFFFFFFF" "[]" False False True 2 2 "ucast U32_SENTINEL"]
      zip64_fields_payload [where nu = False and nc = False and no = True and u' = 0 and c' = 0
          and l' = "0xFFFFFFFFFFFFFFFF" and junk = "[]"]
    by (simp add: zip64_payload_def)
  then show ?thesis
    by (simp add: entry_of_def make_entry_def resolve_sizes_def fixed_of_def wrap_header_def
        sample_header_def apply_zip64_extra_def)
qed

theorem archive_prefix_overflow_witness:
  "ZipArchive_new (cursor_new (encode_archive [1] [2, 3] [wrap_header] [])) = Panic"
proof -
  from wrap_entries obtain e where e: "entries_of [wrap_header] = Ok [e]"
    "ce_lfh_offset e = 0xFFFFFFFFFFFFFFFF" by blast
  from archive_prefix_overflow [OF wrap_ok e(1), of e] e(2) show ?thesis by simp
qed

section \<open>Zip64 values\<close>

lemma apply_zip64_extra_record:
  assumes "records_ok rs" and "\<forall>(rid, d) \<in> set rs. rid \<noteq> ZIP64_EXTRA_ID"
    and "length (zip64_payload nu nc no u' c' l' @ junk) < 65536"
    and "length (extra_block rs @ extra_record ZIP64_EXTRA_ID (zip64_payload nu nc no u' c' l' @ junk) @ t) < 2 ^ 64"
  shows "apply_zip64_extra (extra_block rs @ extra_record ZIP64_EXTRA_ID (zip64_payload nu nc no u' c' l' @ junk) @ t)
      nu nc no u c l = Ok (if nu then u' else u, if nc then c' else c, if no then l' else l)"
proof -
  let ?d = "zip64_payload nu nc no u' c' l' @ junk"
  let ?x = "extra_block rs @ extra_record ZIP64_EXTRA_ID ?d @ t"
  have "reader_ok (Reader_new ?x)" using assms(4) by (simp only: reader_ok_new)
  from zip64_loop_skip [OF this unread_new assms(1,2)] obtain r where
    r: "zip64_loop nu nc no u c l (Reader_new ?x) = zip64_loop nu nc no u c l r" "reader_ok r"
    "unread r = extra_record ZIP64_EXTRA_ID ?d @ t" by blast
  have "length ?d < 2 ^ 64" by (rule less_trans [OF assms(3)]) simp
  from zip64_loop_hit [OF r(2,3) assms(3)] zip64_fields_payload [OF this] r(1) show ?thesis
    by (simp add: apply_zip64_extra_def)
qed

definition zip64_extra_for :: "cd_fixed \<Rightarrow> u64 \<Rightarrow> u64 \<Rightarrow> u64 \<Rightarrow> u8 list" where
  "zip64_extra_for f u c l = zip64_payload (fx_uncompressed32 f = U32_SENTINEL)
     (fx_compressed32 f = U32_SENTINEL) (fx_lfh_offset32 f = U32_SENTINEL) u c l"

text \<open>
  C30: Wherever the Zip64 record stands among the extra records of a header, exactly the fields
  that hold the sentinel are replaced by its 64-bit values, in the order of the format, and the
  other fields keep their 32-bit values.
\<close>

theorem zip64_values_resolved:
  assumes "records_ok rs" and "\<forall>(rid, d) \<in> set rs. rid \<noteq> ZIP64_EXTRA_ID"
    and "length (zip64_extra_for f u c l @ junk) < 65536"
    and "length (extra_block rs @ extra_record ZIP64_EXTRA_ID (zip64_extra_for f u c l @ junk) @ t) < 2 ^ 64"
  shows "resolve_sizes f (extra_block rs @ extra_record ZIP64_EXTRA_ID (zip64_extra_for f u c l @ junk) @ t) =
    Ok (if fx_uncompressed32 f = U32_SENTINEL then u else ucast (fx_uncompressed32 f),
        if fx_compressed32 f = U32_SENTINEL then c else ucast (fx_compressed32 f),
        if fx_lfh_offset32 f = U32_SENTINEL then l else ucast (fx_lfh_offset32 f))"
  using apply_zip64_extra_record [OF assms(1,2) assms(3,4) [unfolded zip64_extra_for_def]]
  unfolding resolve_sizes_def zip64_extra_for_def by simp

theorem zip64_values_resolved_witness:
  "resolve_sizes ((fixed_of sample_header)\<lparr>fx_lfh_offset32 := U32_SENTINEL\<rparr>)
     (extra_block [(2, [7])] @ extra_record ZIP64_EXTRA_ID (le64 5 @ [9]) @ []) = Ok (2, 2, 5)"
  using zip64_values_resolved [of "[(2, [7])]" "(fixed_of sample_header)\<lparr>fx_lfh_offset32 := U32_SENTINEL\<rparr>"
      0 0 5 "[9]" "[]"]
  by (simp add: records_ok_def zip64_extra_for_def zip64_payload_def fixed_of_def sample_header_def)

text \<open>
  A header with a sentinel field whose extra block has no Zip64 record is refused as
  inconsistent, it is never read with the sentinel as its value.
\<close>

theorem zip64_values_missing:
  assumes "records_ok rs" and "\<forall>(rid, d) \<in> set rs. rid \<noteq> ZIP64_EXTRA_ID" and "length t < 4"
    and "length (extra_block rs @ t) < 2 ^ 64"
    and "U32_SENTINEL \<in> {fx_uncompressed32 f, fx_compressed32 f, fx_lfh_offset32 f}"
  shows "resolve_sizes f (extra_block rs @ t) = Err (Format Zip64Inconsistent)"
proof -
  have "reader_ok (Reader_new (extra_block rs @ t))" using assms(4) by (simp only: reader_ok_new)
  from zip64_loop_skip [OF this unread_new assms(1,2)] assms(3) have
    "fst (zip64_loop nu nc no u c l (Reader_new (extra_block rs @ t))) = Err Zip64Inconsistent"
    for nu nc no u c l
    by (metis zip64_loop_end remaining_eq)
  with assms(5) show ?thesis by (auto simp: resolve_sizes_def apply_zip64_extra_def)
qed

theorem zip64_values_missing_witness:
  "resolve_sizes ((fixed_of sample_header)\<lparr>fx_lfh_offset32 := U32_SENTINEL\<rparr>)
     (extra_block [(2, [7])] @ []) = Err (Format Zip64Inconsistent)"
  by (rule zip64_values_missing) (simp_all add: records_ok_def)

end
