(* ===== verification/Archive.thy ===== *)
theory Archive
  imports Codec LocalHeader Roundtrip
begin

text \<open>
  Opening entries and reading them, from \<open>core/src/archive.rs\<close>: \<open>by_index\<close>, \<open>by_name\<close> and their
  decrypting forms, the composition of local header, decryption and decoder, and \<open>ZipFile\<close>,
  which verifies the CRC-32 at the end of the entry.
\<close>

section \<open>The boxed readers\<close>

text \<open>The five readers the code puts behind \<open>Box<dyn Read>\<close>, all over \<open>Take\<close> of the file.\<close>

datatype ('c, 'm, 'd) boxed =
    BoxTake "cursor take_reader"
  | BoxZipCrypto "cursor take_reader zipcrypto_reader"
  | BoxAes "(cursor take_reader, 'c, 'm) aes_reader"
  | BoxStrong "(cursor take_reader, 'd) strong_reader"
  | BoxStrongTake "(cursor take_reader, 'd) strong_reader take_reader"

text \<open>The third-party crates, and the buffer sizes \<open>read_to_end\<close> offers.\<close>

record ('h, 'c, 'm, 'd, 'x) externals =
  x_crc :: "'h crc_lib"
  x_aes :: "('c, 'm) aes_lib"
  x_strong :: "'d strong_lib"
  x_codec :: "(('c, 'm, 'd) boxed, 'x) codec_lib"
  x_sizes :: "nat \<Rightarrow> nat"

abbreviation file_read :: "nat \<Rightarrow> (cursor take_reader, u8 list, io_error) act" where
  "file_read \<equiv> take_read cursor_read"

definition boxed_read ::
  "('h, 'c, 'm, 'd, 'x) externals \<Rightarrow> nat \<Rightarrow> (('c, 'm, 'd) boxed, u8 list, io_error) act" where
  "boxed_read E n b =
     (case b of
        BoxTake r \<Rightarrow> lift_read BoxTake (file_read n r)
      | BoxZipCrypto r \<Rightarrow> lift_read BoxZipCrypto (zipcrypto_read file_read n r)
      | BoxAes r \<Rightarrow> lift_read BoxAes (aes_read (x_aes E) file_read n r)
      | BoxStrong r \<Rightarrow> lift_read BoxStrong (strong_read (x_strong E) file_read n r)
      | BoxStrongTake r \<Rightarrow>
          lift_read BoxStrongTake (take_read (strong_read (x_strong E) file_read) n r))"

section \<open>ZipFile\<close>

record ('h, 'c, 'm, 'd, 'x) zip_file =
  zf_meta :: central_entry
  zf_data_start :: u64
  zf_decoder :: "(('c, 'm, 'd) boxed, 'x) decoder"
  zf_hasher :: 'h
  zf_bytes_out :: u64
  zf_verified :: bool
  zf_verify_crc :: bool

definition zf_name :: "('h, 'c, 'm, 'd, 'x) zip_file \<Rightarrow> rstring" where
  "zf_name f = ce_name (zf_meta f)"

definition zf_compression :: "('h, 'c, 'm, 'd, 'x) zip_file \<Rightarrow> compression_method" where
  "zf_compression f = ce_method (zf_meta f)"

definition zf_size :: "('h, 'c, 'm, 'd, 'x) zip_file \<Rightarrow> u64" where
  "zf_size f = ce_uncompressed_size (zf_meta f)"

definition zf_compressed_size :: "('h, 'c, 'm, 'd, 'x) zip_file \<Rightarrow> u64" where
  "zf_compressed_size f = ce_compressed_size (zf_meta f)"

definition zf_crc32 :: "('h, 'c, 'm, 'd, 'x) zip_file \<Rightarrow> u32" where
  "zf_crc32 f = ce_crc32 (zf_meta f)"

definition zf_flags :: "('h, 'c, 'm, 'd, 'x) zip_file \<Rightarrow> u16" where
  "zf_flags f = ce_flags (zf_meta f)"

definition zf_is_dir :: "('h, 'c, 'm, 'd, 'x) zip_file \<Rightarrow> bool" where
  "zf_is_dir f = is_dir (zf_meta f)"

definition zf_enclosed_name :: "platform \<Rightarrow> ('h, 'c, 'm, 'd, 'x) zip_file \<Rightarrow> rstring option" where
  "zf_enclosed_name plat f = enclosed_name plat (ce_name (zf_meta f))"

definition zip_file_read ::
  "('h, 'c, 'm, 'd, 'x) externals \<Rightarrow> nat \<Rightarrow> (('h, 'c, 'm, 'd, 'x) zip_file, u8 list, io_error) act" where
  "zip_file_read E n f =
     (case decoder_read (x_codec E) (boxed_read E) n (zf_decoder f) of
        (Ok bs, d) \<Rightarrow>
          (let f1 = f\<lparr>zf_decoder := d\<rparr> in
           if bs = [] then
             (if \<not> zf_verified f1 then
                (let f2 = f1\<lparr>zf_verified := True\<rparr>;
                     actual = crc_finalize (x_crc E) (zf_hasher f2)
                 in if zf_verify_crc f2 \<and> actual \<noteq> ce_crc32 (zf_meta f2)
                    then (Err (IoOther (CrcMismatchError (ce_name (zf_meta f2)) (ce_crc32 (zf_meta f2)) actual)), f2)
                    else (Ok [], f2))
              else (Ok [], f1))
           else
             (case add64 (zf_bytes_out f1) (of_nat (length bs)) of
                Ok b \<Rightarrow> (Ok bs, f1\<lparr>zf_hasher := crc_update (x_crc E) (zf_hasher f1) bs, zf_bytes_out := b\<rparr>)
              | Err e \<Rightarrow> (Err e, f1)
              | Panic \<Rightarrow> (Panic, f1\<lparr>zf_hasher := crc_update (x_crc E) (zf_hasher f1) bs\<rparr>)))
      | (Err e, d) \<Rightarrow> (Err e, f\<lparr>zf_decoder := d\<rparr>)
      | (Panic, d) \<Rightarrow> (Panic, f\<lparr>zf_decoder := d\<rparr>))"

section \<open>Opening\<close>

text \<open>
  The returned \<open>ZipFile\<close> borrows the archive's reader; the model gives it the reader's state. Every
  later operation of the archive seeks before it reads, so the archive itself is kept as it was.
  \<open>None\<close> is a one-shot decoder that never ends.
\<close>

definition make_zip_file ::
  "('h, 'c, 'm, 'd, 'x) externals \<Rightarrow> central_entry \<Rightarrow> u64 \<Rightarrow> compression_method \<Rightarrow> bool
     \<Rightarrow> ('c, 'm, 'd) boxed \<Rightarrow> (('h, 'c, 'm, 'd, 'x) zip_file, zip_core_error) outcome option" where
  "make_zip_file E m data_start meth verify b =
     map_option (\<lambda>v. and_then v (\<lambda>decoder. Ok
         \<lparr> zf_meta = m, zf_data_start = data_start, zf_decoder = decoder,
           zf_hasher = crc_new (x_crc E), zf_bytes_out = 0, zf_verified = False,
           zf_verify_crc = verify \<rparr>))
       (Decoder_new (x_codec E) (boxed_read E) (x_sizes E) meth (ce_uncompressed_size m) b)"

text \<open>The local header, the seek to the data and the limit, common to the three ways of opening.\<close>

definition entry_data :: "central_entry \<Rightarrow> cursor \<Rightarrow> (u64 \<times> cursor take_reader, zip_core_error) outcome" where
  "entry_data m c =
     fst (seq (read_lfh_fields (ce_lfh_offset m)) (\<lambda>(local, data_start).
          seq (with_err Io (seek_start data_start)) (\<lambda>_ c'.
            (Ok (data_start, take_new c' (ce_compressed_size m)), c'))) c)"

fun bind_opt :: "('a, 'e) outcome \<Rightarrow> ('a \<Rightarrow> ('b, 'e) outcome option) \<Rightarrow> ('b, 'e) outcome option" where
  "bind_opt (Ok a) f = f a"
| "bind_opt (Err e) f = Some (Err e)"
| "bind_opt Panic f = Some Panic"

definition archive_open ::
  "('h, 'c, 'm, 'd, 'x) externals \<Rightarrow> zip_archive \<Rightarrow> central_entry
     \<Rightarrow> (('h, 'c, 'm, 'd, 'x) zip_file, zip_core_error) outcome option" where
  "archive_open E a m =
     bind_opt (check_local_disk m (disk_number (za_summary a)) (cd_start_disk (za_summary a))) (\<lambda>_.
     if has_bits (ce_flags m) 0x0001 then Some (Err (EncryptedNoPassword (ce_name m)))
     else bind_opt (entry_data m (za_reader a)) (\<lambda>(data_start, limited).
       make_zip_file E m data_start (ce_method m) True (BoxTake limited)))"

definition open_strong_decrypt ::
  "('h, 'c, 'm, 'd, 'x) externals \<Rightarrow> zip_archive \<Rightarrow> central_entry \<Rightarrow> u8 list
     \<Rightarrow> (('h, 'c, 'm, 'd, 'x) zip_file, zip_core_error) outcome option" where
  "open_strong_decrypt E a m password =
     bind_opt (entry_data m (za_reader a)) (\<lambda>(data_start, tk).
     (case read_strong_header (x_strong E) (x_crc E) file_read password (ce_crc32 m)
             (ce_uncompressed_size m) (ce_name m) tk of
        (Ok hdr, tk') \<Rightarrow>
          (let enc_len = saturating_sub64 (ce_compressed_size m) (sh_header_len hdr) in
           bind_opt (StrongAesReader_new (x_strong E) tk' (sh_file_key hdr) (sh_iv hdr) enc_len (ce_name m))
             (\<lambda>strong. make_zip_file E m data_start (ce_method m) True
               (if ce_method m = Stored then BoxStrongTake (take_new strong (ce_uncompressed_size m))
                else BoxStrong strong)))
      | (Err e, _) \<Rightarrow> Some (Err e)
      | (Panic, _) \<Rightarrow> Some Panic))"

definition open_decrypt ::
  "('h, 'c, 'm, 'd, 'x) externals \<Rightarrow> zip_archive \<Rightarrow> central_entry \<Rightarrow> u8 list
     \<Rightarrow> (('h, 'c, 'm, 'd, 'x) zip_file, zip_core_error) outcome option" where
  "open_decrypt E a m password =
     bind_opt (check_local_disk m (disk_number (za_summary a)) (cd_start_disk (za_summary a))) (\<lambda>_.
     if \<not> has_bits (ce_flags m) 0x0001 \<and> ce_aes m = None then archive_open E a m
     else if has_bits (ce_flags m) 0x2000 then
       Some (Err (UnsupportedEncryption (ce_name m)
         (lit ''masked / central-directory encryption (GP flag bit 13)'')))
     else if ce_aes m = None \<and> has_bits (ce_flags m) 0x0040 then open_strong_decrypt E a m password
     else bind_opt (entry_data m (za_reader a)) (\<lambda>(data_start, tk).
       (case ce_aes m of
          Some aes \<Rightarrow>
            bind_opt (AesReader_new (x_aes E) file_read tk password aes (ce_compressed_size m) (ce_name m))
              (\<lambda>r. make_zip_file E m data_start (method_from_u16 (actual_method aes)) (\<not> is_ae2 aes) (BoxAes r))
        | None \<Rightarrow>
            bind_opt (ZipCryptoReader_new file_read tk password
                (zipcrypto_check_byte (ce_flags m) (ce_crc32 m) (ce_last_mod_time m)) (ce_name m))
              (\<lambda>r. make_zip_file E m data_start (ce_method m) True (BoxZipCrypto r)))))"

definition entry_at :: "zip_archive \<Rightarrow> usize \<Rightarrow> (central_entry, zip_core_error) outcome" where
  "entry_at a i = (if i < length (za_entries a) then Ok (za_entries a ! i) else Err (IndexOutOfBounds i))"

definition entry_named :: "zip_archive \<Rightarrow> rstring \<Rightarrow> (central_entry, zip_core_error) outcome" where
  "entry_named a name = ok_or (List.find (\<lambda>e. ce_name e = name) (za_entries a)) (EntryNotFound name)"

definition by_index ::
  "('h, 'c, 'm, 'd, 'x) externals \<Rightarrow> zip_archive \<Rightarrow> usize \<Rightarrow> (('h, 'c, 'm, 'd, 'x) zip_file, zip_core_error) outcome option" where
  "by_index E a i = bind_opt (entry_at a i) (archive_open E a)"

definition by_name ::
  "('h, 'c, 'm, 'd, 'x) externals \<Rightarrow> zip_archive \<Rightarrow> rstring \<Rightarrow> (('h, 'c, 'm, 'd, 'x) zip_file, zip_core_error) outcome option" where
  "by_name E a name = bind_opt (entry_named a name) (archive_open E a)"

definition by_index_decrypt ::
  "('h, 'c, 'm, 'd, 'x) externals \<Rightarrow> zip_archive \<Rightarrow> usize \<Rightarrow> u8 list \<Rightarrow> (('h, 'c, 'm, 'd, 'x) zip_file, zip_core_error) outcome option" where
  "by_index_decrypt E a i password = bind_opt (entry_at a i) (\<lambda>m. open_decrypt E a m password)"

definition by_name_decrypt ::
  "('h, 'c, 'm, 'd, 'x) externals \<Rightarrow> zip_archive \<Rightarrow> rstring \<Rightarrow> u8 list \<Rightarrow> (('h, 'c, 'm, 'd, 'x) zip_file, zip_core_error) outcome option" where
  "by_name_decrypt E a name password = bind_opt (entry_named a name) (\<lambda>m. open_decrypt E a m password)"

text \<open>Reading an opened entry to its end.\<close>

definition read_entry ::
  "('h, 'c, 'm, 'd, 'x) externals \<Rightarrow> ('h, 'c, 'm, 'd, 'x) zip_file \<Rightarrow> (u8 list, io_error) outcome option" where
  "read_entry E f = map_option fst (read_to_end (zip_file_read E) (x_sizes E) 0 [] f)"

end
