(* ===== verification/Extract.thy ===== *)
theory Extract
  imports Archive
begin

text \<open>
  What opening and reading an entry gives, over the definitions of \<open>Archive\<close>: the lookup of
  entries, the refusals, the integrity check at the end of an entry over any decoder, and the
  extraction of stored, ZipCrypto and WinZip AES entries from the bytes of an archive.
\<close>

section \<open>Reading to the end through a layer\<close>

text \<open>A reader put behind a constructor reads as it did before.\<close>

lemma read_to_end_lift:
  assumes "read_to_end rd sizes i acc s = Some (v, t)"
    and "\<And>n s. rd' n (F s) = lift_read F (rd n s)"
  shows "read_to_end rd' sizes i acc (F s) = Some (v, F t)"
  using assms(1)
  by (induction rule: read_to_end_induct) (subst read_to_end.simps, simp add: assms(2) lift_read_def)+

text \<open>
  \<open>ZipFile\<close> over any decoder: where the decoder reads to the end, so does the file, with the
  decoder's bytes if their CRC-32 is the recorded one and the mismatch error if it is not.
\<close>

definition crc_verdict ::
  "('h, 'c, 'm, 'd, 'x) externals \<Rightarrow> central_entry \<Rightarrow> bool \<Rightarrow> u8 list \<Rightarrow> (u8 list, io_error) outcome" where
  "crc_verdict E m verify out =
     (if verify \<and> crc_of (x_crc E) out \<noteq> ce_crc32 m
      then Err (IoOther (CrcMismatchError (ce_name m) (ce_crc32 m) (crc_of (x_crc E) out)))
      else Ok out)"

lemma zip_file_read_data:
  assumes "decoder_read (x_codec E) (boxed_read E) n (zf_decoder f) = (Ok bs, d)" and "bs \<noteq> []"
    and "unat (zf_bytes_out f) + length bs < 2 ^ 64"
  shows "zip_file_read E n f = (Ok bs, f\<lparr>zf_decoder := d, zf_hasher := crc_update (x_crc E) (zf_hasher f) bs,
    zf_bytes_out := zf_bytes_out f + of_nat (length bs)\<rparr>)"
proof -
  have "unat (of_nat (length bs) :: u64) = length bs" using assms(3) by (simp add: unat_of_nat64)
  then have "add64 (zf_bytes_out f) (of_nat (length bs)) =
      (Ok (zf_bytes_out f + of_nat (length bs)) :: (u64, io_error) outcome)"
    using assms(3) by (intro add64_OkI) simp
  with assms(1,2) show ?thesis by (simp add: zip_file_read_def Let_def del: add64_eq_Ok)
qed

lemma zip_file_read_end:
  assumes "decoder_read (x_codec E) (boxed_read E) n (zf_decoder f) = (Ok [], d)"
    and "zf_hasher f = crc_update (x_crc E) (crc_new (x_crc E)) out"
  shows "zip_file_read E n f =
    (and_then (crc_verdict E (zf_meta f) (zf_verify_crc f \<and> \<not> zf_verified f) out) (\<lambda>_. Ok []),
     f\<lparr>zf_decoder := d, zf_verified := True\<rparr>)"
  using assms by (simp add: zip_file_read_def Let_def crc_verdict_def crc_of_def)

lemma zip_file_read_Err:
  "decoder_read (x_codec E) (boxed_read E) n (zf_decoder f) = (Err e, d) \<Longrightarrow>
     zip_file_read E n f = (Err e, f\<lparr>zf_decoder := d\<rparr>)"
  by (simp add: zip_file_read_def)

text \<open>How far a file has been read: its hasher has seen \<open>acc\<close> and its counter has the length.\<close>

definition fed :: "('h, 'c, 'm, 'd, 'x) externals \<Rightarrow> ('h, 'c, 'm, 'd, 'x) zip_file \<Rightarrow> u8 list \<Rightarrow> bool" where
  "fed E f acc \<longleftrightarrow> unat (zf_bytes_out f) = length acc \<and>
     zf_hasher f = crc_update (x_crc E) (crc_new (x_crc E)) acc"

lemma fed_step:
  assumes "fed E f acc" and "crc_chunked (x_crc E)" and "length acc + length bs < 2 ^ 64"
  shows "fed E (f\<lparr>zf_decoder := d, zf_hasher := crc_update (x_crc E) (zf_hasher f) bs,
    zf_bytes_out := zf_bytes_out f + of_nat (length bs)\<rparr>) (acc @ bs)"
proof -
  have "unat (of_nat (length bs) :: u64) = length bs" using assms(3) by (simp add: unat_of_nat64)
  then have "unat (zf_bytes_out f + of_nat (length bs)) = length acc + length bs"
    using assms(1,3) by (subst unat_add64) (simp_all add: fed_def)
  then show ?thesis using assms(1,2) by (simp add: fed_def crc_chunked_def)
qed

lemma zip_file_read_to_end:
  assumes "read_to_end (decoder_read (x_codec E) (boxed_read E)) sizes i acc (zf_decoder f) = Some (Ok out, d)"
    and "crc_chunked (x_crc E)" and "length out < 2 ^ 64" and "fed E f acc"
  shows "\<exists>f'. read_to_end (zip_file_read E) sizes i acc f =
    Some (crc_verdict E (zf_meta f) (zf_verify_crc f \<and> \<not> zf_verified f) out, f')"
proof -
  have "\<forall>f. zf_decoder f = s \<longrightarrow> v = Ok out \<longrightarrow> fed E f acc \<longrightarrow>
      (\<exists>f'. read_to_end (zip_file_read E) sizes i acc f =
        Some (crc_verdict E (zf_meta f) (zf_verify_crc f \<and> \<not> zf_verified f) out, f'))"
    if "read_to_end (decoder_read (x_codec E) (boxed_read E)) sizes i acc s = Some (v, d)" for i acc s v
    using that
  proof (induction rule: read_to_end_induct)
    case (eof i acc s t)
    show ?case
    proof (intro allI impI)
      fix f assume f: "zf_decoder f = s" "Ok acc = Ok out" "fed E f acc"
      with eof have "zip_file_read E (sizes i) f = (and_then
          (crc_verdict E (zf_meta f) (zf_verify_crc f \<and> \<not> zf_verified f) out) (\<lambda>_. Ok []), f\<lparr>zf_decoder := t, zf_verified := True\<rparr>)"
        by (intro zip_file_read_end) (auto simp: fed_def)
      with f(2) show "\<exists>f'. read_to_end (zip_file_read E) sizes i acc f =
          Some (crc_verdict E (zf_meta f) (zf_verify_crc f \<and> \<not> zf_verified f) out, f')"
        by (subst read_to_end.simps) (auto simp: crc_verdict_def)
    qed
  next
    case (data i acc s bs s' v t)
    show ?case
    proof (intro allI impI)
      fix f assume f: "zf_decoder f = s" "v = Ok out" "fed E f acc"
      let ?f = "f\<lparr>zf_decoder := s', zf_hasher := crc_update (x_crc E) (zf_hasher f) bs,
          zf_bytes_out := zf_bytes_out f + of_nat (length bs)\<rparr>"
      from data(3) f(2) have "length (acc @ bs) \<le> length out" by (auto dest: read_to_end_extends)
      then have len: "length acc + length bs < 2 ^ 64" using assms(3) by simp
      with f have rd: "zip_file_read E (sizes i) f = (Ok bs, ?f)"
        using data(1,2) by (intro zip_file_read_data) (auto simp: fed_def)
      from data(4) f(2) fed_step [OF f(3) assms(2) len, of s'] obtain f' where
        "read_to_end (zip_file_read E) sizes (Suc i) (acc @ bs) ?f =
          Some (crc_verdict E (zf_meta f) (zf_verify_crc f \<and> \<not> zf_verified f) out, f')" by force
      with rd data(2) show "\<exists>f'. read_to_end (zip_file_read E) sizes i acc f =
          Some (crc_verdict E (zf_meta f) (zf_verify_crc f \<and> \<not> zf_verified f) out, f')"
        by (subst read_to_end.simps) simp
    qed
  qed simp_all
  with assms show ?thesis by blast
qed

text \<open>
  An error of the decoder is the file's error, for a decoder that hands out less than \<open>2 ^ 64\<close> bytes:
  \<open>owed\<close> bounds what it may still return.
\<close>

lemma zip_file_read_to_end_Err:
  assumes "read_to_end (decoder_read (x_codec E) (boxed_read E)) sizes i acc (zf_decoder f) = Some (Err e, d)"
    and "crc_chunked (x_crc E)" and "fed E f acc"
    and "I (zf_decoder f)" and "length acc + owed (zf_decoder f) < 2 ^ 64"
    and "\<And>n s bs s'. I s \<Longrightarrow> decoder_read (x_codec E) (boxed_read E) n s = (Ok bs, s') \<Longrightarrow>
      I s' \<and> length bs + owed s' \<le> owed s"
  shows "\<exists>f'. read_to_end (zip_file_read E) sizes i acc f = Some (Err e, f')"
proof -
  have "\<forall>f. zf_decoder f = s \<longrightarrow> v = Err e \<longrightarrow> fed E f acc \<longrightarrow> I s \<longrightarrow> length acc + owed s < 2 ^ 64 \<longrightarrow>
      (\<exists>f'. read_to_end (zip_file_read E) sizes i acc f = Some (Err e, f'))"
    if "read_to_end (decoder_read (x_codec E) (boxed_read E)) sizes i acc s = Some (v, d)" for i acc s v
    using that
  proof (induction rule: read_to_end_induct)
    case (data i acc s bs s' v t)
    show ?case
    proof (intro allI impI)
      fix f assume f: "zf_decoder f = s" "v = Err e" "fed E f acc" "I s" "length acc + owed s < 2 ^ 64"
      let ?f = "f\<lparr>zf_decoder := s', zf_hasher := crc_update (x_crc E) (zf_hasher f) bs,
          zf_bytes_out := zf_bytes_out f + of_nat (length bs)\<rparr>"
      from assms(6) [OF f(4) data(1)] have s': "I s'" "length bs + owed s' \<le> owed s" by auto
      with f(5) have len: "length acc + length bs < 2 ^ 64" "length (acc @ bs) + owed s' < 2 ^ 64" by simp_all
      have rd: "zip_file_read E (sizes i) f = (Ok bs, ?f)"
        using data(1,2) f len(1) by (intro zip_file_read_data) (auto simp: fed_def)
      from data(4) f(2) s'(1) len(2) fed_step [OF f(3) assms(2) len(1), of s'] obtain f' where
        "read_to_end (zip_file_read E) sizes (Suc i) (acc @ bs) ?f = Some (Err e, f')" by force
      with rd data(2) show "\<exists>f'. read_to_end (zip_file_read E) sizes i acc f = Some (Err e, f')"
        by (subst read_to_end.simps) simp
    qed
  next
    case (err i acc s e' t)
    then show ?case by (auto simp: zip_file_read_Err read_to_end.simps [of "zip_file_read E"])
  qed simp_all
  with assms show ?thesis by blast
qed

section \<open>Stored entries over the boxed readers\<close>

text \<open>
  A stored entry is read through whichever reader its encryption asks for: behind the box and
  behind the pass-through decoder that reader yields what it yields alone.
\<close>

lemma stored_over_box:
  assumes "read_to_end rd sizes 0 [] r = Some (v, r')"
    and "\<And>n s. boxed_read E n (F s) = lift_read F (rd n s)"
  shows "read_to_end (decoder_read (x_codec E) (boxed_read E)) sizes 0 [] (StoredDecoder (F r)) =
    Some (v, StoredDecoder (F r'))"
  using read_to_end_lift [OF assms] by (rule read_to_end_lift) (simp add: decoder_read_def)

lemma boxed_read_simps:
  "boxed_read E n (BoxTake s1) = lift_read BoxTake (file_read n s1)"
  "boxed_read E n (BoxZipCrypto s2) = lift_read BoxZipCrypto (zipcrypto_read file_read n s2)"
  "boxed_read E n (BoxAes s3) = lift_read BoxAes (aes_read (x_aes E) file_read n s3)"
  "boxed_read E n (BoxStrong s4) = lift_read BoxStrong (strong_read (x_strong E) file_read n s4)"
  "boxed_read E n (BoxStrongTake s5) =
     lift_read BoxStrongTake (take_read (strong_read (x_strong E) file_read) n s5)"
  by (simp_all add: boxed_read_def)

text \<open>What \<open>make_zip_file\<close> gives for a stored entry, and what reading it gives.\<close>

definition fresh_file ::
  "('h, 'c, 'm, 'd, 'x) externals \<Rightarrow> central_entry \<Rightarrow> u64 \<Rightarrow> bool \<Rightarrow> (('c, 'm, 'd) boxed, 'x) decoder
     \<Rightarrow> ('h, 'c, 'm, 'd, 'x) zip_file" where
  "fresh_file E m ds verify d = \<lparr> zf_meta = m, zf_data_start = ds, zf_decoder = d,
     zf_hasher = crc_new (x_crc E), zf_bytes_out = 0, zf_verified = False, zf_verify_crc = verify \<rparr>"

lemma make_zip_file_Ok:
  "make_zip_file E m ds meth verify b = Some (Ok f) \<longleftrightarrow>
     (\<exists>d. Decoder_new (x_codec E) (boxed_read E) (x_sizes E) meth (ce_uncompressed_size m) b = Some (Ok d) \<and>
       f = fresh_file E m ds verify d)"
  by (auto simp: make_zip_file_def fresh_file_def)

lemma make_zip_file_Stored:
  "make_zip_file E m ds Stored verify b = Some (Ok (fresh_file E m ds verify (StoredDecoder b)))"
  by (simp add: make_zip_file_Ok Decoder_new_def)

lemma read_fresh_file:
  assumes "read_to_end (decoder_read (x_codec E) (boxed_read E)) (x_sizes E) 0 [] d = Some (Ok out, d')"
    and "crc_chunked (x_crc E)" and "length out < 2 ^ 64"
  shows "read_entry E (fresh_file E m ds verify d) = Some (crc_verdict E m verify out)"
proof -
  let ?f = "fresh_file E m ds verify d"
  have "fed E ?f []" using assms(2) by (simp add: fed_def fresh_file_def crc_chunked_def)
  from zip_file_read_to_end [OF _ assms(2,3) this, where sizes = "x_sizes E" and i = 0 and d = d'] assms(1)
  have "\<exists>f'. read_to_end (zip_file_read E) (x_sizes E) 0 [] ?f = Some (crc_verdict E m verify out, f')"
    by (simp add: fresh_file_def)
  then show ?thesis by (auto simp: read_entry_def)
qed

section \<open>The data of an entry\<close>

definition placed :: "cursor \<Rightarrow> central_entry \<Rightarrow> u8 list \<Rightarrow> bool" where
  "placed c m data \<longleftrightarrow> length (cu_data c) < 2 ^ 63 \<and> unat (ce_compressed_size m) = length data \<and>
     (\<exists>pre h post. local_ok h \<and> cu_data c = pre @ encode_local h @ data @ post \<and>
        ce_lfh_offset m = of_nat (length pre))"

lemma placedI:
  "cu_data c = pre @ encode_local h @ data @ post \<Longrightarrow> local_ok h \<Longrightarrow> ce_lfh_offset m = of_nat (length pre) \<Longrightarrow>
     unat (ce_compressed_size m) = length data \<Longrightarrow> length (cu_data c) < 2 ^ 63 \<Longrightarrow> placed c m data"
  unfolding placed_def by blast

lemma entry_data_placed:
  assumes "placed c m data"
  shows "\<exists>ds t. entry_data m c = Ok (ds, t) \<and> window t = data"
proof -
  from assms obtain pre h post where h: "local_ok h" "cu_data c = pre @ encode_local h @ (data @ post)"
    "ce_lfh_offset m = of_nat (length pre)" "length (cu_data c) < 2 ^ 63"
    "unat (ce_compressed_size m) = length data"
    by (auto simp: placed_def)
  from read_lfh_encoded [OF h(1,2,4)] obtain ds c' where
    rd: "read_lfh_fields (of_nat (length pre)) c = (Ok (local_fields h, ds), c')"
    "drop (unat ds) (cu_data c) = data @ post" "cu_data c' = cu_data c"
    by blast
  have "with_err Io (seek_start ds) c' = (Ok (), c'\<lparr>cu_pos := unat ds\<rparr>)"
    by (simp add: seek_start_def)
  then have "entry_data m c = Ok (ds, take_new (c'\<lparr>cu_pos := unat ds\<rparr>) (ce_compressed_size m))"
    by (simp add: entry_data_def h(3) rd(1))
  moreover have "window (take_new (c'\<lparr>cu_pos := unat ds\<rparr>) (ce_compressed_size m)) = data"
    using h(5) rd(2,3) by (simp add: take_new_def)
  ultimately show ?thesis by blast
qed

definition on_one_disk :: "zip_archive \<Rightarrow> central_entry \<Rightarrow> bool" where
  "on_one_disk a m \<longleftrightarrow> ce_disk_start m = 0 \<and> cd_start_disk (za_summary a) = 0 \<and> disk_number (za_summary a) = 0"

lemma check_local_disk_one: "on_one_disk a m \<Longrightarrow>
    check_local_disk m (disk_number (za_summary a)) (cd_start_disk (za_summary a)) = Ok ()"
  by (simp add: on_one_disk_def check_local_disk_def)

section \<open>Extraction\<close>

lemma archive_open_stored:
  assumes "placed (za_reader a) m data" and "on_one_disk a m" and "\<not> has_bits (ce_flags m) 1"
    and "ce_method m = Stored" and "crc_chunked (x_crc E)" and "\<And>j. 0 < x_sizes E j"
  shows "\<exists>f. archive_open E a m = Some (Ok f) \<and> read_entry E f = Some (crc_verdict E m True data)"
proof -
  from entry_data_placed [OF assms(1)] obtain ds t where
    t: "entry_data m (za_reader a) = Ok (ds, t)" "window t = data" by blast
  let ?d = "StoredDecoder (BoxTake t)"
  have "archive_open E a m = Some (Ok (fresh_file E m ds True ?d))"
    using assms(3,4) t(1) by (simp add: archive_open_def check_local_disk_one [OF assms(2)] make_zip_file_Stored)
  moreover from win.read_to_end_content [where s = t and sizes = "x_sizes E" and i = 0 and acc = "[]", OF TrueI assms(6)] t(2)
  obtain t' where "read_to_end file_read (x_sizes E) 0 [] t = Some (Ok data, t')" by auto
  from stored_over_box [OF this, where F = BoxTake, OF boxed_read_simps(1)]
  have "read_to_end (decoder_read (x_codec E) (boxed_read E)) (x_sizes E) 0 [] ?d =
    Some (Ok data, StoredDecoder (BoxTake t'))" .
  from read_fresh_file [OF this assms(5)] assms(1)
  have "read_entry E (fresh_file E m ds True ?d) = Some (crc_verdict E m True data)"
    by (auto simp: placed_def)
  ultimately show ?thesis by blast
qed

text \<open>An archive written field by field opens with the bytes after a local header as the data of its entry.\<close>

lemma written_entry_placed:
  assumes "archive_ok pre (a @ encode_local l @ data @ b) hs comment" and "entries_of hs = Ok es"
    and "\<forall>e \<in> set es. unat (ce_lfh_offset e) + length pre < 2 ^ 64"
    and "i < length es" and "es ! i = e" and "local_ok l" and "ce_lfh_offset e = of_nat (length a)"
    and "unat (ce_compressed_size e) = length data" and "ce_disk_start e = 0"
    and "length (encode_archive pre (a @ encode_local l @ data @ b) hs comment) < 2 ^ 63"
  shows "\<exists>archive off. ZipArchive_new (cursor_new (encode_archive pre (a @ encode_local l @ data @ b) hs comment)) =
      Ok archive \<and> i < length (za_entries archive) \<and> za_entries archive ! i = e\<lparr>ce_lfh_offset := off\<rparr> \<and>
      placed (za_reader archive) (e\<lparr>ce_lfh_offset := off\<rparr>) data \<and> on_one_disk archive (e\<lparr>ce_lfh_offset := off\<rparr>)"
proof -
  let ?body = "a @ encode_local l @ data @ b"
  let ?F = "encode_archive pre ?body hs comment"
  let ?shift = "\<lambda>e. e\<lparr>ce_lfh_offset := ce_lfh_offset e + of_nat (length pre)\<rparr>"
  from open_encoded [OF assms(1,2)] obtain c' where c': "cu_data c' = ?F" and
    new: "ZipArchive_new (cursor_new ?F) = and_then (shift_entries (of_nat (length pre)) es) (\<lambda>es'.
      Ok \<lparr> za_reader = c', za_entries = es', za_summary = summary_of pre ?body hs comment \<rparr>)" by blast
  have "shift_entries (of_nat (length pre)) es = Ok (map ?shift es)"
    using assms(3) by (simp only: shift_entries_Ok unat_length_pre [OF assms(1)])
  with new have opened: "ZipArchive_new (cursor_new ?F) =
      Ok \<lparr> za_reader = c', za_entries = map ?shift es, za_summary = summary_of pre ?body hs comment \<rparr>"
    (is "_ = Ok ?z") by simp
  have "cu_data (za_reader ?z) = (pre @ a) @ encode_local l @ data @ (b @ directory hs @ archive_eocd ?body hs comment)"
    by (simp add: c' encode_archive_def)
  from placedI [OF this assms(6), of "?shift e"] have "placed (za_reader ?z) (?shift e) data"
    using assms(7,8,10) c' by simp
  moreover have "on_one_disk ?z (?shift e)" using assms(9) by (simp add: on_one_disk_def summary_of_def)
  ultimately show ?thesis using opened assms(4,5)
    by (intro exI [of _ ?z] exI [of _ "ce_lfh_offset e + of_nat (length pre)"]) simp
qed

text \<open>
  An archive written field by field, with data before it if any, whose i-th header describes a
  stored, unencrypted entry, opens; opening that entry by its index gives a file which, read to the
  end, yields exactly the bytes written after the entry's local header when their CRC-32 is the one
  in the header, and the CRC mismatch error when it is not.
\<close>

theorem stored_entry_extracted:
  assumes "archive_ok pre (a @ encode_local l @ data @ b) hs comment" and "entries_of hs = Ok es"
    and "\<forall>e \<in> set es. unat (ce_lfh_offset e) + length pre < 2 ^ 64"
    and "i < length es" and "es ! i = e" and "local_ok l" and "ce_lfh_offset e = of_nat (length a)"
    and "unat (ce_compressed_size e) = length data" and "ce_method e = Stored"
    and "\<not> has_bits (ce_flags e) 1" and "ce_disk_start e = 0"
    and "crc_chunked (x_crc E)" and "\<And>j. 0 < x_sizes E j"
    and "length (encode_archive pre (a @ encode_local l @ data @ b) hs comment) < 2 ^ 63"
  shows "\<exists>archive f. ZipArchive_new (cursor_new (encode_archive pre (a @ encode_local l @ data @ b) hs comment)) =
      Ok archive \<and> by_index E archive i = Some (Ok f) \<and>
    read_entry E f = Some (if crc_of (x_crc E) data = ce_crc32 e then Ok data
      else Err (IoOther (CrcMismatchError (ce_name e) (ce_crc32 e) (crc_of (x_crc E) data))))"
proof -
  from written_entry_placed [OF assms(1-8,11,14)] obtain archive off where
    a: "ZipArchive_new (cursor_new (encode_archive pre (a @ encode_local l @ data @ b) hs comment)) = Ok archive"
      "i < length (za_entries archive)" "za_entries archive ! i = e\<lparr>ce_lfh_offset := off\<rparr>"
      "placed (za_reader archive) (e\<lparr>ce_lfh_offset := off\<rparr>) data" "on_one_disk archive (e\<lparr>ce_lfh_offset := off\<rparr>)"
    by blast
  from archive_open_stored [OF a(4,5) _ _ assms(12,13)] assms(9,10) obtain f where
    "archive_open E archive (e\<lparr>ce_lfh_offset := off\<rparr>) = Some (Ok f)"
    "read_entry E f = Some (crc_verdict E (e\<lparr>ce_lfh_offset := off\<rparr>) True data)" by auto
  with a(1-3) show ?thesis by (auto simp: by_index_def entry_at_def crc_verdict_def)
qed

text \<open>The third-party crates instantiated: the bytewise CRC-32 and the sample ciphers and decoders.\<close>

definition sample_externals :: "(u32, u8, u8, u8 list, (u8, u8, u8 list) boxed) externals" where
  "sample_externals = \<lparr> x_crc = bytewise_crc, x_aes = counter_lib, x_strong = chain_lib,
     x_codec = raw_lib, x_sizes = (\<lambda>_. 1) \<rparr>"

text \<open>A stored entry \<open>a.b\<close> with the one byte \<open>0xFF\<close> behind one byte of foreign data.\<close>

definition extract_local :: local_header where
  "extract_local = \<lparr> l_version_needed = 20, l_flags = 0, l_method = 0, l_mod_time = 0, l_mod_date = 0,
     l_crc32 = 0xFF000000, l_compressed32 = 1, l_uncompressed32 = 1, l_name = [97, 46, 98], l_extra = [] \<rparr>"

definition extract_header :: cd_header where
  "extract_header = sample_header\<lparr>h_crc32 := 0xFF000000, h_compressed32 := 1, h_uncompressed32 := 1\<rparr>"

lemma extract_ok: "archive_ok [1] ([] @ encode_local extract_local @ [0xFF] @ []) [extract_header] []"
  by (simp add: archive_ok_def comment_ok_def header_ok_def encode_archive_def directory_def
      archive_eocd_def encode_eocd_def encode_header_def encode_fixed_def sample_header_def
      extract_header_def extract_local_def encode_local_def le_eval)

lemma extract_entries: "\<exists>e. entries_of [extract_header] = Ok [e] \<and> ce_lfh_offset e = 0 \<and>
    ce_compressed_size e = 1 \<and> ce_method e = Stored \<and> ce_flags e = 0 \<and> ce_disk_start e = 0 \<and>
    ce_crc32 e = 0xFF000000"
  by (simp add: entry_of_plain sample_header_def extract_header_def method_from_u16_def)

lemma crc_sample: "crc_of bytewise_crc [0xFF] = 0xFF000000"
  by code_simp

theorem stored_entry_extracted_witness:
  "\<exists>archive f. ZipArchive_new (cursor_new (encode_archive [1] ([] @ encode_local extract_local @ [0xFF] @ [])
      [extract_header] [])) = Ok archive \<and> by_index sample_externals archive 0 = Some (Ok f) \<and>
    read_entry sample_externals f = Some (Ok [0xFF])"
proof -
  from extract_entries obtain e where e: "entries_of [extract_header] = Ok [e]" "ce_lfh_offset e = 0"
    "ce_compressed_size e = 1" "ce_method e = Stored" "ce_flags e = 0" "ce_disk_start e = 0"
    "ce_crc32 e = 0xFF000000" by blast
  have x: "x_crc sample_externals = bytewise_crc" "x_sizes sample_externals = (\<lambda>_. 1)"
    by (simp_all add: sample_externals_def)
  have "length (encode_archive [1] ([] @ encode_local extract_local @ [0xFF] @ []) [extract_header] []) < 2 ^ 63"
    by (simp add: encode_archive_def directory_def length_encode_header length_archive_eocd
        extract_local_def extract_header_def sample_header_def)
  from stored_entry_extracted [where E = sample_externals and i = 0, OF extract_ok e(1) _ _ _ _ _ _ e(4) _ e(6) _ _ this] e
  show ?thesis by (simp add: x crc_chunked_bytewise crc_sample local_ok_def extract_local_def has_bits_def)
qed

section \<open>Encrypted entries\<close>

lemma by_index_decrypt_at:
  "i < length (za_entries a) \<Longrightarrow> by_index_decrypt E a i password = open_decrypt E a (za_entries a ! i) password"
  by (simp add: by_index_decrypt_def entry_at_def)

lemma open_decrypt_zipcrypto:
  assumes "on_one_disk a m" and "has_bits (ce_flags m) 1" and "ce_aes m = None"
    and "\<not> has_bits (ce_flags m) 0x2000" and "\<not> has_bits (ce_flags m) 0x0040"
    and "entry_data m (za_reader a) = Ok (ds, t)"
    and "ZipCryptoReader_new file_read t password
      (zipcrypto_check_byte (ce_flags m) (ce_crc32 m) (ce_last_mod_time m)) (ce_name m) = Ok r"
  shows "open_decrypt E a m password = make_zip_file E m ds (ce_method m) True (BoxZipCrypto r)"
  using assms by (simp add: open_decrypt_def check_local_disk_one)

lemma open_decrypt_aes:
  assumes "on_one_disk a m" and "ce_aes m = Some aes" and "\<not> has_bits (ce_flags m) 0x2000"
    and "entry_data m (za_reader a) = Ok (ds, t)"
  shows "open_decrypt E a m password =
    bind_opt (AesReader_new (x_aes E) file_read t password aes (ce_compressed_size m) (ce_name m))
      (\<lambda>r. make_zip_file E m ds (method_from_u16 (actual_method aes)) (\<not> is_ae2 aes) (BoxAes r))"
  using assms by (simp add: open_decrypt_def check_local_disk_one)

text \<open>An archive with one entry at its start, for the witnesses.\<close>

definition one_entry :: "u16 \<Rightarrow> u32 \<Rightarrow> aes_info option \<Rightarrow> nat \<Rightarrow> central_entry" where
  "one_entry flags crc aes len = \<lparr> ce_name = [97], ce_method = Stored, ce_flags = flags, ce_crc32 = crc,
     ce_compressed_size = of_nat len, ce_uncompressed_size = 0, ce_lfh_offset = 0, ce_last_mod_time = 0,
     ce_aes = aes, ce_disk_start = 0, ce_extra = extra_fields_default \<rparr>"

definition one_archive :: "central_entry \<Rightarrow> u8 list \<Rightarrow> zip_archive" where
  "one_archive m data = \<lparr> za_reader = cursor_new (encode_local extract_local @ data), za_entries = [m],
     za_summary = \<lparr> file_len = 0, central_dir_offset = 0, central_dir_size = 0, eocd_end_offset = 0,
       comment_len = 0, disk_number = 0, cd_start_disk = 0, archive_signature_len = None \<rparr> \<rparr>"

lemma one_archive_simps [simp]:
  "za_entries (one_archive m data) = [m]"
  "ce_disk_start m = 0 \<Longrightarrow> on_one_disk (one_archive m data) m"
  by (simp_all add: one_archive_def on_one_disk_def)

lemma one_entry_simps [simp]:
  "ce_name (one_entry flags crc aes len) = [97]" "ce_method (one_entry flags crc aes len) = Stored"
  "ce_flags (one_entry flags crc aes len) = flags" "ce_crc32 (one_entry flags crc aes len) = crc"
  "ce_last_mod_time (one_entry flags crc aes len) = 0" "ce_aes (one_entry flags crc aes len) = aes"
  "ce_disk_start (one_entry flags crc aes len) = 0"
  by (simp_all add: one_entry_def)

lemma one_placed:
  assumes "length data < 2 ^ 32"
  shows "placed (za_reader (one_archive (one_entry flags crc aes (length data)) data))
    (one_entry flags crc aes (length data)) data"
proof (rule placedI [where pre = "[]" and h = extract_local and post = "[]"])
  show "unat (ce_compressed_size (one_entry flags crc aes (length data))) = length data"
    using assms by (simp add: one_entry_def unat_of_nat64)
qed (use assms in \<open>simp_all add: one_archive_def one_entry_def local_ok_def extract_local_def\<close>)

lemma sample_externals_simps [simp]:
  "x_crc sample_externals = bytewise_crc" "x_sizes sample_externals = (\<lambda>_. 1)"
  "x_aes sample_externals = counter_lib" "x_strong sample_externals = chain_lib"
  by (simp_all add: sample_externals_def)

text \<open>
  Opening a stored entry by index with a password, where the entry's data is the ZipCrypto
  encryption under that password of a 12-byte header, ending in the check byte of the entry, and of
  some plaintext, gives a file which, read to the end, yields the plaintext when its CRC-32 is the
  recorded one and the mismatch error when it is not.
\<close>

theorem zipcrypto_entry_extracted:
  assumes "placed (za_reader a) m (encrypt_bytes (password_keys password) (header @ plain))"
    and "i < length (za_entries a)" and "za_entries a ! i = m" and "on_one_disk a m"
    and "has_bits (ce_flags m) 1" and "ce_aes m = None" and "\<not> has_bits (ce_flags m) 0x2000"
    and "\<not> has_bits (ce_flags m) 0x0040" and "ce_method m = Stored" and "length header = 12"
    and "last header = zipcrypto_check_byte (ce_flags m) (ce_crc32 m) (ce_last_mod_time m)"
    and "crc_chunked (x_crc E)" and "\<And>j. 0 < x_sizes E j"
  shows "\<exists>f. by_index_decrypt E a i password = Some (Ok f) \<and>
    read_entry E f = Some (if crc_of (x_crc E) plain = ce_crc32 m then Ok plain
      else Err (IoOther (CrcMismatchError (ce_name m) (ce_crc32 m) (crc_of (x_crc E) plain))))"
proof -
  from entry_data_placed [OF assms(1)] obtain ds t where t: "entry_data m (za_reader a) = Ok (ds, t)"
    "window t = encrypt_bytes (password_keys password) (header @ plain)" by blast
  from zipcrypto_reads [where entry = "ce_name m" and sizes = "x_sizes E", OF t(2) assms(10,11,13)] obtain r r' where
    r: "ZipCryptoReader_new file_read t password
      (zipcrypto_check_byte (ce_flags m) (ce_crc32 m) (ce_last_mod_time m)) (ce_name m) = Ok r"
    "read_to_end (zipcrypto_read file_read) (x_sizes E) 0 [] r = Some (Ok plain, r')" by blast
  have small: "length plain < 2 ^ 64" using assms(1,10) by (auto simp: placed_def)
  from open_decrypt_zipcrypto [OF assms(4-8) t(1) r(1)] assms(2,3,9)
  have "by_index_decrypt E a i password = Some (Ok (fresh_file E m ds True (StoredDecoder (BoxZipCrypto r))))"
    by (simp add: by_index_decrypt_at make_zip_file_Stored)
  moreover from read_fresh_file [OF stored_over_box [where F = BoxZipCrypto, OF r(2) boxed_read_simps(2)] assms(12) small]
  have "read_entry E (fresh_file E m ds True (StoredDecoder (BoxZipCrypto r))) = Some (crc_verdict E m True plain)" .
  ultimately show ?thesis by (auto simp: crc_verdict_def)
qed

theorem zipcrypto_entry_extracted_witness:
  "\<exists>f. by_index_decrypt sample_externals
      (one_archive (one_entry 1 0xFF000000 None 13)
        (encrypt_bytes (password_keys [1, 2]) ((replicate 11 0 @ [0xFF]) @ [0xFF]))) 0 [1, 2] = Some (Ok f) \<and>
    read_entry sample_externals f = Some (Ok [0xFF])"
proof -
  let ?header = "replicate 11 0 @ [0xFF] :: u8 list"
  let ?data = "encrypt_bytes (password_keys [1, 2]) (?header @ [0xFF])"
  have len: "length ?data = 13" by simp
  have "placed (za_reader (one_archive (one_entry 1 0xFF000000 None 13) ?data))
      (one_entry 1 0xFF000000 None 13) ?data"
    using one_placed [where data = ?data and flags = 1 and crc = "0xFF000000" and aes = None] unfolding len by simp
  from zipcrypto_entry_extracted [where i = 0 and E = sample_externals, OF this] show ?thesis
    by (simp add: has_bits_def zipcrypto_check_byte_def crc_sample crc_chunked_bytewise)
qed

text \<open>An AES reader hands out no more than the ciphertext it has left.\<close>

definition over_aes :: "(('c, 'm, 'd) boxed, 'x) decoder \<Rightarrow> bool" where
  "over_aes d \<longleftrightarrow> (\<exists>r. d = StoredDecoder (BoxAes r))"

fun aes_owed :: "(('c, 'm, 'd) boxed, 'x) decoder \<Rightarrow> nat" where
  "aes_owed (StoredDecoder (BoxAes r)) = unat (ar_remaining r)"
| "aes_owed _ = 0"

lemma aes_read_owed:
  assumes "aes_lib_ok L" and "aes_read L file_read n r = (Ok bs, r')"
  shows "length bs + unat (ar_remaining r') \<le> unat (ar_remaining r)"
proof (cases "ar_remaining r = 0")
  case True
  with assms(2) show ?thesis
    by (auto simp: aes_read_def seq_eq_Ok aes_finish_def split: if_splits prod.splits outcome.splits)
next
  case False
  then obtain cs i where cs: "take_read cursor_read (min n (unat (ar_remaining r))) (ar_inner r) = (Ok cs, i)"
    "length (fst (ctr_apply L (ar_cipher r) cs)) = length bs"
    "of_nat (length cs) \<le> ar_remaining r" "ar_remaining r' = ar_remaining r - of_nat (length cs)"
    using assms(2) by (auto simp: aes_read_def sub64_def split: if_splits prod.splits outcome.splits)
  then have "length cs \<le> unat (ar_remaining r)"
    by (auto simp: take_read_def cursor_read_def Let_def split: if_splits prod.splits outcome.splits)
  moreover from this have "unat (of_nat (length cs) :: u64) = length cs"
    by (intro unat_of_nat64) (rule le_less_trans [OF _ unat_lt64])
  ultimately show ?thesis
    using cs aes_lib_okD(2) [OF assms(1), of "ar_cipher r" cs] by (simp add: unat_sub)
qed

lemma read_fresh_aes:
  assumes "aes_lib_ok (x_aes E)" and "crc_chunked (x_crc E)" and "length out < 2 ^ 64"
    and "read_to_end (aes_read (x_aes E) file_read) (x_sizes E) 0 [] r =
      Some (if good then Ok out else Err (IoOther err), r')"
  shows "read_entry E (fresh_file E m ds verify (StoredDecoder (BoxAes r))) =
    Some (if good then crc_verdict E m verify out else Err (IoOther err))"
proof -
  let ?f = "fresh_file E m ds verify (StoredDecoder (BoxAes r))"
  note over = stored_over_box [where F = BoxAes, OF assms(4) boxed_read_simps(3)]
  show ?thesis
  proof (cases good)
    case True
    with read_fresh_file [OF _ assms(2,3)] over show ?thesis by auto
  next
    case False
    have "\<exists>f'. read_to_end (zip_file_read E) (x_sizes E) 0 [] ?f = Some (Err (IoOther err), f')"
    proof (rule zip_file_read_to_end_Err [where I = over_aes and owed = aes_owed, OF _ assms(2)])
      show "fed E ?f []" using assms(2) by (simp add: fed_def fresh_file_def crc_chunked_def)
      show "length [] + aes_owed (zf_decoder ?f) < 2 ^ 64" by (simp add: fresh_file_def)
    qed (use over False assms(1) in \<open>auto simp: fresh_file_def over_aes_def decoder_read_def boxed_read_def
        lift_read_def aes_read_owed split: prod.splits\<close>)
    with False show ?thesis by (auto simp: read_entry_def)
  qed
qed

text \<open>
  C21: Opening a stored WinZip AES entry by index with a password fails with the wrong-password error
  when the stored verifier is not the derived one. Otherwise the file opens and, read to the end,
  gives the decrypted ciphertext only if the authentication code is that of the whole ciphertext
  and, for AE-1, the CRC-32 of the plaintext is the recorded one; an AE-2 entry's CRC field is
  never compared.
\<close>

theorem aes_entry_extracted:
  assumes "placed (za_reader a) m (salt @ pv @ ct @ code)"
    and "i < length (za_entries a)" and "za_entries a ! i = m" and "on_one_disk a m"
    and "ce_aes m = Some aes" and "\<not> has_bits (ce_flags m) 0x2000" and "actual_method aes = 0"
    and "length salt = salt_len (strength aes)" and "length pv = 2" and "length code = 10"
    and "aes_lib_ok (x_aes E)" and "crc_chunked (x_crc E)" and "\<And>j. 0 < x_sizes E j"
  shows "if pv \<noteq> aes_verifier (x_aes E) password aes salt
    then by_index_decrypt E a i password = Some (Err (WrongPassword (ce_name m)))
    else \<exists>f. by_index_decrypt E a i password = Some (Ok f) \<and>
      read_entry E f = Some (if code = aes_code (x_aes E) password aes salt ct
        then crc_verdict E m (\<not> is_ae2 aes) (aes_plain (x_aes E) password aes salt ct)
        else Err (IoOther (WrongPassword (ce_name m))))"
proof -
  let ?L = "x_aes E"
  from entry_data_placed [OF assms(1)] obtain ds t where t: "entry_data m (za_reader a) = Ok (ds, t)"
    "window t = salt @ pv @ ct @ code" by blast
  have open_: "by_index_decrypt E a i password =
      bind_opt (AesReader_new ?L file_read t password aes (ce_compressed_size m) (ce_name m))
        (\<lambda>r. Some (Ok (fresh_file E m ds (\<not> is_ae2 aes) (StoredDecoder (BoxAes r)))))"
    using open_decrypt_aes [OF assms(4-6) t(1)] assms(2,3,7)
    by (simp add: by_index_decrypt_at make_zip_file_Stored method_from_u16_def)
  have sz: "unat (ce_compressed_size m) = length (salt @ pv @ ct @ code)"
    and small: "length (salt @ pv @ ct @ code) < 2 ^ 64" using assms(1) by (auto simp: placed_def)
  note reads = aes_reads [where password = password and sizes = "x_sizes E" and entry = "ce_name m",
      OF assms(11) t(2) assms(8-10) sz assms(13)]
  show ?thesis
  proof (cases "pv = aes_verifier ?L password aes salt")
    case False
    with reads open_ show ?thesis by simp
  next
    case True
    with reads obtain r r' where r: "AesReader_new ?L file_read t password aes (ce_compressed_size m) (ce_name m) = Ok r"
      "read_to_end (aes_read ?L file_read) (x_sizes E) 0 [] r =
        Some (if code = aes_code ?L password aes salt ct then Ok (aes_plain ?L password aes salt ct)
              else Err (IoOther (WrongPassword (ce_name m))), r')" by auto
    have "length (aes_plain ?L password aes salt ct) = length ct"
      by (simp add: aes_plain_def aes_lib_okD(2) [OF assms(11)])
    with small have "length (aes_plain ?L password aes salt ct) < 2 ^ 64" by simp
    note read_fresh_aes [OF assms(11,12) this r(2)]
    with True r(1) open_ show ?thesis by simp
  qed
qed

theorem aes_entry_extracted_witness:
  "\<exists>f. by_index_decrypt sample_externals
      (one_archive (one_entry 1 0 (Some \<lparr> strength = 1, actual_method = 0, is_ae2 = True \<rparr>) 22)
        (replicate 8 0 @ [3, 3] @ [1, 2] @ replicate 10 3)) 0 [9] = Some (Ok f) \<and>
    read_entry sample_externals f = Some (Ok [4, 4])"
proof -
  let ?info = "\<lparr> strength = 1, actual_method = 0, is_ae2 = True \<rparr>"
  let ?data = "replicate 8 0 @ [3, 3] @ [1, 2] @ replicate 10 3 :: u8 list"
  have len: "length ?data = 22" by simp
  have "placed (za_reader (one_archive (one_entry 1 0 (Some ?info) 22) ?data))
      (one_entry 1 0 (Some ?info) 22) ?data"
    using one_placed [where data = ?data and flags = 1 and crc = 0 and aes = "Some ?info"] unfolding len by simp
  moreover have "aes_verifier counter_lib [9] ?info (replicate 8 0) = [3, 3]"
    "aes_code counter_lib [9] ?info (replicate 8 0) [1, 2] = replicate 10 3"
    "aes_plain counter_lib [9] ?info (replicate 8 0) [1, 2] = [4, 4]"
    by code_simp+
  ultimately show ?thesis
    using aes_entry_extracted [where i = 0 and E = sample_externals and password = "[9]" and aes = ?info
        and salt = "replicate 8 0" and pv = "[3, 3]" and ct = "[1, 2]" and code = "replicate 10 3"
        and m = "one_entry 1 0 (Some ?info) 22" and a = "one_archive (one_entry 1 0 (Some ?info) 22) ?data"]
    by (simp add: has_bits_def salt_len_def crc_chunked_bytewise counter_lib_ok crc_verdict_def)
qed

section \<open>The integrity check and empty reads\<close>

text \<open>
  C33: A read with an empty buffer from a freshly opened stored entry already runs the integrity
  check, on no bytes: unless the recorded CRC-32 is that of the empty string it fails with the
  mismatch error, though the entry may be sound; and in either case reading the file to its end
  afterwards returns its bytes without any check, though they may be corrupt.
\<close>

theorem empty_read_skips_crc:
  assumes "placed (za_reader a) m data" and "on_one_disk a m" and "\<not> has_bits (ce_flags m) 1"
    and "ce_method m = Stored" and "i < length (za_entries a)" and "za_entries a ! i = m"
    and "crc_chunked (x_crc E)" and "\<And>j. 0 < x_sizes E j"
  shows "\<exists>f f'. by_index E a i = Some (Ok f) \<and>
    zip_file_read E 0 f = (if crc_of (x_crc E) [] = ce_crc32 m then Ok []
      else Err (IoOther (CrcMismatchError (ce_name m) (ce_crc32 m) (crc_of (x_crc E) []))), f') \<and>
    read_entry E f' = Some (Ok data)"
proof -
  from entry_data_placed [OF assms(1)] obtain ds t where
    t: "entry_data m (za_reader a) = Ok (ds, t)" "window t = data" by blast
  let ?d = "StoredDecoder (BoxTake t)" and ?f = "fresh_file E m ds True (StoredDecoder (BoxTake t))"
  have fed: "fed E ?f []" using assms(7) by (simp add: fed_def fresh_file_def crc_chunked_def)
  have opened: "by_index E a i = Some (Ok ?f)"
    using assms(3-6) t(1)
    by (simp add: by_index_def entry_at_def archive_open_def check_local_disk_one [OF assms(2)] make_zip_file_Stored)
  have "decoder_read (x_codec E) (boxed_read E) 0 ?d = (Ok [], ?d)"
    by (simp add: decoder_read_def boxed_read_def lift_read_def take_read_def cursor_read_def)
  then have zero: "zip_file_read E 0 ?f = (and_then (crc_verdict E m True []) (\<lambda>_. Ok []),
      ?f\<lparr>zf_decoder := ?d, zf_verified := True\<rparr>)"
    using zip_file_read_end [of E 0 ?f ?d "[]"] fed by (simp add: fresh_file_def fed_def)
  let ?f' = "?f\<lparr>zf_decoder := ?d, zf_verified := True\<rparr>"
  from win.read_to_end_content [where s = t and sizes = "x_sizes E" and i = 0 and acc = "[]", OF TrueI assms(8)] t(2)
  obtain t' where "read_to_end file_read (x_sizes E) 0 [] t = Some (Ok data, t')" by auto
  from stored_over_box [OF this, where F = BoxTake, OF boxed_read_simps(1)]
  have "read_to_end (decoder_read (x_codec E) (boxed_read E)) (x_sizes E) 0 [] (zf_decoder ?f') =
    Some (Ok data, StoredDecoder (BoxTake t'))" by simp
  moreover have "fed E ?f' []" using fed by (simp add: fed_def fresh_file_def)
  moreover have "length data < 2 ^ 64" using assms(1) by (auto simp: placed_def)
  ultimately obtain f'' where "read_to_end (zip_file_read E) (x_sizes E) 0 [] ?f' =
      Some (crc_verdict E m (True \<and> \<not> True) data, f'')"
    using zip_file_read_to_end [OF _ assms(7), where f = ?f' and i = 0 and acc = "[]"] by (fastforce simp: fresh_file_def)
  then have "read_entry E ?f' = Some (Ok data)" by (simp add: read_entry_def crc_verdict_def)
  with opened zero show ?thesis by (auto simp: crc_verdict_def)
qed

theorem empty_read_skips_crc_witness:
  "\<exists>f f' e. by_index sample_externals (one_archive (one_entry 0 7 None 1) [0xFF]) 0 = Some (Ok f) \<and>
    zip_file_read sample_externals 0 f = (Err e, f') \<and> read_entry sample_externals f' = Some (Ok [0xFF])"
proof -
  have "placed (za_reader (one_archive (one_entry 0 7 None 1) [0xFF])) (one_entry 0 7 None 1) [0xFF]"
    using one_placed [where data = "[0xFF]" and flags = 0 and crc = 7 and aes = None] by simp
  moreover have "crc_of bytewise_crc [] = 0" by (simp add: crc_of_def bytewise_crc_def)
  ultimately show ?thesis
    using empty_read_skips_crc [where i = 0 and E = sample_externals and m = "one_entry 0 7 None 1"
        and a = "one_archive (one_entry 0 7 None 1) [0xFF]" and data = "[0xFF]"]
    by (auto simp: has_bits_def crc_chunked_bytewise)
qed

section \<open>Lookup and dispatch\<close>

text \<open>
  C34: Opening by name, with or without a password, is opening by index the first entry of that name,
  and an unknown name is refused with the error that carries it.
\<close>

theorem by_name_first:
  "(\<forall>i < length (za_entries a). ce_name (za_entries a ! i) = name \<longrightarrow>
      (\<forall>j < i. ce_name (za_entries a ! j) \<noteq> name) \<longrightarrow>
      by_name E a name = by_index E a i \<and> by_name_decrypt E a name password = by_index_decrypt E a i password) \<and>
   (name \<notin> set (file_names a) \<longrightarrow> by_name E a name = Some (Err (EntryNotFound name)) \<and>
      by_name_decrypt E a name password = Some (Err (EntryNotFound name)))"
proof -
  have "entry_named a name = entry_at a i" if "i < length (za_entries a)" "ce_name (za_entries a ! i) = name"
    "\<forall>j < i. ce_name (za_entries a ! j) \<noteq> name" for i
  proof -
    from that have "List.find (\<lambda>e. ce_name e = name) (za_entries a) = Some (za_entries a ! i)"
      by (auto simp: find_Some_iff)
    with that(1) show ?thesis by (simp add: entry_named_def entry_at_def)
  qed
  moreover have "entry_named a name = Err (EntryNotFound name)" if "name \<notin> set (file_names a)"
  proof -
    from that have "List.find (\<lambda>e. ce_name e = name) (za_entries a) = None"
      by (auto simp: find_None_iff file_names_def)
    then show ?thesis by (simp add: entry_named_def)
  qed
  ultimately show ?thesis
    by (simp add: by_name_def by_index_def by_name_decrypt_def by_index_decrypt_def)
qed

theorem by_name_first_witness:
  "by_name sample_externals (one_archive (one_entry 0 7 None 1) [0xFF]) [97] =
     by_index sample_externals (one_archive (one_entry 0 7 None 1) [0xFF]) 0 \<and>
   by_name sample_externals (one_archive (one_entry 0 7 None 1) [0xFF]) [98] = Some (Err (EntryNotFound [98]))"
  using by_name_first [where a = "one_archive (one_entry 0 7 None 1) [0xFF]" and E = sample_externals and name = "[97]"]
    by_name_first [where a = "one_archive (one_entry 0 7 None 1) [0xFF]" and E = sample_externals and name = "[98]"]
  by (simp add: file_names_def)

text \<open>
  \<open>fails_in P m\<close>: every error of \<open>m\<close> satisfies \<open>P\<close>. The errors of reading local headers and
  of starting a decoder are I/O, format, method and stream errors only.
\<close>

definition fails_in :: "('e \<Rightarrow> bool) \<Rightarrow> ('s, 'a, 'e) act \<Rightarrow> bool" where
  "fails_in P m \<longleftrightarrow> (\<forall>s e s'. m s = (Err e, s') \<longrightarrow> P e)"

lemma fails_inD: "fails_in P m \<Longrightarrow> fst (m s) = Err e \<Longrightarrow> P e"
  by (cases "m s") (auto simp: fails_in_def)

lemma fails_in_seq: "fails_in P m \<Longrightarrow> (\<And>a. fails_in P (f a)) \<Longrightarrow> fails_in P (seq m f)"
  unfolding fails_in_def seq_def by (fastforce split: prod.splits outcome.splits)

lemma fails_in_simps [simp]:
  "fails_in P (ret a)" "fails_in P (fail e) \<longleftrightarrow> P e"
  "fails_in P (lift_outcome v) \<longleftrightarrow> (\<forall>e. v = Err e \<longrightarrow> P e)"
  "fails_in P (if b then m else m') \<longleftrightarrow> (if b then fails_in P m else fails_in P m')"
  by (auto simp: fails_in_def)

lemma map_err_Err [simp]: "map_err g v = Err e \<longleftrightarrow> (\<exists>e'. v = Err e' \<and> e = g e')"
  by (cases v) auto

lemma fails_in_with_err: "(\<And>e. P (g e)) \<Longrightarrow> fails_in P (with_err g m)"
  by (auto simp: fails_in_def with_err_def split: prod.splits)

fun stream_error :: "zip_core_error \<Rightarrow> bool" where
  "stream_error (Io e) = True"
| "stream_error (Format e) = True"
| "stream_error (UnsupportedMethod m) = True"
| "stream_error (Malformed n r) = True"
| "stream_error _ = False"

lemma add64_not_Err [simp]: "add64 a b \<noteq> Err e"
  by (simp add: add64_def)

lemma fails_parse_lfh: "fails_in stream_error (parse_lfh_fixed off)"
  unfolding parse_lfh_fixed_def by (intro fails_in_seq fails_in_with_err) (auto intro: fails_in_with_err)

lemma fails_read_lfh: "fails_in stream_error (read_lfh_fields off)"
proof -
  have "fst (parse_lfh_fixed off r) = Err e \<Longrightarrow> stream_error e" for r e
    by (rule fails_inD [OF fails_parse_lfh])
  then show ?thesis
    unfolding read_lfh_fields_def by (intro fails_in_seq fails_in_with_err) auto
qed

lemma entry_data_Err: "entry_data m c = Err e \<Longrightarrow> stream_error e"
proof -
  have "fails_in stream_error (seq (read_lfh_fields (ce_lfh_offset m)) (\<lambda>(local, data_start).
          seq (with_err Io (seek_start data_start)) (\<lambda>_ c'.
            (Ok (data_start, take_new c' (ce_compressed_size m)), c'))))"
    by (intro fails_in_seq fails_read_lfh, clarify, intro fails_in_seq fails_in_with_err) (simp_all add: fails_in_def)
  from fails_inD [OF this] show "entry_data m c = Err e \<Longrightarrow> stream_error e"
    unfolding entry_data_def .
qed

lemma Decoder_new_Err: "Decoder_new L rd sizes meth n input = Some (Err e) \<Longrightarrow> stream_error e"
proof -
  have b: "buffered v = Err e \<longleftrightarrow> v = Err e" for v
    by (cases v) (auto simp: buffered_def)
  have io: "map_err Io v = Err e \<Longrightarrow> stream_error e" for v :: "(u8 list, io_error) outcome"
    by (cases v) auto
  have run: "run_one_shot t r cap = Err e \<Longrightarrow> stream_error e" for t r cap
    by (auto simp: run_one_shot_def split: prod.splits outcome.splits option.splits)
  have sl: "slice_from d k \<noteq> Err e" "u16_at d k \<noteq> Err e" for d k
    by (simp_all add: slice_from_def slice_def u16_at_def slice_get_def)
  have lz: "decode_zip_lzma L raw n = Err e \<Longrightarrow> stream_error e" for raw
    by (auto simp: decode_zip_lzma_def and_then_eq_Err sl dest: run split: if_splits)
  show "Decoder_new L rd sizes meth n input = Some (Err e) \<Longrightarrow> stream_error e"
    by (cases meth)
      (auto simp: Decoder_new_def b and_then_eq_Err dest: io run lz split: outcome.splits)
qed

lemma make_zip_file_Err: "make_zip_file E m ds meth verify b = Some (Err e) \<Longrightarrow> stream_error e"
  by (auto simp: make_zip_file_def and_then_eq_Err dest: Decoder_new_Err)

text \<open>
  Opening by index without a password fails with an index error exactly past the end, with the
  spanned-archive error exactly when one of the entry's three disk numbers is not zero, and with the
  no-password error exactly when the entry is marked encrypted; every other failure is an I/O,
  format, method or stream error.
\<close>

theorem by_index_errors:
  "(by_index E a i = Some (Err (IndexOutOfBounds k)) \<longleftrightarrow> length (za_entries a) \<le> i \<and> k = i) \<and>
   ((\<exists>d. by_index E a i = Some (Err (SpannedArchive n d))) \<longleftrightarrow>
      i < length (za_entries a) \<and> \<not> on_one_disk a (za_entries a ! i) \<and> n = ce_name (za_entries a ! i)) \<and>
   (by_index E a i = Some (Err (EncryptedNoPassword n)) \<longleftrightarrow>
      i < length (za_entries a) \<and> on_one_disk a (za_entries a ! i) \<and>
      has_bits (ce_flags (za_entries a ! i)) 1 \<and> n = ce_name (za_entries a ! i)) \<and>
   by_index E a i \<noteq> Some (Err (EntryNotFound n)) \<and> by_index E a i \<noteq> Some (Err (WrongPassword n))"
proof (cases "i < length (za_entries a)")
  case False
  then show ?thesis by (auto simp: by_index_def entry_at_def)
next
  case True
  define m where "m = za_entries a ! i"
  show ?thesis
  proof (cases "on_one_disk a m")
    case False
    then have "\<exists>d. check_local_disk m (disk_number (za_summary a)) (cd_start_disk (za_summary a)) =
        Err (SpannedArchive (ce_name m) d)"
      by (auto simp: on_one_disk_def check_local_disk_def)
    with True False show ?thesis by (auto simp: by_index_def entry_at_def archive_open_def m_def)
  next
    case one: True
    show ?thesis
    proof (cases "has_bits (ce_flags m) 1")
      case True
      with one \<open>i < _\<close> show ?thesis
        by (auto simp: by_index_def entry_at_def archive_open_def check_local_disk_one m_def)
    next
      case False
      have "stream_error e" if "by_index E a i = Some (Err e)" for e
      proof (cases "entry_data m (za_reader a)")
        case (Ok p)
        with that one False \<open>i < _\<close> show ?thesis
          by (auto simp: by_index_def entry_at_def archive_open_def check_local_disk_one m_def [symmetric]
            dest: make_zip_file_Err split: prod.splits)
      qed (use that one False \<open>i < _\<close> in \<open>auto simp: by_index_def entry_at_def archive_open_def
          check_local_disk_one m_def [symmetric] dest: entry_data_Err\<close>)
      with one False \<open>i < _\<close> show ?thesis by (fastforce simp: m_def)
    qed
  qed
qed

text \<open>
  With a password, an entry that is neither marked encrypted nor an AES entry opens exactly as
  without one; of the others, masked ones (flag bit 13) are refused as unsupported, whatever their
  data.
\<close>

theorem decrypt_dispatch:
  assumes "i < length (za_entries a)" and "za_entries a ! i = m" and "on_one_disk a m"
  shows "(\<not> has_bits (ce_flags m) 1 \<and> ce_aes m = None \<longrightarrow> by_index_decrypt E a i password = by_index E a i) \<and>
    ((has_bits (ce_flags m) 1 \<or> ce_aes m \<noteq> None) \<and> has_bits (ce_flags m) 0x2000 \<longrightarrow>
      by_index_decrypt E a i password = Some (Err (UnsupportedEncryption (ce_name m)
        (lit ''masked / central-directory encryption (GP flag bit 13)''))))"
  using assms by (auto simp: by_index_decrypt_at open_decrypt_def check_local_disk_one by_index_def entry_at_def)

theorem decrypt_dispatch_witness:
  "by_index_decrypt sample_externals (one_archive (one_entry 0 0 None 0) []) 0 [1] =
     by_index sample_externals (one_archive (one_entry 0 0 None 0) []) 0 \<and>
   by_index_decrypt sample_externals (one_archive (one_entry 0x2001 0 None 0) []) 0 [1] =
     Some (Err (UnsupportedEncryption [97] (lit ''masked / central-directory encryption (GP flag bit 13)'')))"
  using decrypt_dispatch [where i = 0 and a = "one_archive (one_entry 0 0 None 0) []" and m = "one_entry 0 0 None 0"
      and E = sample_externals and password = "[1]"]
    decrypt_dispatch [where i = 0 and a = "one_archive (one_entry 0x2001 0 None 0) []" and m = "one_entry 0x2001 0 None 0"
      and E = sample_externals and password = "[1]"]
  by (simp add: has_bits_def)

end
