(* ===== verification/Strings.thy ===== *)
theory Strings
  imports Container EntryName
begin

text \<open>
  Rust's \<open>String\<close> holds Unicode scalar values only. The model's strings are lists of code points, so
  that is a typing property to be shown: every decoder of the crate returns such lists, and so every
  string of an opened archive is one.
\<close>

section \<open>Decoded strings\<close>

abbreviation scalars :: "rstring \<Rightarrow> bool" where
  "scalars s \<equiv> list_all is_scalar s"

lemma offset_form:
  fixes b :: nat
  assumes "lo \<le> b" and "b \<le> lo + n"
  obtains y where "b = lo + y" "y \<le> n"
  by (rule that [of "b - lo"]) (use assms in simp_all)

lemma cont_form:
  assumes "is_cont b"
  obtains y where "b = 0x80 + y" "y \<le> 63"
proof (rule offset_form [of "0x80" b 63])
  show "0x80 \<le> b" "b \<le> 0x80 + 63" using assms by (simp_all add: is_cont_def)
qed (rule that)

lemma three_byte_scalar:
  assumes "second3_ok b0 b1" and "is_cont b2" and "b0 \<le> 0xEF"
  shows "is_scalar ((b0 - 0xE0) * 4096 + (b1 - 0x80) * 64 + (b2 - 0x80))"
proof -
  have "is_cont b1" "0xE0 \<le> b0" "b0 \<le> 0xE0 + 15" using assms(1,3) by (auto simp: second3_ok_def is_cont_def)
  then obtain x y where x: "b0 = 0xE0 + x" "x \<le> 15" and y: "b1 = 0x80 + y" "y \<le> 63"
    by (meson cont_form offset_form)
  from assms(2) obtain z where z: "b2 = 0x80 + z" "z \<le> 63" by (rule cont_form)
  from assms(1) have "x \<le> 12 \<or> x = 13 \<and> y \<le> 31 \<or> 14 \<le> x" unfolding second3_ok_def x y by linarith
  then have "x * 4096 + y * 64 + z < 0xD800 \<or> 0xE000 \<le> x * 4096 + y * 64 + z" using y(2) z(2) by linarith
  moreover have "x * 4096 + y * 64 + z < 0x110000" using x(2) y(2) z(2) by linarith
  ultimately show ?thesis unfolding x y z is_scalar_def by auto
qed

lemma four_byte_scalar:
  assumes "second4_ok b0 b1" and "is_cont b2" and "is_cont b3"
  shows "is_scalar ((b0 - 0xF0) * 262144 + (b1 - 0x80) * 4096 + (b2 - 0x80) * 64 + (b3 - 0x80))"
proof -
  have "is_cont b1" "0xF0 \<le> b0" "b0 \<le> 0xF0 + 4" using assms(1) by (auto simp: second4_ok_def is_cont_def)
  then obtain x y where x: "b0 = 0xF0 + x" "x \<le> 4" and y: "b1 = 0x80 + y" "y \<le> 63"
    by (meson cont_form offset_form)
  from assms(2) obtain z where z: "b2 = 0x80 + z" "z \<le> 63" by (rule cont_form)
  from assms(3) obtain w where w: "b3 = 0x80 + w" "w \<le> 63" by (rule cont_form)
  from assms(1) have "x = 0 \<and> 16 \<le> y \<or> 1 \<le> x \<and> x \<le> 3 \<or> x = 4 \<and> y \<le> 15"
    unfolding second4_ok_def x y by linarith
  then have "0xE000 \<le> x * 262144 + y * 4096 + z * 64 + w \<and> x * 262144 + y * 4096 + z * 64 + w < 0x110000"
    using y(2) z(2) w(2) by linarith
  then show ?thesis unfolding x y z w is_scalar_def by auto
qed

lemma two_byte_scalar: "b0 \<le> 0xDF \<Longrightarrow> is_cont b1 \<Longrightarrow> is_scalar ((b0 - 0xC0) * 64 + (b1 - 0x80))"
  by (auto simp: is_cont_def is_scalar_def)

lemma utf8_next_scalar: "utf8_next bs = (Some c, k) \<Longrightarrow> is_scalar c"
  by (auto simp: utf8_next_def Let_def split: if_splits
      intro: two_byte_scalar three_byte_scalar four_byte_scalar) (simp add: is_scalar_def)

lemma from_utf8_lossy_scalars: "scalars (from_utf8_lossy bs)"
proof (induction bs rule: from_utf8_lossy.induct)
  case (1 bs)
  obtain r k where n: "utf8_next bs = (r, k)" by (rule prod.exhaust)
  show ?case
  proof (cases "bs = []")
    case False
    moreover have "is_scalar replacement" by (simp add: is_scalar_def)
    ultimately show ?thesis
      using 1 n utf8_next_scalar [of bs] by (subst from_utf8_lossy.simps) (auto split: option.split)
  qed simp
qed

lemma from_utf8_scalars: "from_utf8 bs = Some s \<Longrightarrow> scalars s"
proof (induction bs arbitrary: s rule: from_utf8.induct)
  case (1 bs)
  obtain r k where n: "utf8_next bs = (r, k)" by (rule prod.exhaust)
  from 1 n utf8_next_scalar [of bs] show ?case
    by (subst (asm) (2) from_utf8.simps) (auto split: option.splits if_splits)
qed

lemma decode_name_scalars: "scalars (decode_name bs flags)"
  using from_utf8_lossy_scalars [of bs] by (auto simp: decode_name_def list_all_iff cp437_decode_scalar)

section \<open>The strings of an archive\<close>

definition unicode_ok :: "extra_fields \<Rightarrow> bool" where
  "unicode_ok x \<longleftrightarrow> pred_option scalars (unicode_path x) \<and> pred_option scalars (unicode_comment x)"

definition string_entry :: "central_entry \<Rightarrow> bool" where
  "string_entry m \<longleftrightarrow> scalars (ce_name m) \<and> unicode_ok (ce_extra m)"

lemma ntfs_loop_unicode: "unicode_ok out \<Longrightarrow> unicode_ok (ntfs_loop r out)"
proof (induction "remaining r" arbitrary: r out rule: less_induct)
  case less
  obtain t r1 n r2 where u: "Reader_u16 r = (t, r1)" "Reader_u16 r1 = (n, r2)" by (metis prod.exhaust)
  show ?case
  proof (cases "remaining r < 4 \<or> (\<forall>i k d r3. t = Ok i \<longrightarrow> n = Ok k \<longrightarrow> Reader_take (unat k) r2 \<noteq> (Ok d, r3))")
    case True
    with less.prems u show ?thesis
      by (subst ntfs_loop.simps) (auto split: outcome.split prod.split)
  next
    case False
    then obtain i k d r3 where d: "\<not> remaining r < 4" "t = Ok i" "n = Ok k" "Reader_take (unat k) r2 = (Ok d, r3)"
      by blast
    then have "remaining r3 < remaining r"
      using u Reader_u16_progress Reader_take_progress by fastforce
    note IH = less.hyps [OF this]
    have keep: "unicode_ok (out\<lparr>ntfs_mtime := m, ntfs_atime := a, ntfs_ctime := c\<rparr>)" for m a c
      using less.prems by (simp add: unicode_ok_def)
    show ?thesis
      using u d by (subst ntfs_loop.simps) (auto intro!: IH keep less.prems split: outcome.split prod.split)
  qed
qed

lemma unix_field_unicode:
  "unicode_ok (fst p) \<Longrightarrow> (\<And>t x. unicode_ok x \<Longrightarrow> unicode_ok (store t x)) \<Longrightarrow> unicode_ok (fst (unix_field b store p))"
  by (auto simp: unix_field_def split: prod.splits)

lemma extra_record_unicode: "unicode_ok out \<Longrightarrow> unicode_ok (extra_record_fields rid data out)"
proof -
  assume ok: "unicode_ok out"
  then have "unicode_ok (parse_unix_times data out)"
    unfolding parse_unix_times_def
    by (auto split: prod.splits outcome.splits intro!: unix_field_unicode) (auto simp: unicode_ok_def)
  moreover have "unicode_ok (parse_ntfs_times data out)"
    unfolding parse_ntfs_times_def by (rule ntfs_loop_unicode [OF ok])
  moreover have "pred_option scalars (parse_unicode_extra data)"
    by (cases "parse_unicode_extra data") (auto simp: parse_unicode_extra_def from_utf8_scalars split: if_splits)
  ultimately show ?thesis using ok by (simp add: extra_record_fields_def unicode_ok_def)
qed

lemma extra_loop_unicode: "unicode_ok out \<Longrightarrow> unicode_ok (extra_loop r out)"
proof (induction "remaining r" arbitrary: r out rule: less_induct)
  case less
  obtain t r1 n r2 where u: "Reader_u16 r = (t, r1)" "Reader_u16 r1 = (n, r2)" by (metis prod.exhaust)
  show ?case
  proof (cases "remaining r < 4 \<or> (\<forall>i k d r3. t = Ok i \<longrightarrow> n = Ok k \<longrightarrow> Reader_take (unat k) r2 \<noteq> (Ok d, r3))")
    case True
    with less.prems u show ?thesis
      by (subst extra_loop.simps) (auto split: outcome.split prod.split)
  next
    case False
    then obtain i k d r3 where d: "\<not> remaining r < 4" "t = Ok i" "n = Ok k" "Reader_take (unat k) r2 = (Ok d, r3)"
      by blast
    then have "remaining r3 < remaining r"
      using u Reader_u16_progress Reader_take_progress by fastforce
    from less.hyps [OF this extra_record_unicode [OF less.prems]] u d show ?thesis
      by (subst extra_loop.simps) simp
  qed
qed

lemma make_entry_string: "make_entry f name extra = Ok e \<Longrightarrow> string_entry e"
proof -
  have "unicode_ok (parse_extra_fields extra)"
    unfolding parse_extra_fields_def
    by (rule extra_loop_unicode) (simp add: unicode_ok_def extra_fields_default_def)
  then show "make_entry f name extra = Ok e \<Longrightarrow> string_entry e"
    by (auto simp: make_entry_def string_entry_def decode_name_scalars)
qed

lemma parse_cd_header_string: "yields string_entry (parse_cd_header n)"
proof -
  have "yields string_entry (lift_outcome (make_entry f name extra))" for f name extra
    by (auto simp: yields_def dest: make_entry_string)
  then have rest: "yields string_entry (seq (with_err Format parse_cd_fixed) (\<lambda>f.
      seq (with_err Format (Reader_take (fx_name_len f))) (\<lambda>name_bytes.
      seq (with_err Format (Reader_take (fx_extra_len f))) (\<lambda>extra.
      seq (with_err Format (Reader_take (fx_comment_len f))) (\<lambda>comment.
      lift_outcome (make_entry f name_bytes extra))))))"
    by (intro yields_seq)
  have "yields string_entry (seq (with_err Format Reader_u32) (\<lambda>sig r1.
        if sig \<noteq> CD_HEADER_SIG then
          (Err (Format (BadSignature (lit ''central directory header'') (of_nat (n - remaining r1)))), r1)
        else
          seq (with_err Format parse_cd_fixed) (\<lambda>f.
          seq (with_err Format (Reader_take (fx_name_len f))) (\<lambda>name_bytes.
          seq (with_err Format (Reader_take (fx_extra_len f))) (\<lambda>extra.
          seq (with_err Format (Reader_take (fx_comment_len f))) (\<lambda>comment.
          lift_outcome (make_entry f name_bytes extra))))) r1))"
    by (rule yields_seq) (use rest in \<open>simp add: yields_def\<close>)
  then show ?thesis unfolding parse_cd_header_def yields_def by simp
qed

lemma parse_cd_loop_string: "yields (list_all string_entry) (parse_cd_loop n k)"
proof (induction k)
  case (Suc k)
  have "parse_cd_loop n (Suc k) r = (Ok es, r') \<Longrightarrow> list_all string_entry es" for r es r'
    using yieldsD [OF parse_cd_header_string] yieldsD [OF Suc] by (auto simp: seq_eq_Ok)
  then show ?case by (simp add: yields_def)
qed (simp add: yields_def)

lemma parse_cd_entries_string: "parse_cd_entries cd n = Ok (es, k) \<Longrightarrow> list_all string_entry es"
  using yieldsD [OF parse_cd_loop_string] by (auto simp: parse_cd_entries_def split: prod.splits)

lemma shift_entries_string: "shift_entries p es = Ok es' \<Longrightarrow> list_all string_entry es \<Longrightarrow> list_all string_entry es'"
  by (auto simp: shift_entries_Ok list_all_iff string_entry_def)

lemma archive_string_entry:
  assumes "ZipArchive_new c = Ok a" and "m \<in> set (za_entries a)"
  shows "string_entry m"
proof -
  from assms(1) obtain r flen c1 where "parse_central_directory flen c1 = (Ok (za_entries a, za_summary a), r)"
    by (auto simp: ZipArchive_new_def seq_eq_Ok split: prod.splits outcome.splits)
  then obtain loc c2 where "read_central_directory flen loc c2 = (Ok (za_entries a, za_summary a), r)"
    by (auto simp: parse_central_directory_def seq_eq_Ok)
  then obtain cd es k where "parse_cd_entries cd (lo_total_entries loc) = Ok (es, k)"
    "(if 0 < lo_prefix loc then shift_entries (lo_prefix loc) es else Ok es) = Ok (za_entries a)"
    by (auto simp: read_central_directory_def seq_eq_Ok simp del: shift_entries.simps)
  then have "list_all string_entry (za_entries a)"
    using parse_cd_entries_string shift_entries_string by (auto split: if_splits)
  with assms(2) show ?thesis by (simp add: list_all_iff)
qed

text \<open>
  The strings of every entry of an opened archive, whatever the bytes of the file, are sequences of
  Unicode scalar values: its name, and the path and comment of its Unicode extra fields.
\<close>

theorem archive_strings:
  assumes "ZipArchive_new c = Ok a" and "m \<in> set (za_entries a)"
  shows "list_all is_scalar (ce_name m) \<and> pred_option (list_all is_scalar) (unicode_path (ce_extra m)) \<and>
    pred_option (list_all is_scalar) (unicode_comment (ce_extra m))"
  using archive_string_entry [OF assms] by (simp add: string_entry_def unicode_ok_def)

end
