(* ===== verification/SampleArchive.thy ===== *)
theory SampleArchive
  imports Extract Strings
begin

text \<open>
  A concrete archive for the witnesses: the sample entry of \<open>Extract\<close>, one stored byte \<open>0xFF\<close> behind one
  byte of foreign data, with any recorded checksum. It opens, its headers pair, and its data is placed.
\<close>

definition crc_archive :: "u32 \<Rightarrow> u8 list" where
  "crc_archive crc = encode_archive [1] ([] @ encode_local extract_local @ [0xFF] @ [])
     [extract_header\<lparr>h_crc32 := crc\<rparr>] []"

lemma crc_archive_ok: "archive_ok [1] ([] @ encode_local extract_local @ [0xFF] @ []) [extract_header\<lparr>h_crc32 := crc\<rparr>] []"
  by (simp add: archive_ok_def comment_ok_def header_ok_def encode_archive_def directory_def
      archive_eocd_def encode_eocd_def encode_header_def encode_fixed_def sample_header_def
      extract_header_def extract_local_def encode_local_def le_eval)

lemma crc_archive_opens:
  "\<exists>a m. ZipArchive_new (cursor_new (crc_archive crc)) = Ok a \<and> za_entries a = [m] \<and>
    placed (za_reader a) m [0xFF] \<and> on_one_disk a m \<and> ce_flags m = 0 \<and> ce_method m = Stored \<and> ce_crc32 m = crc \<and>
    ce_name m = [97, 46, 98] \<and> ce_uncompressed_size m = 1 \<and>
    (\<exists>row a'. structural_view a = (Ok [row], a'))"
proof -
  let ?h = "extract_header\<lparr>h_crc32 := crc\<rparr>" and ?body = "[] @ encode_local extract_local @ [0xFF] @ []"
  obtain e where e: "entries_of [?h] = Ok [e]" "ce_lfh_offset e = 0" "ce_compressed_size e = 1"
    "ce_crc32 e = crc" "ce_name e = [97, 46, 98]" "ce_uncompressed_size e = 1"
    "ce_method e = Stored" "ce_flags e = 0" "ce_disk_start e = 0"
    by (simp add: entry_of_plain sample_header_def extract_header_def method_from_u16_def
        decode_name_ascii is_ascii_def)
  let ?e = "e\<lparr>ce_lfh_offset := 1\<rparr>"
  from open_encoded [OF crc_archive_ok e(1)] obtain c' where c': "cu_data c' = crc_archive crc"
    "ZipArchive_new (cursor_new (crc_archive crc)) = and_then (shift_entries 1 [e]) (\<lambda>es'.
      Ok \<lparr> za_reader = c', za_entries = es', za_summary = summary_of [1] ?body [?h] [] \<rparr>)"
    by (auto simp: crc_archive_def)
  with sample_shift [OF e(2)] have opened: "ZipArchive_new (cursor_new (crc_archive crc)) =
      Ok \<lparr> za_reader = c', za_entries = [?e], za_summary = summary_of [1] ?body [?h] [] \<rparr>" (is "_ = Ok ?z")
    by simp
  let ?rest = "directory [?h] @ archive_eocd ?body [?h] []"
  have data: "cu_data c' = [1] @ encode_local extract_local @ [0xFF] @ ?rest" "length (cu_data c') < 2 ^ 63"
    unfolding c'(1) crc_archive_def encode_archive_def
    by (simp_all add: directory_def length_encode_header length_archive_eocd extract_local_def
        extract_header_def sample_header_def)
  have lo: "local_ok extract_local" by (simp add: local_ok_def extract_local_def)
  from placedI [OF data(1) lo, of ?e] data(2) e(3) have "placed (za_reader ?z) ?e [0xFF]" by simp
  moreover from read_lfh_encoded [OF lo data] obtain ds c'' where
    "read_lfh_fields 1 c' = (Ok (local_fields extract_local, ds), c'')" by auto
  then have "\<exists>row a'. structural_view ?z = (Ok [row], a')" by (simp add: structural_view_def)
  moreover have "on_one_disk ?z ?e" using e(9) by (simp add: on_one_disk_def summary_of_def)
  ultimately show ?thesis using opened e by simp
qed

theorem archive_strings_witness:
  "\<exists>a m. ZipArchive_new (cursor_new (crc_archive 7)) = Ok a \<and> za_entries a = [m] \<and>
    list_all is_scalar (ce_name m) \<and> ce_name m = [97, 46, 98]"
proof -
  from crc_archive_opens [of 7] obtain a m where
    a: "ZipArchive_new (cursor_new (crc_archive 7)) = Ok a" "za_entries a = [m]" "ce_name m = [97, 46, 98]" by blast
  then have "m \<in> set (za_entries a)" by simp
  from archive_strings [OF a(1) this] a show ?thesis by blast
qed

end
