(* ===== verification/Decoded.thy ===== *)
theory Decoded
  imports Extract
begin

text \<open>
  Compressed entries. What the decoder crates are to return is a function \<open>D\<close> from the method, the
  declared size and the compressed bytes to the data, if they are well formed; over crates that follow
  it, an entry under any of the seven supported methods is read to exactly that data, through the
  streaming decoders, the capped one-shot decoders and the LZMA preamble, in the clear or under ZipCrypto.
\<close>

section \<open>The decoders' promise\<close>

type_synonym decodes = "compression_method \<Rightarrow> u64 \<Rightarrow> u8 list \<Rightarrow> u8 list option"

text \<open>
  Over any reader whose content is well formed, a streaming decoder is a reader whose content is the
  data; a one-shot decoder hands its writer the data, in buffers of its choice, and reports no error.
\<close>

definition decodes_as ::
  "((nat \<Rightarrow> ('s, u8 list, io_error) act) \<Rightarrow> nat \<Rightarrow> ('x, u8 list, io_error) act)
     \<Rightarrow> (nat \<Rightarrow> ('s, u8 list, io_error) act) \<Rightarrow> 'x \<Rightarrow> u8 list \<Rightarrow> bool" where
  "decodes_as dr rd x p \<longleftrightarrow> (\<exists>C J. read_stream (dr rd) C J \<and> J x \<and> C x = p)"

definition codec_decodes :: "('s, 'x, 'z) codec_lib_scheme \<Rightarrow> decodes \<Rightarrow> bool" where
  "codec_decodes L D \<longleftrightarrow>
     (\<forall>rd content good s k p. read_stream rd content good \<longrightarrow> good s \<longrightarrow>
        (D Deflated k (content s) = Some p \<longrightarrow> decodes_as (deflate_read L) rd (deflate_new L s) p) \<and>
        (D Deflate64 k (content s) = Some p \<longrightarrow> decodes_as (deflate64_read L) rd (deflate64_new L s) p) \<and>
        (D Bzip2 k (content s) = Some p \<longrightarrow> decodes_as (bzip2_read L) rd (bzip2_new L s) p) \<and>
        (D Zstd k (content s) = Some p \<longrightarrow>
          (\<exists>x. zstd_new L rd s = Ok x \<and> decodes_as (zstd_read L) rd x p))) \<and>
     (\<forall>k data p. D Lzma k data = Some p \<longrightarrow> (\<exists>chunks. lzma_run L data k = (chunks, None) \<and> concat chunks = p)) \<and>
     (\<forall>k data p. D Xz k data = Some p \<longrightarrow> (\<exists>chunks. xz_run L data = (chunks, None) \<and> concat chunks = p))"

lemma decodes_asI: "read_stream (dr rd) C J \<Longrightarrow> J x \<Longrightarrow> decodes_as dr rd x (C x)"
  unfolding decodes_as_def by blast

lemma codec_decodes_raw: "codec_decodes raw_lib (\<lambda>meth k data. Some data)"
  by (auto simp: codec_decodes_def raw_lib_def intro: decodes_asI)

text \<open>
  The data of an entry: stored bytes stand for themselves, the LZMA stream starts after a four-byte
  preamble that gives five property bytes, and what is decoded at once stays below the cap.
\<close>

definition capped :: "u8 list option \<Rightarrow> u8 list option" where
  "capped v = (case v of Some p \<Rightarrow> if length p \<le> unat MAX_BUFFERED_DECODE then Some p else None | None \<Rightarrow> None)"

fun entry_plain :: "decodes \<Rightarrow> compression_method \<Rightarrow> u64 \<Rightarrow> u8 list \<Rightarrow> u8 list option" where
  "entry_plain D Stored k data = Some data"
| "entry_plain D Deflated k data = D Deflated k data"
| "entry_plain D Deflate64 k data = D Deflate64 k data"
| "entry_plain D Bzip2 k data = capped (D Bzip2 k data)"
| "entry_plain D Zstd k data = capped (D Zstd k data)"
| "entry_plain D Xz k data = capped (D Xz k data)"
| "entry_plain D Lzma k data =
     (if 4 \<le> length data \<and> take 2 (drop 2 data) = [5, 0] then capped (D Lzma k (drop 4 data)) else None)"
| "entry_plain D meth k data = None"

lemma capped_Some: "capped v = Some p \<longleftrightarrow> v = Some p \<and> length p \<le> unat MAX_BUFFERED_DECODE"
  by (auto simp: capped_def split: option.splits)

section \<open>Decoding\<close>

lemma run_one_shot_all:
  assumes "concat chunks = p" and "length p \<le> unat cap"
  shows "run_one_shot t (chunks, None) cap = Ok p"
  using write_chunks_cases [of "CappedWriter_new cap" chunks] assms
  by (simp add: run_one_shot_def CappedWriter_new_def)

lemma buffered_reads:
  assumes "\<And>i. 0 < sizes i"
  shows "\<exists>d'. read_to_end (decoder_read L rd) sizes 0 [] (BufferedDecoder (cursor_new p)) = Some (Ok p, d')"
proof -
  from cur.read_to_end_content [where s = "cursor_new p" and sizes = sizes and i = 0 and acc = "[]", OF TrueI assms]
  obtain c where "read_to_end cursor_read sizes 0 [] (cursor_new p) = Some (Ok p, c)" by auto
  from read_to_end_lift [OF this, where F = BufferedDecoder and rd' = "decoder_read L rd"] show ?thesis
    by (auto simp: decoder_read_def)
qed

lemma streamed_reads:
  assumes "decodes_as dr rd x p" and "\<And>i. 0 < sizes i"
    and "\<And>n y. decoder_read L rd n (F y) = lift_read F (dr rd n y)"
  shows "\<exists>d'. read_to_end (decoder_read L rd) sizes 0 [] (F x) = Some (Ok p, d')"
proof -
  from assms(1) obtain C J where C: "read_stream (dr rd) C J" "J x" "C x = p" by (auto simp: decodes_as_def)
  from read_stream.read_to_end_content [OF C(1,2), where sizes = sizes and i = 0 and acc = "[]", OF assms(2)] C(3)
  obtain y where "read_to_end (dr rd) sizes 0 [] x = Some (Ok p, y)" by auto
  from read_to_end_lift [OF this assms(3)] show ?thesis by blast
qed

lemma decoded_capped:
  assumes "decodes_as dr rd x p" and "length p \<le> unat MAX_BUFFERED_DECODE" and "\<And>i. 0 < sizes i"
  shows "read_capped (dr rd) sizes x MAX_BUFFERED_DECODE = Some (Ok p)"
proof -
  from assms(1) obtain C J where C: "read_stream (dr rd) C J" "J x" "C x = p" by (auto simp: decodes_as_def)
  from read_stream.read_capped_content [OF C(1,2) assms(3), of MAX_BUFFERED_DECODE] C(3) assms(2)
  show ?thesis by (simp add: unat_MAX_BUFFERED_DECODE)
qed

text \<open>Whichever reader stands below, the decoder of a method yields the data of its content.\<close>

lemma decoder_yields:
  assumes rd: "read_stream rd content good" "good s" and L: "codec_decodes L D"
    and p: "entry_plain D meth k (content s) = Some p" and sizes: "\<And>i. 0 < sizes i"
  shows "\<exists>d d'. Decoder_new L rd sizes meth k s = Some (Ok d) \<and>
    read_to_end (decoder_read L rd) sizes 0 [] d = Some (Ok p, d')"
proof -
  note stream = L [unfolded codec_decodes_def, THEN conjunct1, rule_format, OF rd]
    and one_shot = L [unfolded codec_decodes_def, THEN conjunct2]
  from read_stream.read_to_end_content [OF rd, where sizes = sizes and i = 0 and acc = "[]", OF sizes] obtain s' where
    raw: "read_to_end rd sizes 0 [] s = Some (Ok (content s), s')" by auto
  note buf = buffered_reads [where p = p and sizes = sizes and L = L and rd = rd, OF sizes]
  have buffer: ?thesis if "Decoder_new L rd sizes meth k s = Some (Ok (BufferedDecoder (cursor_new p)))"
    using that buf by blast
  show ?thesis
  proof (cases meth)
    case Stored
    from read_to_end_lift [OF raw, where F = StoredDecoder and rd' = "decoder_read L rd"] p Stored show ?thesis
      by (auto simp: Decoder_new_def decoder_read_def)
  next
    case Deflated
    with p stream have "decodes_as (deflate_read L) rd (deflate_new L s) p" by auto
    from streamed_reads [OF this sizes, where F = DeflateDecoder and L = L] Deflated show ?thesis
      by (auto simp: Decoder_new_def decoder_read_def)
  next
    case Deflate64
    with p stream have "decodes_as (deflate64_read L) rd (deflate64_new L s) p" by auto
    from streamed_reads [OF this sizes, where F = Deflate64Decoder and L = L] Deflate64 show ?thesis
      by (auto simp: Decoder_new_def decoder_read_def)
  next
    case Bzip2
    with p stream have "decodes_as (bzip2_read L) rd (bzip2_new L s) p" "length p \<le> unat MAX_BUFFERED_DECODE"
      by (auto simp: capped_Some)
    from decoded_capped [OF this sizes] Bzip2 show ?thesis by (intro buffer) (simp add: Decoder_new_def buffered_def)
  next
    case Zstd
    with p stream obtain x where x: "zstd_new L rd s = Ok x" "decodes_as (zstd_read L) rd x p"
      "length p \<le> unat MAX_BUFFERED_DECODE" by (auto simp: capped_Some)
    from decoded_capped [OF x(2,3) sizes] x(1) Zstd show ?thesis
      by (intro buffer) (simp add: Decoder_new_def buffered_def)
  next
    case Lzma
    with p have D: "D Lzma k (drop 4 (content s)) = Some p" and len: "length p \<le> unat MAX_BUFFERED_DECODE"
      and head: "4 \<le> length (content s)" "take 2 (drop 2 (content s)) = [5, 0]"
      by (auto simp: capped_Some split: if_splits)
    from one_shot [THEN conjunct1, rule_format, OF D] obtain chunks where
      c: "lzma_run L (drop 4 (content s)) k = (chunks, None)" "concat chunks = p" by blast
    have "u16_at (content s) 2 = (Ok 5 :: (u16, zip_core_error) outcome)"
      using head by (simp add: u16_at_Ok)
    then have "decode_zip_lzma L (content s) k = Ok p"
      using head(1) run_one_shot_all [OF c(2) len] by (simp add: decode_zip_lzma_def slice_from_OkI c(1))
    with raw Lzma show ?thesis by (intro buffer) (simp add: Decoder_new_def buffered_def)
  next
    case Xz
    with p have D: "D Xz k (content s) = Some p" and len: "length p \<le> unat MAX_BUFFERED_DECODE"
      by (auto simp: capped_Some)
    from one_shot [THEN conjunct2, rule_format, OF D] obtain chunks where
      c: "xz_run L (content s) = (chunks, None)" "concat chunks = p" by blast
    with raw Xz run_one_shot_all [OF c(2) len] show ?thesis
      by (intro buffer) (simp add: Decoder_new_def buffered_def)
  qed (use p in simp_all)
qed

section \<open>Through the box\<close>

text \<open>A reader keeps its content behind the box, as behind any constructor.\<close>

lemma lifted_stream:
  assumes "read_stream rd C J" and "\<And>n s. rd' n (F s) = lift_read F (rd n s)" and "\<And>s. G (F s) = s"
  shows "read_stream rd' (\<lambda>b. C (G b)) (\<lambda>b. \<exists>s. b = F s \<and> J s)"
proof (unfold_locales, goal_cases)
  case (1 b n)
  then obtain s where s: "b = F s" "J s" by blast
  with read_stream.rd_some [OF assms(1) s(2) 1(2)] 1(3) show ?case
    by (auto simp: assms(2,3) lift_read_def) (metis assms(3))
next
  case (2 b n)
  then obtain s where s: "b = F s" "J s" by blast
  with read_stream.rd_eof [OF assms(1) s(2) 2(2)] 2(3) show ?case
    by (auto simp: assms(2,3) lift_read_def)
qed

lemma make_zip_file_yields:
  assumes "read_stream rd C J" and "J s" and "\<And>n s. boxed_read E n (F s) = lift_read F (rd n s)"
    and "\<And>s s'. F s = F s' \<Longrightarrow> s = s'"
    and "codec_decodes (x_codec E) D" and "entry_plain D meth (ce_uncompressed_size m) (C s) = Some p"
    and "crc_chunked (x_crc E)" and "\<And>j. 0 < x_sizes E j" and "length p < 2 ^ 64"
  shows "\<exists>f. make_zip_file E m ds meth verify (F s) = Some (Ok f) \<and> read_entry E f = Some (crc_verdict E m verify p)"
proof -
  define G where "G b = (THE s. b = F s)" for b
  have G: "G (F s) = s" for s unfolding G_def using assms(4) by blast
  have good: "\<exists>t. F s = F t \<and> J t" using assms(2) by blast
  from decoder_yields [OF lifted_stream [OF assms(1,3) G] good assms(5), where sizes = "x_sizes E" and meth = meth
      and k = "ce_uncompressed_size m" and p = p, unfolded G, OF assms(6,8)] obtain d d' where
    d: "Decoder_new (x_codec E) (boxed_read E) (x_sizes E) meth (ce_uncompressed_size m) (F s) = Some (Ok d)"
    "read_to_end (decoder_read (x_codec E) (boxed_read E)) (x_sizes E) 0 [] d = Some (Ok p, d')"
    by blast
  from read_fresh_file [OF d(2) assms(7,9)] d(1) show ?thesis by (auto simp: make_zip_file_Ok)
qed

section \<open>Extraction\<close>

lemma archive_open_compressed:
  assumes "placed (za_reader a) m data" and "on_one_disk a m" and "\<not> has_bits (ce_flags m) 1"
    and "codec_decodes (x_codec E) D" and "entry_plain D (ce_method m) (ce_uncompressed_size m) data = Some p"
    and "crc_chunked (x_crc E)" and "\<And>j. 0 < x_sizes E j" and "length p < 2 ^ 64"
  shows "\<exists>f. archive_open E a m = Some (Ok f) \<and> read_entry E f = Some (crc_verdict E m True p)"
proof -
  from entry_data_placed [OF assms(1)] obtain ds t where
    t: "entry_data m (za_reader a) = Ok (ds, t)" "window t = data" by blast
  have p: "entry_plain D (ce_method m) (ce_uncompressed_size m) (window t) = Some p" using assms(5) t(2) by simp
  from make_zip_file_yields [where F = BoxTake, OF win.read_stream_axioms TrueI boxed_read_simps(1) _ assms(4) p assms(6,7,8)]
  obtain f where "make_zip_file E m ds (ce_method m) True (BoxTake t) = Some (Ok f)"
    "read_entry E f = Some (crc_verdict E m True p)" by auto
  with assms(3) t(1) show ?thesis by (simp add: archive_open_def check_local_disk_one [OF assms(2)])
qed

text \<open>
  C1: An archive written field by field, with data before it if any, whose i-th header describes an
  unencrypted entry under any supported method (stored, DEFLATE, Deflate64, bzip2, LZMA, Zstandard, XZ),
  opens; opening that entry by its index gives a file which, read to the end, yields exactly the data
  that the written bytes stand for under that method when its CRC-32 is the one in the header, and the CRC
  mismatch error when it is not. Data of the methods decoded at once stays below the 4 GiB cap.
\<close>

theorem compressed_entry_extracted:
  assumes "archive_ok pre (a @ encode_local l @ data @ b) hs comment" and "entries_of hs = Ok es"
    and "\<forall>e \<in> set es. unat (ce_lfh_offset e) + length pre < 2 ^ 64"
    and "i < length es" and "es ! i = e" and "local_ok l" and "ce_lfh_offset e = of_nat (length a)"
    and "unat (ce_compressed_size e) = length data" and "ce_disk_start e = 0"
    and "length (encode_archive pre (a @ encode_local l @ data @ b) hs comment) < 2 ^ 63"
    and "codec_decodes (x_codec E) D" and "entry_plain D (ce_method e) (ce_uncompressed_size e) data = Some p"
    and "length p < 2 ^ 64" and "\<not> has_bits (ce_flags e) 1"
    and "crc_chunked (x_crc E)" and "\<And>j. 0 < x_sizes E j"
  shows "\<exists>archive f. ZipArchive_new (cursor_new (encode_archive pre (a @ encode_local l @ data @ b) hs comment)) =
      Ok archive \<and> by_index E archive i = Some (Ok f) \<and>
    read_entry E f = Some (if crc_of (x_crc E) p = ce_crc32 e then Ok p
      else Err (IoOther (CrcMismatchError (ce_name e) (ce_crc32 e) (crc_of (x_crc E) p))))"
proof -
  from written_entry_placed [OF assms(1-10)] obtain archive off where
    a: "ZipArchive_new (cursor_new (encode_archive pre (a @ encode_local l @ data @ b) hs comment)) = Ok archive"
      "i < length (za_entries archive)" "za_entries archive ! i = e\<lparr>ce_lfh_offset := off\<rparr>"
      "placed (za_reader archive) (e\<lparr>ce_lfh_offset := off\<rparr>) data" "on_one_disk archive (e\<lparr>ce_lfh_offset := off\<rparr>)"
    by blast
  from archive_open_compressed [OF a(4,5) _ assms(11) _ assms(15,16,13)] assms(12,14) obtain f where
    "archive_open E archive (e\<lparr>ce_lfh_offset := off\<rparr>) = Some (Ok f)"
    "read_entry E f = Some (crc_verdict E (e\<lparr>ce_lfh_offset := off\<rparr>) True p)" by auto
  with a(1-3) show ?thesis by (auto simp: by_index_def entry_at_def crc_verdict_def)
qed

text \<open>An entry under LZMA, as a preamble with five property bytes announced and one byte of stream.\<close>

definition lzma_header :: cd_header where
  "lzma_header = extract_header\<lparr>h_method := 14, h_compressed32 := 5\<rparr>"

abbreviation lzma_data :: "u8 list" where
  "lzma_data \<equiv> [9, 20, 5, 0, 0xFF]"

lemma lzma_ok: "archive_ok [1] ([] @ encode_local extract_local @ lzma_data @ []) [lzma_header] []"
  by (simp add: archive_ok_def comment_ok_def header_ok_def encode_archive_def directory_def
      archive_eocd_def encode_eocd_def encode_header_def encode_fixed_def sample_header_def lzma_header_def
      extract_header_def extract_local_def encode_local_def le_eval)

lemma lzma_entries: "\<exists>e. entries_of [lzma_header] = Ok [e] \<and> ce_lfh_offset e = 0 \<and>
    ce_compressed_size e = 5 \<and> ce_method e = Lzma \<and> ce_flags e = 0 \<and> ce_disk_start e = 0 \<and>
    ce_crc32 e = 0xFF000000"
  by (simp add: entry_of_plain sample_header_def extract_header_def lzma_header_def method_from_u16_def)

lemma codec_decodes_sample: "codec_decodes (x_codec sample_externals) (\<lambda>meth k data. Some data)"
  by (simp add: sample_externals_def codec_decodes_raw)

lemma lzma_plain: "entry_plain (\<lambda>meth k data. Some data) Lzma k lzma_data = Some [0xFF]"
  by (simp add: capped_Some unat_MAX_BUFFERED_DECODE)

theorem compressed_entry_extracted_witness:
  "\<exists>archive f. ZipArchive_new (cursor_new (encode_archive [1] ([] @ encode_local extract_local @ lzma_data @ [])
      [lzma_header] [])) = Ok archive \<and> by_index sample_externals archive 0 = Some (Ok f) \<and>
    read_entry sample_externals f = Some (Ok [0xFF])"
proof -
  from lzma_entries obtain e where e: "entries_of [lzma_header] = Ok [e]" "ce_lfh_offset e = 0"
    "ce_compressed_size e = 5" "ce_method e = Lzma" "ce_flags e = 0" "ce_disk_start e = 0"
    "ce_crc32 e = 0xFF000000" by blast
  have len: "length (encode_archive [1] ([] @ encode_local extract_local @ lzma_data @ []) [lzma_header] []) < 2 ^ 63"
    by (simp add: encode_archive_def directory_def length_encode_header length_archive_eocd lzma_header_def
        extract_local_def extract_header_def sample_header_def)
  from compressed_entry_extracted [where E = sample_externals and i = 0 and p = "[0xFF]", OF lzma_ok e(1) _ _ _ _ _ _ e(6) len
      codec_decodes_sample] e lzma_plain
  show ?thesis by (simp add: crc_chunked_bytewise crc_sample local_ok_def extract_local_def has_bits_def)
qed

text \<open>
  C25: The same under ZipCrypto: where an entry's data is the encryption, under the password given, of a
  12-byte header that ends in the check byte of the entry and of compressed bytes of any supported method,
  opening it with that password and reading it to the end yields the data the compressed bytes stand for,
  checked against its CRC-32.
\<close>

theorem zipcrypto_compressed_extracted:
  assumes "placed (za_reader a) m (encrypt_bytes (password_keys password) (header @ packed))"
    and "i < length (za_entries a)" and "za_entries a ! i = m" and "on_one_disk a m"
    and "has_bits (ce_flags m) 1" and "ce_aes m = None" and "\<not> has_bits (ce_flags m) 0x2000"
    and "\<not> has_bits (ce_flags m) 0x0040" and "length header = 12"
    and "last header = zipcrypto_check_byte (ce_flags m) (ce_crc32 m) (ce_last_mod_time m)"
    and "codec_decodes (x_codec E) D" and "entry_plain D (ce_method m) (ce_uncompressed_size m) packed = Some p"
    and "length p < 2 ^ 64" and "crc_chunked (x_crc E)" and "\<And>j. 0 < x_sizes E j"
  shows "\<exists>f. by_index_decrypt E a i password = Some (Ok f) \<and>
    read_entry E f = Some (if crc_of (x_crc E) p = ce_crc32 m then Ok p
      else Err (IoOther (CrcMismatchError (ce_name m) (ce_crc32 m) (crc_of (x_crc E) p))))"
proof -
  from entry_data_placed [OF assms(1)] obtain ds t where t: "entry_data m (za_reader a) = Ok (ds, t)"
    "window t = encrypt_bytes (password_keys password) (header @ packed)" by blast
  from zipcrypto_reads [where entry = "ce_name m" and sizes = "x_sizes E", OF t(2) assms(9,10,15)] obtain r r' where
    r: "ZipCryptoReader_new file_read t password
      (zipcrypto_check_byte (ce_flags m) (ce_crc32 m) (ce_last_mod_time m)) (ce_name m) = Ok r"
    "read_to_end (zipcrypto_read file_read) (x_sizes E) 0 [] r = Some (Ok packed, r')" by blast
  from zcw.read_to_end_content [where s = r and sizes = "x_sizes E" and i = 0 and acc = "[]", OF TrueI assms(15)] r(2)
  have content: "zc_window r = packed" by simp
  have plain: "entry_plain D (ce_method m) (ce_uncompressed_size m) (zc_window r) = Some p"
    unfolding content by (rule assms(12))
  from make_zip_file_yields [where F = BoxZipCrypto, OF zcw.read_stream_axioms TrueI boxed_read_simps(2) _ assms(11) plain
      assms(14,15,13)]
  obtain f where f: "make_zip_file E m ds (ce_method m) True (BoxZipCrypto r) = Some (Ok f)"
    "read_entry E f = Some (crc_verdict E m True p)" by auto
  have "by_index_decrypt E a i password = Some (Ok f)"
    unfolding by_index_decrypt_at [OF assms(2)] assms(3) open_decrypt_zipcrypto [OF assms(4-8) t(1) r(1)] by (rule f(1))
  with f(2) show ?thesis by (auto simp: crc_verdict_def)
qed

theorem zipcrypto_compressed_extracted_witness:
  "\<exists>f. by_index_decrypt sample_externals
      (one_archive ((one_entry 1 0xFF000000 None 17)\<lparr>ce_method := Lzma\<rparr>)
        (encrypt_bytes (password_keys [1, 2]) ((replicate 11 0 @ [0xFF]) @ lzma_data))) 0 [1, 2] = Some (Ok f) \<and>
    read_entry sample_externals f = Some (Ok [0xFF])"
proof -
  let ?header = "replicate 11 0 @ [0xFF] :: u8 list" and ?m = "(one_entry 1 0xFF000000 None 17)\<lparr>ce_method := Lzma\<rparr>"
  let ?data = "encrypt_bytes (password_keys [1, 2]) (?header @ lzma_data)"
  have len: "length ?data = 17" by simp
  have "placed (za_reader (one_archive (one_entry 1 0xFF000000 None 17) ?data)) (one_entry 1 0xFF000000 None 17) ?data"
    using one_placed [where data = ?data and flags = 1 and crc = "0xFF000000" and aes = None] unfolding len by simp
  then have "placed (za_reader (one_archive ?m ?data)) ?m ?data"
    by (simp add: placed_def one_archive_def)
  from zipcrypto_compressed_extracted [where i = 0 and E = sample_externals and p = "[0xFF]", OF this _ _ _ _ _ _ _ _ _
      codec_decodes_sample] lzma_plain show ?thesis
    by (simp add: has_bits_def zipcrypto_check_byte_def crc_sample crc_chunked_bytewise)
qed

end
