(* ===== verification/Forensic.thy ===== *)
theory Forensic
  imports SampleArchive Decoded "HOL-Library.Multiset"
begin

text \<open>
  The forensic auditor of \<open>forensic/src/lib.rs\<close>: the anomaly kinds with their severity, code,
  category, note and evidence, the audits of the structural view (\<open>audit_layout\<close>,
  \<open>audit_entry\<close>, \<open>audit_overlaps\<close>), of the container (\<open>audit_container\<close>) and of the decoded data
  (\<open>audit_reader\<close>). \<open>debug_str\<close>, how Rust prints a string with \<open>{:?}\<close>, is a parameter: it rests
  on the standard library's Unicode tables.
\<close>

section \<open>Anomalies\<close>

datatype severity = High | Medium | Low

datatype category = Integrity | Threat | Concealment | Structure

datatype anomaly_kind =
    CdLfhMismatch usize rstring rstring rstring rstring
  | NameTraversal usize rstring
  | NameAbsolute usize rstring
  | PrependedData u64
  | TrailingData u64
  | Overlap usize usize u64
  | SpanningAnomaly u32 u32
  | NameBidi usize rstring
  | NameControl usize rstring
  | CrcMismatch usize rstring

fun kind_severity :: "anomaly_kind \<Rightarrow> severity" where
  "kind_severity (CdLfhMismatch i n f c l) = High"
| "kind_severity (NameTraversal i n) = High"
| "kind_severity (NameBidi i n) = High"
| "kind_severity (CrcMismatch i n) = High"
| "kind_severity (NameAbsolute i n) = Medium"
| "kind_severity (Overlap a b p) = Medium"
| "kind_severity (SpanningAnomaly d c) = Medium"
| "kind_severity (NameControl i n) = Medium"
| "kind_severity (PrependedData l) = Low"
| "kind_severity (TrailingData l) = Low"

fun kind_code :: "anomaly_kind \<Rightarrow> rstring" where
  "kind_code (CdLfhMismatch i n f c l) = lit ''ZIP-CD-LFH-MISMATCH''"
| "kind_code (NameTraversal i n) = lit ''ZIP-NAME-TRAVERSAL''"
| "kind_code (NameAbsolute i n) = lit ''ZIP-NAME-ABSOLUTE''"
| "kind_code (PrependedData l) = lit ''ZIP-PREPENDED-DATA''"
| "kind_code (TrailingData l) = lit ''ZIP-TRAILING-DATA''"
| "kind_code (Overlap a b p) = lit ''ZIP-OVERLAP''"
| "kind_code (SpanningAnomaly d c) = lit ''ZIP-SPANNING-ANOMALY''"
| "kind_code (NameBidi i n) = lit ''ZIP-NAME-BIDI''"
| "kind_code (NameControl i n) = lit ''ZIP-NAME-CONTROL''"
| "kind_code (CrcMismatch i n) = lit ''ZIP-CRC-MISMATCH''"

fun kind_category :: "anomaly_kind \<Rightarrow> category" where
  "kind_category (CdLfhMismatch i n f c l) = Integrity"
| "kind_category (CrcMismatch i n) = Integrity"
| "kind_category (NameTraversal i n) = Threat"
| "kind_category (NameAbsolute i n) = Threat"
| "kind_category (NameBidi i n) = Concealment"
| "kind_category (NameControl i n) = Concealment"
| "kind_category (PrependedData l) = Structure"
| "kind_category (TrailingData l) = Structure"
| "kind_category (Overlap a b p) = Structure"
| "kind_category (SpanningAnomaly d c) = Structure"

text \<open>The dash in the notes is U+2014.\<close>

definition dash :: rstring where
  "dash = lit '' '' @ [0x2014] @ lit '' ''"

fun kind_note :: "(rstring \<Rightarrow> rstring) \<Rightarrow> anomaly_kind \<Rightarrow> rstring" where
  "kind_note debug_str (CdLfhMismatch i n field central local) =
     lit ''entry '' @ fmt_dec i @ lit '' ('' @ n @ lit ''): central-directory '' @ field @ lit '' ('' @
     central @ lit '') disagrees with the local file header ('' @ local @ lit '')'' @ dash @
     lit ''consistent with a post-hoc edit of one copy''"
| "kind_note debug_str (NameTraversal i n) =
     lit ''entry '' @ fmt_dec i @ lit '': name `'' @ n @ lit ''` contains `..` traversal'' @ dash @
     lit ''consistent with a Zip-Slip attempt to write outside the extraction root''"
| "kind_note debug_str (NameAbsolute i n) =
     lit ''entry '' @ fmt_dec i @ lit '': name `'' @ n @ lit ''` is absolute / drive-rooted'' @ dash @
     lit ''consistent with an attempt to write to a fixed location''"
| "kind_note debug_str (PrependedData l) =
     fmt_dec (unat l) @ lit '' byte(s) precede the first local file header'' @ dash @
     lit ''consistent with a self-extractor stub or polyglot (often benign)''"
| "kind_note debug_str (TrailingData l) =
     fmt_dec (unat l) @ lit '' byte(s) follow the End Of Central Directory record'' @ dash @
     lit ''consistent with appended or hidden data (often benign)''"
| "kind_note debug_str (Overlap a b p) =
     lit ''entries '' @ fmt_dec a @ lit '' and '' @ fmt_dec b @ lit '' have overlapping data ranges at offset '' @
     fmt_dec (unat p) @ dash @ lit ''structurally impossible for a normal archive''"
| "kind_note debug_str (SpanningAnomaly d c) =
     lit ''non-zero disk numbers (disk '' @ fmt_dec (unat d) @ lit '', cd-start disk '' @ fmt_dec (unat c) @
     lit '') in a single-file archive'' @ dash @ lit ''consistent with unexpected spanning markers''"
| "kind_note debug_str (NameBidi i n) =
     lit ''entry '' @ fmt_dec i @ lit '': name `'' @ n @ lit ''` contains an RTL/bidi override codepoint'' @ dash @
     lit ''consistent with filename-extension spoofing''"
| "kind_note debug_str (NameControl i n) =
     lit ''entry '' @ fmt_dec i @ lit '': name `'' @ debug_str n @ lit ''` contains control characters or NUL'' @ dash @
     lit ''consistent with display spoofing or path-handling exploits''"
| "kind_note debug_str (CrcMismatch i n) =
     lit ''entry '' @ fmt_dec i @ lit '' ('' @ n @
     lit ''): decoded data CRC-32 disagrees with the recorded value'' @ dash @
     lit ''consistent with corruption or tampering of the entry data''"

text \<open>Evidence has no location in this analyzer.\<close>

record evidence =
  ev_field :: rstring
  ev_value :: rstring

fun kind_evidence :: "(rstring \<Rightarrow> rstring) \<Rightarrow> anomaly_kind \<Rightarrow> evidence list" where
  "kind_evidence debug_str (CdLfhMismatch i n field central local) =
     [\<lparr> ev_field = lit ''central.'' @ field, ev_value = central \<rparr>,
      \<lparr> ev_field = lit ''local.'' @ field, ev_value = local \<rparr>]"
| "kind_evidence debug_str (NameTraversal i n) = [\<lparr> ev_field = lit ''name'', ev_value = debug_str n \<rparr>]"
| "kind_evidence debug_str (NameAbsolute i n) = [\<lparr> ev_field = lit ''name'', ev_value = debug_str n \<rparr>]"
| "kind_evidence debug_str (NameBidi i n) = [\<lparr> ev_field = lit ''name'', ev_value = debug_str n \<rparr>]"
| "kind_evidence debug_str (NameControl i n) = [\<lparr> ev_field = lit ''name'', ev_value = debug_str n \<rparr>]"
| "kind_evidence debug_str (PrependedData l) =
     [\<lparr> ev_field = lit ''prepended_bytes'', ev_value = fmt_dec (unat l) \<rparr>]"
| "kind_evidence debug_str (TrailingData l) =
     [\<lparr> ev_field = lit ''trailing_bytes'', ev_value = fmt_dec (unat l) \<rparr>]"
| "kind_evidence debug_str (Overlap a b p) =
     [\<lparr> ev_field = lit ''overlap_offset'', ev_value = fmt_dec (unat p) \<rparr>]"
| "kind_evidence debug_str (SpanningAnomaly d c) =
     [\<lparr> ev_field = lit ''disk_numbers'', ev_value = lit ''disk='' @ fmt_dec (unat d) @
        lit '', cd_start_disk='' @ fmt_dec (unat c) \<rparr>]"
| "kind_evidence debug_str (CrcMismatch i n) = [\<lparr> ev_field = lit ''entry'', ev_value = n \<rparr>]"

record anomaly =
  an_severity :: severity
  an_code :: rstring
  an_kind :: anomaly_kind
  an_note :: rstring

definition Anomaly_new :: "(rstring \<Rightarrow> rstring) \<Rightarrow> anomaly_kind \<Rightarrow> anomaly" where
  "Anomaly_new debug_str kind =
     \<lparr> an_severity = kind_severity kind, an_code = kind_code kind, an_kind = kind,
       an_note = kind_note debug_str kind \<rparr>"

text \<open>\<open>impl Observation for Anomaly\<close>: what a report reads of an anomaly, category and evidence from its kind.\<close>

record observation =
  ob_severity :: "severity option"
  ob_code :: rstring
  ob_note :: rstring
  ob_category :: category
  ob_evidence :: "evidence list"

definition observe :: "(rstring \<Rightarrow> rstring) \<Rightarrow> anomaly \<Rightarrow> observation" where
  "observe debug_str a =
     \<lparr> ob_severity = Some (an_severity a), ob_code = an_code a, ob_note = an_note a,
       ob_category = kind_category (an_kind a), ob_evidence = kind_evidence debug_str (an_kind a) \<rparr>"

section \<open>Suspicious names\<close>

definition has_traversal :: "rstring \<Rightarrow> bool" where
  "has_traversal name \<longleftrightarrow> list_ex (\<lambda>c. c = lit ''..'') (split_sep name)"

definition is_absolute :: "rstring \<Rightarrow> bool" where
  "is_absolute name \<longleftrightarrow>
     (if starts_with_char name slash \<or> starts_with_char name backslash then True
      else has_drive_prefix name)"

definition is_bidi :: "rchar \<Rightarrow> bool" where
  "is_bidi c \<longleftrightarrow> 0x202A \<le> c \<and> c \<le> 0x202E \<or> 0x2066 \<le> c \<and> c \<le> 0x2069 \<or> c = 0x200E \<or> c = 0x200F"

definition has_bidi_override :: "rstring \<Rightarrow> bool" where
  "has_bidi_override name \<longleftrightarrow> list_ex is_bidi name"

definition has_control_chars :: "rstring \<Rightarrow> bool" where
  "has_control_chars name \<longleftrightarrow> list_ex is_control name"

section \<open>The audits\<close>

text \<open>
  An anomaly is its kind with what is derived from it, so the audits list kinds and \<open>Anomaly_new\<close>
  is applied where the public functions return.
\<close>

definition mismatch :: "entry_layout \<Rightarrow> rstring \<Rightarrow> rstring \<Rightarrow> rstring \<Rightarrow> anomaly_kind" where
  "mismatch e field central local =
     CdLfhMismatch (el_index e) (hf_name (el_central e)) field central local"

definition compare_size :: "entry_layout \<Rightarrow> rstring \<Rightarrow> u64 \<Rightarrow> u64 \<Rightarrow> anomaly_kind list" where
  "compare_size e field central local =
     (if local = 0xFFFFFFFF then []
      else if central \<noteq> local then [mismatch e field (fmt_dec (unat central)) (fmt_dec (unat local))]
      else [])"

definition audit_names :: "entry_layout \<Rightarrow> anomaly_kind list" where
  "audit_names e =
     (let name = hf_name (el_central e); i = el_index e in
      (if has_traversal name then [NameTraversal i name] else []) @
      (if is_absolute name then [NameAbsolute i name] else []) @
      (if has_bidi_override name then [NameBidi i name] else []) @
      (if has_control_chars name then [NameControl i name] else []))"

definition audit_copies :: "entry_layout \<Rightarrow> anomaly_kind list" where
  "audit_copies e =
     (let c = el_central e; l = el_local e in
      (if hf_name c \<noteq> hf_name l then [mismatch e (lit ''name'') (hf_name c) (hf_name l)] else []) @
      (if hf_method c \<noteq> hf_method l
       then [mismatch e (lit ''method'') (debug_method (hf_method c)) (debug_method (hf_method l))] else []) @
      (if \<not> has_bits (hf_flags l) 0x0008 then
         (if hf_crc32 c \<noteq> hf_crc32 l
          then [mismatch e (lit ''crc32'') (fmt_hex_width 10 (unat (hf_crc32 c))) (fmt_hex_width 10 (unat (hf_crc32 l)))]
          else []) @
         compare_size e (lit ''compressed_size'') (hf_compressed_size c) (hf_compressed_size l) @
         compare_size e (lit ''uncompressed_size'') (hf_uncompressed_size c) (hf_uncompressed_size l)
       else []))"

definition audit_entry :: "entry_layout \<Rightarrow> anomaly_kind list" where
  "audit_entry e = audit_names e @ audit_copies e"

definition span_of :: "entry_layout \<Rightarrow> usize \<times> u64 \<times> u64" where
  "span_of e = (el_index e, el_data_start e,
     saturating_add64 (el_data_start e) (hf_compressed_size (el_central e)))"

text \<open>\<open>windows(2)\<close> of the spans sorted (stably) by their start.\<close>

fun overlap_windows :: "(usize \<times> u64 \<times> u64) list \<Rightarrow> anomaly_kind list" where
  "overlap_windows ((a_idx, a_start, a_end) # (b_idx, b_start, b_end) # rest) =
     (if b_start < a_end then [Overlap a_idx b_idx b_start] else []) @
     overlap_windows ((b_idx, b_start, b_end) # rest)"
| "overlap_windows _ = []"

definition audit_overlaps :: "entry_layout list \<Rightarrow> anomaly_kind list" where
  "audit_overlaps layout = overlap_windows (sort_key (\<lambda>(_, start, _). start) (map span_of layout))"

definition audit_prepended :: "entry_layout list \<Rightarrow> anomaly_kind list" where
  "audit_prepended layout =
     (if layout = [] then []
      else let first = foldr min (map el_lfh_offset (tl layout)) (el_lfh_offset (hd layout)) in
        if 0 < first then [PrependedData first] else [])"

definition audit_layout :: "(rstring \<Rightarrow> rstring) \<Rightarrow> entry_layout list \<Rightarrow> anomaly list" where
  "audit_layout debug_str layout = map (Anomaly_new debug_str)
     (audit_prepended layout @ concat (map audit_entry layout) @ audit_overlaps layout)"

definition spans :: "u32 \<Rightarrow> bool" where
  "spans d \<longleftrightarrow> d \<noteq> 0 \<and> d \<noteq> 0xFFFFFFFF"

definition audit_container :: "(rstring \<Rightarrow> rstring) \<Rightarrow> archive_summary \<Rightarrow> entry_layout list \<Rightarrow> anomaly list" where
  "audit_container debug_str summary layout = map (Anomaly_new debug_str)
     ((if eocd_end_offset summary < file_len summary
       then [TrailingData (file_len summary - eocd_end_offset summary)] else []) @
      (if spans (disk_number summary) \<or> spans (cd_start_disk summary)
       then [SpanningAnomaly (disk_number summary) (cd_start_disk summary)] else []))"

fun is_crc_mismatch :: "io_error \<Rightarrow> bool" where
  "is_crc_mismatch (IoOther (CrcMismatchError n e a)) = True"
| "is_crc_mismatch _ = False"

text \<open>
  \<open>io::copy\<close> to the sink reads the entry to its end and keeps only how that went. \<open>None\<close> is a decoder
  that never ends.
\<close>

fun audit_data ::
  "('h, 'c, 'm, 'd, 'x) externals \<Rightarrow> zip_archive \<Rightarrow> (nat \<times> entry_layout) list
     \<Rightarrow> (anomaly_kind list, zip_core_error) outcome option" where
  "audit_data E archive [] = Some (Ok [])"
| "audit_data E archive ((i, e) # rest) =
     (case by_index E archive i of
        None \<Rightarrow> None
      | Some (Ok entry) \<Rightarrow>
          (case read_entry E entry of
             None \<Rightarrow> None
           | Some Panic \<Rightarrow> Some Panic
           | Some (Ok _) \<Rightarrow> audit_data E archive rest
           | Some (Err err) \<Rightarrow>
               map_option (\<lambda>v. and_then v (\<lambda>found.
                   Ok ((if is_crc_mismatch err then [CrcMismatch i (hf_name (el_central e))] else []) @ found)))
                 (audit_data E archive rest))
      | Some (Err _) \<Rightarrow> audit_data E archive rest
      | Some Panic \<Rightarrow> Some Panic)"

definition audit_reader ::
  "('h, 'c, 'm, 'd, 'x) externals \<Rightarrow> (rstring \<Rightarrow> rstring) \<Rightarrow> cursor
     \<Rightarrow> (anomaly list, zip_core_error) outcome option" where
  "audit_reader E debug_str reader =
     bind_opt (ZipArchive_new reader) (\<lambda>archive0.
     case structural_view archive0 of
       (Ok layout, archive) \<Rightarrow>
         (let out = audit_layout debug_str layout @ audit_container debug_str (za_summary archive) layout in
          map_option (\<lambda>v. and_then v (\<lambda>found. Ok (out @ map (Anomaly_new debug_str) found)))
            (audit_data E archive (enumerate 0 layout)))
     | (Err e, _) \<Rightarrow> Some (Err e)
     | (Panic, _) \<Rightarrow> Some Panic)"

definition audit_path ::
  "('h, 'c, 'm, 'd, 'x) externals \<Rightarrow> (rstring \<Rightarrow> rstring) \<Rightarrow> (rstring \<Rightarrow> (u8 list, io_error) outcome)
     \<Rightarrow> rstring \<Rightarrow> (anomaly list, zip_core_error) outcome option" where
  "audit_path E debug_str fs path =
     bind_opt (map_err Io (fs path)) (\<lambda>contents. audit_reader E debug_str (cursor_new contents))"

section \<open>Overlaps\<close>

abbreviation span_start :: "usize \<times> u64 \<times> u64 \<Rightarrow> u64" where "span_start s \<equiv> fst (snd s)"
abbreviation span_end :: "usize \<times> u64 \<times> u64 \<Rightarrow> u64" where "span_end s \<equiv> snd (snd s)"

lemma overlap_windows_Nil:
  assumes "overlap_windows ys = []" and "sorted (map span_start ys)"
  shows "sorted_wrt (\<lambda>a b. span_end a \<le> span_start b) ys"
  using assms
proof (induction ys rule: overlap_windows.induct)
  case (1 a_idx a_start a_end b_idx b_start b_end rest)
  then have "a_end \<le> b_start" "\<forall>c \<in> set rest. b_start \<le> span_start c"
    by (auto split: if_splits simp: not_less)
  with 1 show ?case by (auto intro: order_trans)
qed auto

lemma overlap_windows_sound:
  assumes "k \<in> set (overlap_windows ys)" and "sorted (map span_start ys)"
  shows "\<exists>x y. {#x, y#} \<subseteq># mset ys \<and> k = Overlap (fst x) (fst y) (span_start y) \<and>
    span_start x \<le> span_start y \<and> span_start y < span_end x"
  using assms
proof (induction ys rule: overlap_windows.induct)
  case (1 a_idx a_start a_end b_idx b_start b_end rest)
  show ?case
  proof (cases "k \<in> set (overlap_windows ((b_idx, b_start, b_end) # rest))")
    case True
    with 1 obtain x y where xy: "{#x, y#} \<subseteq># mset ((b_idx, b_start, b_end) # rest)"
      "k = Overlap (fst x) (fst y) (span_start y)" "span_start x \<le> span_start y" "span_start y < span_end x"
      by auto
    have "mset ((b_idx, b_start, b_end) # rest) \<subseteq># mset ((a_idx, a_start, a_end) # (b_idx, b_start, b_end) # rest)"
      by simp
    with xy show ?thesis using subset_mset.order_trans by blast
  next
    case False
    with 1 have "k = Overlap a_idx b_idx b_start" "b_start < a_end" "a_start \<le> b_start"
      by (auto split: if_splits)
    then show ?thesis
      by (intro exI [of _ "(a_idx, a_start, a_end)"] exI [of _ "(b_idx, b_start, b_end)"]) simp
  qed
qed auto

lemma sorted_wrt_pair:
  assumes "sorted_wrt R ys" and "{#a, b#} \<subseteq># mset ys"
  shows "R a b \<or> R b a"
proof -
  from assms(2) have "a \<in> set ys" and b: "b \<in> set (remove1 a ys)"
    by (simp_all add: insert_subset_eq_iff) (metis in_multiset_in_set mset_remove1)
  then obtain us vs where ys: "ys = us @ a # vs" "a \<notin> set us" by (meson split_list_first)
  with b have "b \<in> set us \<or> b \<in> set vs" by (simp add: remove1_append)
  with assms(1) show ?thesis unfolding ys(1) by (auto simp: sorted_wrt_append)
qed

lemma pair_in_mset:
  assumes "i < length xs" and "j < length xs" and "i < j"
  shows "{#xs ! i, xs ! j#} \<subseteq># mset xs"
proof -
  have xs: "xs = take i xs @ xs ! i # drop (Suc i) xs" using assms(1) by (rule id_take_nth_drop)
  have "drop (Suc i) xs ! (j - Suc i) = xs ! j" "j - Suc i < length (drop (Suc i) xs)"
    using assms by simp_all
  then have "xs ! j \<in> set (drop (Suc i) xs)" by (metis nth_mem)
  then have "{#xs ! i, xs ! j#} \<subseteq># mset (xs ! i # drop (Suc i) xs)" by simp
  also have "\<dots> \<subseteq># mset (take i xs @ xs ! i # drop (Suc i) xs)" by (simp add: mset_subset_eq_add_right)
  finally show ?thesis using xs by simp
qed

lemma pair_in_image_mset:
  assumes "{#x, y#} \<subseteq># image_mset f M"
  obtains e e' where "{#e, e'#} \<subseteq># M" "f e = x" "f e' = y"
proof -
  from assms have "x \<in># image_mset f M" by (simp add: insert_subset_eq_iff)
  then obtain e where "e \<in># M" "f e = x" by auto
  then obtain M' where M: "M = add_mset e M'" by (metis insert_DiffM)
  with assms \<open>f e = x\<close> have "y \<in># image_mset f M'" by (simp add: insert_subset_eq_iff)
  then obtain e' where "e' \<in># M'" "f e' = y" by auto
  with M \<open>f e = x\<close> that [of e e'] show thesis by simp
qed

text \<open>
  C38: Every overlap reported is one: the two entries it names are in the view and the second's data
  starts, where reported, inside the first's range. And where the data ranges of any two entries
  share a byte, some overlap is reported.
\<close>

theorem audit_overlaps_sound_complete:
  "(\<forall>k \<in> set (audit_overlaps layout). \<exists>e e'. {#e, e'#} \<subseteq># mset layout \<and>
      k = Overlap (el_index e) (el_index e') (el_data_start e') \<and>
      el_data_start e \<le> el_data_start e' \<and> el_data_start e' < span_end (span_of e)) \<and>
   (\<forall>i j. i < j \<and> j < length layout \<and>
      max (el_data_start (layout ! i)) (el_data_start (layout ! j)) <
      min (span_end (span_of (layout ! i))) (span_end (span_of (layout ! j))) \<longrightarrow> audit_overlaps layout \<noteq> [])"
proof (intro conjI ballI allI impI)
  let ?ys = "sort_key span_start (map span_of layout)"
  have key: "audit_overlaps layout = overlap_windows ?ys" by (simp add: audit_overlaps_def case_prod_beta')
  have sorted: "sorted (map span_start ?ys)" by (rule sorted_sort_key)
  fix k assume "k \<in> set (audit_overlaps layout)"
  from overlap_windows_sound [OF this [unfolded key] sorted] obtain x y where
    xy: "{#x, y#} \<subseteq># mset ?ys" "k = Overlap (fst x) (fst y) (span_start y)"
    "span_start x \<le> span_start y" "span_start y < span_end x" by blast
  from xy(1) have "{#x, y#} \<subseteq># image_mset span_of (mset layout)" by simp
  then obtain e e' where "{#e, e'#} \<subseteq># mset layout" "span_of e = x" "span_of e' = y"
    by (rule pair_in_image_mset)
  with xy(2-4) show "\<exists>e e'. {#e, e'#} \<subseteq># mset layout \<and>
      k = Overlap (el_index e) (el_index e') (el_data_start e') \<and>
      el_data_start e \<le> el_data_start e' \<and> el_data_start e' < span_end (span_of e)"
    by (intro exI [of _ e] exI [of _ e']) (auto simp: span_of_def)
next
  let ?ys = "sort_key span_start (map span_of layout)"
  fix i j assume ij: "i < j \<and> j < length layout \<and>
      max (el_data_start (layout ! i)) (el_data_start (layout ! j)) <
      min (span_end (span_of (layout ! i))) (span_end (span_of (layout ! j)))"
  show "audit_overlaps layout \<noteq> []"
  proof
    assume "audit_overlaps layout = []"
    then have "overlap_windows ?ys = []" by (simp add: audit_overlaps_def case_prod_beta')
    from overlap_windows_Nil [OF this sorted_sort_key] have "sorted_wrt (\<lambda>a b. span_end a \<le> span_start b) ?ys" .
    moreover have "{#span_of (layout ! i), span_of (layout ! j)#} \<subseteq># mset ?ys"
      using pair_in_mset [of i "map span_of layout" j] ij by simp
    ultimately have "span_end (span_of (layout ! i)) \<le> span_start (span_of (layout ! j)) \<or>
        span_end (span_of (layout ! j)) \<le> span_start (span_of (layout ! i))"
      by (rule sorted_wrt_pair)
    with ij show False by (auto simp: span_of_def)
  qed
qed

text \<open>Three entries, the first covering the data of the other two.\<close>

definition sample_copy :: "u64 \<Rightarrow> header_fields" where
  "sample_copy sz = \<lparr> hf_name = [97], hf_method = Stored, hf_flags = 0, hf_crc32 = 0,
     hf_compressed_size = sz, hf_uncompressed_size = sz \<rparr>"

definition sample_entry :: "nat \<Rightarrow> u64 \<Rightarrow> u64 \<Rightarrow> entry_layout" where
  "sample_entry i start sz = \<lparr> el_index = i, el_lfh_offset = 0, el_data_start = start,
     el_central = sample_copy sz, el_local = sample_copy sz, el_extra = extra_fields_default \<rparr>"

definition nested_layout :: "entry_layout list" where
  "nested_layout = [sample_entry 0 40 100, sample_entry 1 50 10, sample_entry 2 70 10]"

lemma nested_overlaps: "audit_overlaps nested_layout = [Overlap 0 1 50]"
proof -
  have "saturating_add64 40 100 = (140 :: u64)" "saturating_add64 50 10 = (60 :: u64)" "saturating_add64 70 10 = (80 :: u64)"
    by (simp_all add: saturating_add64_def)
  then show ?thesis
    by (simp add: audit_overlaps_def nested_layout_def sample_entry_def sample_copy_def span_of_def word_less_nat_alt word_le_nat_alt)
qed

theorem audit_overlaps_sound_complete_witness:
  "audit_overlaps nested_layout \<noteq> [] \<and>
   (\<exists>e e'. {#e, e'#} \<subseteq># mset nested_layout \<and> Overlap 0 1 50 = Overlap (el_index e) (el_index e') (el_data_start e'))"
proof -
  note facts = audit_overlaps_sound_complete [of nested_layout]
  have "saturating_add64 40 100 = (140 :: u64)" "saturating_add64 70 10 = (80 :: u64)"
    by (simp_all add: saturating_add64_def)
  then have "max (el_data_start (nested_layout ! 0)) (el_data_start (nested_layout ! 2)) <
      min (span_end (span_of (nested_layout ! 0))) (span_end (span_of (nested_layout ! 2)))"
    by (simp add: nested_layout_def sample_entry_def sample_copy_def span_of_def word_less_nat_alt word_le_nat_alt max_def min_def)
  moreover have "(0 :: nat) < 2" "2 < length nested_layout" by (simp_all add: nested_layout_def)
  ultimately have "audit_overlaps nested_layout \<noteq> []" using facts by blast
  moreover have "Overlap 0 1 50 \<in> set (audit_overlaps nested_layout)" by (simp add: nested_overlaps)
  ultimately show ?thesis using facts by blast
qed

text \<open>
  Only neighbours in the order of data starts are compared: of an entry whose range covers those of
  two others, the overlap with the second is not reported.
\<close>

theorem audit_overlaps_misses:
  "audit_overlaps nested_layout = [Overlap 0 1 50] \<and>
   el_data_start (nested_layout ! 2) < span_end (span_of (nested_layout ! 0)) \<and>
   (\<forall>p. Overlap 0 2 p \<notin> set (audit_overlaps nested_layout))"
  by (simp add: nested_overlaps) (simp add: nested_layout_def sample_entry_def sample_copy_def span_of_def
    saturating_add64_def word_less_nat_alt)

section \<open>The two copies of a header\<close>

definition size_agrees :: "u64 \<Rightarrow> u64 \<Rightarrow> bool" where
  "size_agrees central local \<longleftrightarrow> local = 0xFFFFFFFF \<or> central = local"

text \<open>
  No disagreement is reported for an entry exactly when its two names and methods are equal and,
  unless the local header says its sizes follow the data, the checksums are equal and so is each size
  that the local header does not leave to Zip64. The flag words are not compared, so setting the
  data-descriptor bit in the local copy alone hides any change of checksum and sizes.
\<close>

theorem audit_copies_silent_iff:
  "audit_copies e = [] \<longleftrightarrow>
     hf_name (el_central e) = hf_name (el_local e) \<and> hf_method (el_central e) = hf_method (el_local e) \<and>
     (has_bits (hf_flags (el_local e)) 0x0008 \<or>
       (hf_crc32 (el_central e) = hf_crc32 (el_local e) \<and>
        size_agrees (hf_compressed_size (el_central e)) (hf_compressed_size (el_local e)) \<and>
        size_agrees (hf_uncompressed_size (el_central e)) (hf_uncompressed_size (el_local e))))"
  by (auto simp: audit_copies_def Let_def compare_size_def size_agrees_def)

text \<open>
  The auditor and the extractor agree: on Unix an entry has no extraction path exactly when its name
  is flagged as absolute or as a traversal, contains a NUL (which is flagged as a control character), or
  has no real component at all.
\<close>

theorem audit_names_extraction:
  "(enclosed_name Unix name = None \<longleftrightarrow>
      is_absolute name \<or> has_traversal name \<or> 0 \<in> set name \<or> filter real_component (split_sep name) = []) \<and>
   (0 \<in> set name \<longrightarrow> has_control_chars name)"
proof -
  have "has_traversal name \<longleftrightarrow> lit ''..'' \<in> set (split_sep name)"
    by (auto simp: has_traversal_def list_ex_iff)
  moreover have "is_absolute name \<longleftrightarrow> starts_with_char name slash \<or> starts_with_char name backslash \<or> has_drive_prefix name"
    by (simp add: is_absolute_def)
  moreover have "name = [] \<Longrightarrow> filter real_component (split_sep name) = []"
    by (simp add: real_component_def)
  moreover have "0 \<in> set name \<Longrightarrow> has_control_chars name"
    unfolding has_control_chars_def list_ex_iff is_control_def by (rule bexI [of _ 0]) simp_all
  ultimately show ?thesis by (auto simp: enclosed_name_unix rejected_prefix_def)
qed

theorem audit_names_extraction_witness:
  "enclosed_name Unix [97, 0] = None \<and> has_control_chars [97, 0]"
  using audit_names_extraction [of "[97, 0]"] by simp

section \<open>The whole audit\<close>

definition crc_findings ::
  "('h, 'c, 'm, 'd, 'x) externals \<Rightarrow> zip_archive \<Rightarrow> nat \<times> entry_layout \<Rightarrow> anomaly_kind list" where
  "crc_findings E archive = (\<lambda>(i, e).
     case by_index E archive i of
       Some (Ok f) \<Rightarrow>
         (case read_entry E f of
            Some (Err err) \<Rightarrow> if is_crc_mismatch err then [CrcMismatch i (hf_name (el_central e))] else []
          | _ \<Rightarrow> [])
     | _ \<Rightarrow> [])"

lemma audit_data_Ok:
  "audit_data E archive xs = Some (Ok found) \<Longrightarrow> found = concat (map (crc_findings E archive) xs)"
proof (induction xs arbitrary: found)
  case (Cons x xs)
  obtain i e where x: "x = (i, e)" by (rule prod.exhaust)
  from Cons.prems [unfolded x] Cons.IH show ?case
    by (auto simp: x crc_findings_def split: option.splits outcome.splits)
qed simp

text \<open>The sample archive with a wrong checksum, for the witnesses.\<close>

abbreviation corrupt_archive :: "u8 list" where
  "corrupt_archive \<equiv> crc_archive 7"

lemmas corrupt_opens = crc_archive_opens [of 7]

lemma corrupt_audit: "\<exists>out. audit_reader sample_externals debug_str (cursor_new corrupt_archive) = Some (Ok out)"
proof -
  from corrupt_opens obtain a m row a' where a: "ZipArchive_new (cursor_new corrupt_archive) = Ok a"
    "za_entries a = [m]" "placed (za_reader a) m [0xFF]" "on_one_disk a m" "ce_flags m = 0" "ce_method m = Stored"
    "structural_view a = (Ok [row], a')" by blast
  note same = structural_view_data [OF a(7)]
  have "placed (za_reader a') m [0xFF]" "on_one_disk a' m"
    using a(3,4) same by (simp_all add: placed_def on_one_disk_def)
  from archive_open_stored [OF this, of sample_externals] a(5,6) obtain f where
    "archive_open sample_externals a' m = Some (Ok f)"
    "read_entry sample_externals f = Some (crc_verdict sample_externals m True [0xFF])"
    by (auto simp: has_bits_def crc_chunked_bytewise)
  then have "\<exists>found. audit_data sample_externals a' (enumerate 0 [row]) = Some (Ok found)"
    using same(1) a(2) by (auto simp: by_index_def entry_at_def crc_verdict_def)
  with a(1,7) show ?thesis by (auto simp: audit_reader_def Let_def)
qed

fun is_crc_kind :: "anomaly_kind \<Rightarrow> bool" where
  "is_crc_kind (CrcMismatch i n) = True"
| "is_crc_kind _ = False"

lemma overlap_windows_no_crc: "k \<in> set (overlap_windows ys) \<Longrightarrow> \<not> is_crc_kind k"
  by (induction ys rule: overlap_windows.induct) (auto split: if_splits)

lemma audit_entry_no_crc: "k \<in> set (audit_entry e) \<Longrightarrow> \<not> is_crc_kind k"
  by (auto simp: audit_entry_def audit_names_def audit_copies_def compare_size_def mismatch_def Let_def split: if_splits)

lemma an_kind_new [simp]: "an_kind (Anomaly_new debug_str k) = k"
  by (simp add: Anomaly_new_def)

lemma audit_view_no_crc:
  assumes "x \<in> set (audit_layout debug_str layout @ audit_container debug_str summary layout)"
  shows "\<not> is_crc_kind (an_kind x)"
proof -
  have "\<not> is_crc_kind k" if "k \<in> set (audit_prepended layout)" for k
    using that by (auto simp: audit_prepended_def Let_def split: if_splits)
  with assms show ?thesis
    by (auto simp: audit_layout_def audit_container_def audit_overlaps_def
        dest: overlap_windows_no_crc audit_entry_no_crc split: if_splits)
qed

lemma crc_kinds_append:
  assumes "\<And>x. x \<in> set xs \<Longrightarrow> \<not> is_crc_kind (an_kind x)"
  shows "CrcMismatch i name \<in> an_kind ` set (xs @ map (Anomaly_new debug_str) found) \<longleftrightarrow> CrcMismatch i name \<in> set found"
proof -
  have "CrcMismatch i name \<notin> an_kind ` set xs"
  proof
    assume "CrcMismatch i name \<in> an_kind ` set xs"
    then obtain x where "x \<in> set xs" "an_kind x = CrcMismatch i name" by force
    with assms [of x] show False by simp
  qed
  then show ?thesis by (simp add: image_Un image_image)
qed

lemma in_enumerate: "(i, e) \<in> set (enumerate 0 xs) \<longleftrightarrow> i < length xs \<and> e = xs ! i"
  by (auto simp: in_set_enumerate_eq)

text \<open>
  C26: In the audit of an archive, an unencrypted entry of any supported method whose bytes follow its local
  header is reported as corrupt exactly when the CRC-32 of the data they stand for is not the recorded one.
\<close>

theorem audit_detects_corruption:
  assumes "audit_reader E debug_str c = Some (Ok out)" and "ZipArchive_new c = Ok a"
    and "i < length (za_entries a)" and "za_entries a ! i = m" and "placed (za_reader a) m data"
    and "on_one_disk a m" and "\<not> has_bits (ce_flags m) 1" and "codec_decodes (x_codec E) K"
    and "entry_plain K (ce_method m) (ce_uncompressed_size m) data = Some p"
    and "crc_chunked (x_crc E)" and "\<And>j. 0 < x_sizes E j" and "length p < 2 ^ 64"
  shows "(\<exists>name. CrcMismatch i name \<in> an_kind ` set out) \<longleftrightarrow> crc_of (x_crc E) p \<noteq> ce_crc32 m"
proof -
  from assms(1) obtain layout a' where sv: "structural_view a = (Ok layout, a')" and
    out: "out = audit_layout debug_str layout @ audit_container debug_str (za_summary a') layout @
      map (Anomaly_new debug_str) (concat (map (crc_findings E a') (enumerate 0 layout)))"
  proof -
    obtain v a' where sv: "structural_view a = (v, a')" by (rule prod.exhaust)
    from assms(1,2) sv obtain layout where v: "v = Ok layout" by (cases v) (auto simp: audit_reader_def)
    with assms(1,2) sv obtain found where "audit_data E a' (enumerate 0 layout) = Some (Ok found)"
      "out = (audit_layout debug_str layout @ audit_container debug_str (za_summary a') layout) @
        map (Anomaly_new debug_str) found"
      by (auto simp: audit_reader_def Let_def)
    with audit_data_Ok that sv v show thesis by auto
  qed
  note same = structural_view_data [OF sv]
  have i: "i < length layout" using structural_view_rows(1) [OF sv] assms(3) by simp
  have "placed (za_reader a') m data" "on_one_disk a' m"
    using assms(5,6) same by (simp_all add: placed_def on_one_disk_def)
  from archive_open_compressed [OF this assms(7-12)] obtain f where
    f: "archive_open E a' m = Some (Ok f)" "read_entry E f = Some (crc_verdict E m True p)" by blast
  then have by_index: "by_index E a' i = Some (Ok f)"
    using assms(3,4) same by (simp add: by_index_def entry_at_def)
  have "(\<exists>name. CrcMismatch i name \<in> an_kind ` set out) \<longleftrightarrow>
      (\<exists>name. CrcMismatch i name \<in> set (concat (map (crc_findings E a') (enumerate 0 layout))))"
    (is "_ \<longleftrightarrow> (\<exists>name. _ \<in> set ?found)")
  proof -
    have "CrcMismatch i name \<in> an_kind ` set out \<longleftrightarrow> CrcMismatch i name \<in> set ?found" for name
      unfolding out append_assoc [symmetric] by (rule crc_kinds_append) (rule audit_view_no_crc)
    then show ?thesis by blast
  qed
  also have "\<dots> \<longleftrightarrow> (\<exists>name. CrcMismatch i name \<in> set (crc_findings E a' (i, layout ! i)))"
  proof -
    have "j = i" if "CrcMismatch i name \<in> set (crc_findings E a' (j, e))" for j e name
      using that by (auto simp: crc_findings_def split: option.splits outcome.splits if_splits)
    then show ?thesis using i by (fastforce simp: in_enumerate)
  qed
  also have "\<dots> \<longleftrightarrow> crc_of (x_crc E) p \<noteq> ce_crc32 m"
    using by_index f(2) by (auto simp: crc_findings_def crc_verdict_def)
  finally show ?thesis .
qed

theorem audit_detects_corruption_witness:
  "\<exists>out name. audit_reader sample_externals (\<lambda>s. s) (cursor_new corrupt_archive) = Some (Ok out) \<and>
    CrcMismatch 0 name \<in> an_kind ` set out"
proof -
  from corrupt_audit [of "\<lambda>s. s"] obtain out where
    out: "audit_reader sample_externals (\<lambda>s. s) (cursor_new corrupt_archive) = Some (Ok out)" by blast
  from corrupt_opens obtain a m where a: "ZipArchive_new (cursor_new corrupt_archive) = Ok a"
    "za_entries a = [m]" "placed (za_reader a) m [0xFF]" "on_one_disk a m" "ce_flags m = 0" "ce_method m = Stored"
    "ce_crc32 m = 7" by blast
  from audit_detects_corruption [OF out a(1), where i = 0 and m = m and p = "[0xFF]", OF _ _ _ _ _ codec_decodes_sample] a
  have "\<exists>name. CrcMismatch 0 name \<in> an_kind ` set out"
    by (simp add: has_bits_def crc_chunked_bytewise crc_sample)
  with out show ?thesis by blast
qed

end
