(* ===== verification/WholeArchive.thy ===== *)
theory WholeArchive
  imports Forensic
begin

text \<open>
  A whole archive, written member by member: each member's local header and data one after the other,
  the central directory pointing back at them. The auditor's verdict on it, from opening it to
  decoding every entry, is known exactly.
\<close>

section \<open>Members\<close>

record member =
  m_header :: cd_header
  m_local :: local_header
  m_data :: "u8 list"
  m_plain :: "u8 list"

definition members_body :: "member list \<Rightarrow> u8 list" where
  "members_body ms = concat (map (\<lambda>m. encode_local (m_local m) @ m_data m) ms)"

definition written :: "u8 list \<Rightarrow> member list \<Rightarrow> u8 list \<Rightarrow> u8 list" where
  "written pre ms comment = encode_archive pre (members_body ms) (map m_header ms) comment"

definition member_name :: "member \<Rightarrow> rstring" where
  "member_name m = decode_name (h_name (m_header m)) (h_flags (m_header m))"

text \<open>
  The two headers of an unencrypted member say the same, and the lengths of its bytes and of the data they
  stand for under its method.
\<close>

definition copies_agree :: "decodes \<Rightarrow> member \<Rightarrow> bool" where
  "copies_agree K m \<longleftrightarrow> (let h = m_header m; l = m_local m; size = of_nat (length (m_plain m)) in
     local_ok l \<and> l_method l = h_method h \<and> l_name l = h_name h \<and> l_flags l = h_flags h \<and>
     \<not> has_bits (h_flags h) 1 \<and> h_disk_start h = 0 \<and> l_crc32 l = h_crc32 h \<and>
     h_compressed32 h = of_nat (length (m_data m)) \<and> h_uncompressed32 h = size \<and>
     l_compressed32 l = h_compressed32 h \<and> l_uncompressed32 l = size \<and> length (m_plain m) < 4294967295 \<and>
     entry_plain K (method_from_u16 (h_method h)) (ucast size) (m_data m) = Some (m_plain m))"

definition well_written :: "decodes \<Rightarrow> member list \<Rightarrow> bool" where
  "well_written K ms \<longleftrightarrow> list_all (\<lambda>j. copies_agree K (ms ! j) \<and>
     h_lfh_offset32 (m_header (ms ! j)) = of_nat (length (members_body (take j ms)))) [0..<length ms]"

definition innocuous :: "rstring \<Rightarrow> bool" where
  "innocuous name \<longleftrightarrow>
     \<not> has_traversal name \<and> \<not> is_absolute name \<and> \<not> has_bidi_override name \<and> \<not> has_control_chars name"

text \<open>The members whose data does not have the recorded checksum.\<close>

definition corrupt_members :: "'h crc_lib \<Rightarrow> member list \<Rightarrow> anomaly_kind list" where
  "corrupt_members H ms = concat (map (\<lambda>(j, m).
     if crc_of H (m_plain m) = h_crc32 (m_header m) then [] else [CrcMismatch j (member_name m)]) (enumerate 0 ms))"

section \<open>Positions\<close>

lemma members_body_split:
  assumes "j < length ms"
  shows "members_body ms = members_body (take j ms) @ encode_local (m_local (ms ! j)) @ m_data (ms ! j) @
    members_body (drop (Suc j) ms)"
proof -
  have "members_body ms = members_body (take j ms @ ms ! j # drop (Suc j) ms)"
    using id_take_nth_drop [OF assms] by simp
  then show ?thesis by (simp add: members_body_def)
qed

lemma members_body_later:
  assumes "i < j" and "j < length ms"
  shows "length (members_body (take i ms)) + length (encode_local (m_local (ms ! i))) + length (m_data (ms ! i))
    \<le> length (members_body (take j ms))"
  using members_body_split [of i "take j ms"] assms by (simp add: min_def)

lemma members_body_within:
  assumes "j < length ms"
  shows "length (members_body (take j ms)) + length (encode_local (m_local (ms ! j))) + length (m_data (ms ! j))
    \<le> length (members_body ms)"
  by (subst members_body_split [OF assms]) simp

lemma length_written:
  assumes "archive_ok pre (members_body ms) (map m_header ms) comment"
  shows "length (written pre ms comment) < 2 ^ 63" and "length pre + length (members_body ms) < 2 ^ 63"
  using assms by (simp_all add: written_def encode_archive_def archive_ok_def comment_ok_def length_archive_eocd)

section \<open>Opening\<close>

definition plain_entry :: "u8 list \<Rightarrow> cd_header \<Rightarrow> central_entry" where
  "plain_entry pre h =
     \<lparr> ce_name = decode_name (h_name h) (h_flags h), ce_method = method_from_u16 (h_method h),
       ce_flags = h_flags h, ce_crc32 = h_crc32 h, ce_compressed_size = ucast (h_compressed32 h),
       ce_uncompressed_size = ucast (h_uncompressed32 h),
       ce_lfh_offset = ucast (h_lfh_offset32 h) + of_nat (length pre), ce_last_mod_time = h_mod_time h,
       ce_aes = (if h_method h = 99 then parse_aes_extra (h_extra h) else None),
       ce_disk_start = h_disk_start h, ce_extra = parse_extra_fields (h_extra h) \<rparr>"

lemma entries_of_map: "(\<And>h. h \<in> set hs \<Longrightarrow> entry_of h = Ok (g h)) \<Longrightarrow> entries_of hs = Ok (map g hs)"
  by (induction hs) auto

lemma well_writtenD:
  assumes "well_written K ms" and "j < length ms"
  shows "copies_agree K (ms ! j)"
    and "h_lfh_offset32 (m_header (ms ! j)) = of_nat (length (members_body (take j ms)))"
  using assms by (auto simp: well_written_def list_all_iff)

lemma unat_of_nat32: "n < 4294967296 \<Longrightarrow> unat (of_nat n :: u32) = n"
  by (simp add: unat_of_nat take_bit_nat_eq_self)

text \<open>No field of a member needs Zip64, and the shifted offset is where its local header is.\<close>

lemma member_fields:
  assumes "archive_ok pre (members_body ms) (map m_header ms) comment" and "well_written K ms" and "j < length ms"
  shows "h_compressed32 (m_header (ms ! j)) \<noteq> U32_SENTINEL" "h_uncompressed32 (m_header (ms ! j)) \<noteq> U32_SENTINEL"
    and "h_lfh_offset32 (m_header (ms ! j)) \<noteq> U32_SENTINEL"
    and "unat (h_compressed32 (m_header (ms ! j))) = length (m_data (ms ! j))"
    and "unat (h_lfh_offset32 (m_header (ms ! j))) = length (members_body (take j ms))"
proof -
  have "length (members_body ms) < 4294967295" using assms(1) by (simp add: archive_ok_def)
  with members_body_within [OF assms(3)] have small: "length (m_data (ms ! j)) < 4294967295"
    "length (members_body (take j ms)) < 4294967295" "length (m_plain (ms ! j)) < 4294967295"
    using well_writtenD(1) [OF assms(2,3)] by (simp_all add: copies_agree_def Let_def)
  have ne: "of_nat n \<noteq> U32_SENTINEL" if "n < 4294967295" for n
    using arg_cong [of "of_nat n" U32_SENTINEL unat] unat_of_nat32 [of n] that by auto
  note d = well_writtenD [OF assms(2,3)]
  from d ne small show "h_compressed32 (m_header (ms ! j)) \<noteq> U32_SENTINEL" "h_uncompressed32 (m_header (ms ! j)) \<noteq> U32_SENTINEL"
    "h_lfh_offset32 (m_header (ms ! j)) \<noteq> U32_SENTINEL"
    by (simp_all add: copies_agree_def Let_def)
  from d small show "unat (h_compressed32 (m_header (ms ! j))) = length (m_data (ms ! j))"
    "unat (h_lfh_offset32 (m_header (ms ! j))) = length (members_body (take j ms))"
    by (simp_all add: copies_agree_def Let_def unat_of_nat32)
qed

lemma written_opens:
  assumes "archive_ok pre (members_body ms) (map m_header ms) comment" and "well_written K ms"
  shows "\<exists>c. cu_data c = written pre ms comment \<and> ZipArchive_new (cursor_new (written pre ms comment)) =
    Ok \<lparr> za_reader = c, za_entries = map (plain_entry pre \<circ> m_header) ms,
         za_summary = summary_of pre (members_body ms) (map m_header ms) comment \<rparr>"
proof -
  let ?hs = "map m_header ms"
  have "entry_of h = Ok (plain_entry [] h)" if "h \<in> set ?hs" for h
  proof -
    from that obtain j where "j < length ms" "h = m_header (ms ! j)" by (auto simp: in_set_conv_nth)
    with member_fields [OF assms] show ?thesis by (simp add: entry_of_plain plain_entry_def)
  qed
  then have es: "entries_of ?hs = Ok (map (plain_entry []) ?hs)" by (rule entries_of_map)
  from open_encoded [OF assms(1) es] obtain c where c: "cu_data c = written pre ms comment"
    "ZipArchive_new (cursor_new (written pre ms comment)) =
     and_then (shift_entries (of_nat (length pre)) (map (plain_entry []) ?hs)) (\<lambda>es'.
       Ok \<lparr> za_reader = c, za_entries = es', za_summary = summary_of pre (members_body ms) ?hs comment \<rparr>)"
    by (auto simp: written_def)
  have "unat (ce_lfh_offset e) + length pre < 2 ^ 64" if "e \<in> set (map (plain_entry []) ?hs)" for e
  proof -
    from that obtain j where j: "j < length ms" "e = plain_entry [] (m_header (ms ! j))" by (auto simp: in_set_conv_nth)
    with member_fields(5) [OF assms j(1)] members_body_within [OF j(1)] length_written(2) [OF assms(1)]
    show ?thesis by (simp add: plain_entry_def unat_ucast32)
  qed
  then have "shift_entries (of_nat (length pre)) (map (plain_entry []) ?hs) = Ok (map (plain_entry pre) ?hs)"
    by (simp add: shift_entries_Ok unat_length_pre [OF assms(1)] plain_entry_def)
  with c show ?thesis by (intro exI [of _ c]) (simp add: comp_def)
qed

section \<open>The structural view\<close>

definition member_row :: "u8 list \<Rightarrow> member list \<Rightarrow> nat \<Rightarrow> entry_layout" where
  "member_row pre ms j =
     (let m = ms ! j; off = length pre + length (members_body (take j ms)) in
      \<lparr> el_index = j, el_lfh_offset = of_nat off,
        el_data_start = of_nat (off + length (encode_local (m_local m))),
        el_central = central_fields (plain_entry pre (m_header m)), el_local = local_fields (m_local m),
        el_extra = parse_extra_fields (h_extra (m_header m)) \<rparr>)"

lemma member_placed:
  assumes "archive_ok pre (members_body ms) (map m_header ms) comment" and "well_written K ms" and "j < length ms"
    and "cu_data c = written pre ms comment"
  shows "placed c (plain_entry pre (m_header (ms ! j))) (m_data (ms ! j))"
    and "layout_of (cu_data c) (j, plain_entry pre (m_header (ms ! j))) = Some (member_row pre ms j)"
proof -
  let ?m = "ms ! j" and ?pre = "pre @ members_body (take j ms)"
  let ?e = "plain_entry pre (m_header ?m)"
  let ?post = "members_body (drop (Suc j) ms) @ directory (map m_header ms) @
    archive_eocd (members_body ms) (map m_header ms) comment"
  have data: "cu_data c = ?pre @ encode_local (m_local ?m) @ m_data ?m @ ?post"
    using members_body_split [OF assms(3)] by (simp add: assms(4) written_def encode_archive_def)
  have lo: "local_ok (m_local ?m)"
    using well_writtenD(1) [OF assms(2,3)] by (simp add: copies_agree_def Let_def)
  note f = member_fields [OF assms(1-3)]
  have off: "ce_lfh_offset ?e = of_nat (length ?pre)"
    by (simp add: plain_entry_def add.commute flip: f(5))
  have len: "length (cu_data c) < 2 ^ 63" using length_written(1) [OF assms(1)] assms(4) by simp
  have "unat (ce_compressed_size ?e) = length (m_data ?m)" using f(4) by (simp add: plain_entry_def unat_ucast32)
  from placedI [OF data lo off this len] show "placed c ?e (m_data ?m)" .
  have "cu_data (cursor_new (cu_data c)) = ?pre @ encode_local (m_local ?m) @ m_data ?m @ ?post"
    "length (cu_data (cursor_new (cu_data c))) < 2 ^ 63" using data len by simp_all
  from read_lfh_encoded [OF lo this] obtain ds c' where
    rd: "read_lfh_fields (of_nat (length ?pre)) (cursor_new (cu_data c)) = (Ok (local_fields (m_local ?m), ds), c')"
    and ds: "drop (unat ds) (cu_data c) = m_data ?m @ ?post" by auto
  have "22 \<le> length ?post" by (simp add: length_archive_eocd)
  moreover have "length (cu_data c) - unat ds = length (m_data ?m) + length ?post"
    using arg_cong [OF ds, of length] by (simp only: length_drop length_append)
  moreover have "length (cu_data c) = length ?pre + length (encode_local (m_local ?m)) + (length (m_data ?m) + length ?post)"
    unfolding data by (simp only: length_append add.assoc)
  ultimately have "unat ds = length ?pre + length (encode_local (m_local ?m))" by arith
  moreover have "ds = of_nat (unat ds)" by simp
  ultimately have "ds = of_nat (length ?pre + length (encode_local (m_local ?m)))" by metis
  moreover have "ce_extra ?e = parse_extra_fields (h_extra (m_header ?m))" by (simp add: plain_entry_def)
  ultimately show "layout_of (cu_data c) (j, ?e) = Some (member_row pre ms j)"
    using rd off by (simp add: layout_of_def member_row_def Let_def)
qed

lemma those_map_Some: "(\<And>x. x \<in> set xs \<Longrightarrow> f x = Some (g x)) \<Longrightarrow> those (map f xs) = Some (map g xs)"
  by (induction xs) auto

lemma written_view:
  assumes "archive_ok pre (members_body ms) (map m_header ms) comment" and "well_written K ms"
    and "cu_data (za_reader a) = written pre ms comment"
    and "za_entries a = map (plain_entry pre \<circ> m_header) ms"
  shows "\<exists>c. structural_view a = (Ok (map (member_row pre ms) [0..<length ms]), a\<lparr>za_reader := c\<rparr>) \<and>
    cu_data c = written pre ms comment"
proof -
  let ?file = "written pre ms comment" and ?es = "map (plain_entry pre \<circ> m_header) ms"
  have rows: "map (layout_of ?file) (enumerate 0 ?es) = map (Some \<circ> member_row pre ms) [0..<length ms]"
    using member_placed(2) [OF assms(1,2) _ assms(3)] assms(3)
    by (intro nth_equalityI) (simp_all add: nth_enumerate_eq)
  have "those (map (Some \<circ> member_row pre ms) [0..<length ms]) = Some (map (member_row pre ms) [0..<length ms])"
    by (rule those_map_Some) simp
  then have "those (map (layout_of ?file) (enumerate 0 ?es)) = Some (map (member_row pre ms) [0..<length ms])"
    by (simp only: rows)
  with structural_loop_eq [OF assms(3)] have
    "fst (structural_loop 0 ?es (za_reader a)) = Ok (map (member_row pre ms) [0..<length ms])" by blast
  then obtain c where c: "structural_view a = (Ok (map (member_row pre ms) [0..<length ms]), a\<lparr>za_reader := c\<rparr>)"
    by (cases "structural_loop 0 ?es (za_reader a)") (auto simp: structural_view_def assms(4))
  from structural_view_data(3) [OF c] c assms(3) show ?thesis by auto
qed

section \<open>The audits of the view\<close>

lemma overlap_windows_disjoint: "sorted_wrt (\<lambda>a b. span_end a \<le> span_start b) ys \<Longrightarrow> overlap_windows ys = []"
  by (induction ys rule: overlap_windows.induct) (auto simp: not_less)

lemma foldr_min_least:
  fixes a :: u64
  shows "(\<And>x. x \<in> set xs \<Longrightarrow> a \<le> x) \<Longrightarrow> foldr min xs a = a"
  by (induction xs) (simp_all add: min_absorb2)

lemma row_span:
  assumes ok: "archive_ok pre (members_body ms) (map m_header ms) comment" and ww: "well_written K ms"
    and j: "j < length ms"
  shows "span_of (member_row pre ms j) =
    (j, of_nat (length pre + length (members_body (take j ms)) + length (encode_local (m_local (ms ! j)))),
     of_nat (length pre + length (members_body (take j ms)) + length (encode_local (m_local (ms ! j))) + length (m_data (ms ! j))))"
  and "length pre + length (members_body (take j ms)) + length (encode_local (m_local (ms ! j))) + length (m_data (ms ! j)) < 2 ^ 63"
proof -
  let ?n = "length pre + length (members_body (take j ms)) + length (encode_local (m_local (ms ! j)))"
  show lt: "?n + length (m_data (ms ! j)) < 2 ^ 63"
    using members_body_within [OF j] length_written(2) [OF ok] by simp
  have "unat (of_nat ?n :: u64) = ?n" using lt by (intro unat_of_nat64) simp
  moreover have "ucast (h_compressed32 (m_header (ms ! j))) = (of_nat (length (m_data (ms ! j))) :: u64)"
    "unat (of_nat (length (m_data (ms ! j))) :: u64) = length (m_data (ms ! j))"
    using lt by (simp_all flip: member_fields(4) [OF ok ww j] add: unat_ucast32)
  ultimately show "span_of (member_row pre ms j) = (j, of_nat ?n, of_nat (?n + length (m_data (ms ! j))))"
    using lt by (simp add: span_of_def member_row_def Let_def central_fields_def plain_entry_def saturating_add64_def)
qed

lemma no_overlap:
  assumes ok: "archive_ok pre (members_body ms) (map m_header ms) comment" and ww: "well_written K ms"
  shows "audit_overlaps (map (member_row pre ms) [0..<length ms]) = []"
proof -
  let ?spans = "map (\<lambda>j. span_of (member_row pre ms j)) [0..<length ms]"
  have later: "span_start (span_of (member_row pre ms i)) \<le> span_end (span_of (member_row pre ms i)) \<and>
    span_end (span_of (member_row pre ms i)) \<le> span_start (span_of (member_row pre ms j))"
    if "i < j" "j < length ms" for i j
  proof -
    from that have i: "i < length ms" by simp
    from members_body_later [OF that] row_span(2) [OF ok ww i] row_span(2) [OF ok ww that(2)] show ?thesis
      by (simp add: row_span(1) [OF ok ww i] row_span(1) [OF ok ww that(2)] word_le_nat_alt unat_of_nat64 del: of_nat_add)
  qed
  have sorted: "sorted_wrt (\<lambda>i j. P (span_of (member_row pre ms i)) (span_of (member_row pre ms j))) [0..<length ms]"
    if "\<And>i j. i < j \<Longrightarrow> j < length ms \<Longrightarrow> P (span_of (member_row pre ms i)) (span_of (member_row pre ms j))" for P
    using that by (simp add: sorted_wrt_iff_nth_less)
  have "sorted_wrt (\<lambda>a b. span_end a \<le> span_start b) ?spans"
    unfolding sorted_wrt_map by (rule sorted) (use later in blast)
  then have "overlap_windows ?spans = []" by (rule overlap_windows_disjoint)
  moreover have "sorted (map span_start ?spans)"
    unfolding sorted_wrt_map by (rule sorted) (use later order_trans in blast)
  then have "sort_key span_start ?spans = ?spans" by (rule sort_key_id_if_sorted)
  ultimately show ?thesis by (simp add: audit_overlaps_def case_prod_beta' comp_def)
qed

lemma member_prepended:
  assumes ok: "archive_ok pre (members_body ms) (map m_header ms) comment" and ww: "well_written K ms"
  shows "audit_prepended (map (member_row pre ms) [0..<length ms]) =
    (if pre = [] \<or> ms = [] then [] else [PrependedData (of_nat (length pre))])"
proof (cases "ms = []")
  case True
  then show ?thesis by (simp add: audit_prepended_def)
next
  case False
  then have rows: "[0..<length ms] = 0 # [1..<length ms]" by (simp add: upt_rec)
  have "(of_nat (length pre) :: u64) \<le> el_lfh_offset (member_row pre ms j)" if "j < length ms" for j
    using row_span(2) [OF ok ww that]
    by (simp add: member_row_def Let_def word_le_nat_alt unat_of_nat64 del: of_nat_add)
  then have "foldr min (map el_lfh_offset (map (member_row pre ms) [1..<length ms])) (of_nat (length pre)) = of_nat (length pre)"
    by (intro foldr_min_least) auto
  moreover have "el_lfh_offset (member_row pre ms 0) = of_nat (length pre)" by (simp add: member_row_def members_body_def Let_def)
  moreover have "0 < (of_nat (length pre) :: u64) \<longleftrightarrow> pre \<noteq> []"
    using length_written(2) [OF ok] by (simp add: word_less_nat_alt unat_of_nat64)
  ultimately show ?thesis using False by (simp add: audit_prepended_def rows Let_def)
qed

lemma member_silent:
  assumes "well_written K ms" and "j < length ms" and "innocuous (member_name (ms ! j))"
  shows "audit_entry (member_row pre ms j) = []"
proof -
  have "copies_agree K (ms ! j)" using well_writtenD(1) [OF assms(1,2)] .
  then show ?thesis using assms(3)
    by (simp add: audit_entry_def audit_names_def audit_copies_def compare_size_def member_row_def Let_def
        central_fields_def local_fields_def plain_entry_def copies_agree_def innocuous_def member_name_def)
qed

section \<open>The verdict\<close>

lemma audit_data_stored:
  assumes "\<And>i e. (i, e) \<in> set xs \<Longrightarrow> \<exists>f m out. by_index E a i = Some (Ok f) \<and> read_entry E f = Some (crc_verdict E m True out)"
  shows "audit_data E a xs = Some (Ok (concat (map (crc_findings E a) xs)))"
  using assms
proof (induction xs)
  case (Cons x xs)
  obtain i e where x: "x = (i, e)" by (rule prod.exhaust)
  from Cons.prems [of i e] obtain f m out where
    "by_index E a i = Some (Ok f)" "read_entry E f = Some (crc_verdict E m True out)" by (auto simp: x)
  moreover have "audit_data E a xs = Some (Ok (concat (map (crc_findings E a) xs)))"
  proof (rule Cons.IH)
    fix i e assume "(i, e) \<in> set xs"
    then have "(i, e) \<in> set (x # xs)" by simp
    then show "\<exists>f m out. by_index E a i = Some (Ok f) \<and> read_entry E f = Some (crc_verdict E m True out)"
      by (rule Cons.prems)
  qed
  ultimately show ?case by (simp add: x crc_findings_def crc_verdict_def)
qed simp

lemma member_opens:
  assumes "archive_ok pre (members_body ms) (map m_header ms) comment" and "well_written K ms" and "j < length ms"
    and "codec_decodes (x_codec E) K" and "crc_chunked (x_crc E)" and "\<And>i. 0 < x_sizes E i"
    and "cu_data (za_reader a) = written pre ms comment" and "za_entries a = map (plain_entry pre \<circ> m_header) ms"
    and "za_summary a = summary_of pre (members_body ms) (map m_header ms) comment"
  shows "\<exists>f. by_index E a j = Some (Ok f) \<and>
    read_entry E f = Some (crc_verdict E (plain_entry pre (m_header (ms ! j))) True (m_plain (ms ! j)))"
proof -
  let ?e = "plain_entry pre (m_header (ms ! j))"
  have "copies_agree K (ms ! j)" using well_writtenD(1) [OF assms(2,3)] .
  then have "on_one_disk a ?e" "\<not> has_bits (ce_flags ?e) 1" "length (m_plain (ms ! j)) < 2 ^ 64"
    and "entry_plain K (ce_method ?e) (ce_uncompressed_size ?e) (m_data (ms ! j)) = Some (m_plain (ms ! j))"
    using assms(9) by (simp_all add: on_one_disk_def summary_of_def plain_entry_def copies_agree_def Let_def)
  from archive_open_compressed [OF member_placed(1) [OF assms(1-3,7)] this(1,2) assms(4) this(4) assms(5,6) this(3)] assms(3,8)
  show ?thesis by (auto simp: by_index_def entry_at_def)
qed

text \<open>
  C3: The audit of an archive written member by member, with any data before it and any comment, whose
  members are stored or compressed with any supported method, with agreeing headers and harmless names,
  always returns, and reports exactly the prepended data and the members whose decoded data does not have
  the recorded checksum: no false alarm, no miss.
\<close>

theorem audit_written_archive:
  assumes "archive_ok pre (members_body ms) (map m_header ms) comment" and "well_written K ms"
    and "\<forall>m \<in> set ms. innocuous (member_name m)" and "codec_decodes (x_codec E) K"
    and "crc_chunked (x_crc E)" and "\<And>i. 0 < x_sizes E i"
  shows "audit_reader E debug_str (cursor_new (written pre ms comment)) =
    Some (Ok (map (Anomaly_new debug_str)
      ((if pre = [] \<or> ms = [] then [] else [PrependedData (of_nat (length pre))]) @ corrupt_members (x_crc E) ms)))"
proof -
  let ?rows = "map (member_row pre ms) [0..<length ms]" and ?es = "map (plain_entry pre \<circ> m_header) ms"
  let ?sum = "summary_of pre (members_body ms) (map m_header ms) comment"
  from written_opens [OF assms(1,2)] obtain c where c: "cu_data c = written pre ms comment"
    "ZipArchive_new (cursor_new (written pre ms comment)) = Ok \<lparr> za_reader = c, za_entries = ?es, za_summary = ?sum \<rparr>"
    (is "_ = Ok ?a") by blast
  from written_view [OF assms(1,2), of ?a] c(1) obtain c' where
    view: "structural_view ?a = (Ok ?rows, ?a\<lparr>za_reader := c'\<rparr>)" "cu_data c' = written pre ms comment" by auto
  let ?a' = "?a\<lparr>za_reader := c'\<rparr>"
  have opens: "\<exists>f. by_index E ?a' j = Some (Ok f) \<and>
      read_entry E f = Some (crc_verdict E (plain_entry pre (m_header (ms ! j))) True (m_plain (ms ! j)))"
    if "j < length ms" for j
    using member_opens [OF assms(1,2) that assms(4,5,6), of ?a'] view(2) by simp
  have "concat (map audit_entry ?rows) = []"
    using member_silent [OF assms(2)] assms(3) by simp
  then have "audit_layout debug_str ?rows = map (Anomaly_new debug_str)
      (if pre = [] \<or> ms = [] then [] else [PrependedData (of_nat (length pre))])"
    by (simp only: audit_layout_def no_overlap [OF assms(1,2)] member_prepended [OF assms(1,2)]) simp
  moreover have "audit_container debug_str ?sum ?rows = []"
    by (simp add: audit_container_def summary_of_def spans_def)
  moreover have "audit_data E ?a' (enumerate 0 ?rows) = Some (Ok (corrupt_members (x_crc E) ms))"
  proof -
    have "audit_data E ?a' (enumerate 0 ?rows) = Some (Ok (concat (map (crc_findings E ?a') (enumerate 0 ?rows))))"
      by (rule audit_data_stored) (use opens in \<open>fastforce simp: in_enumerate\<close>)
    moreover have "map (crc_findings E ?a') (enumerate 0 ?rows) = map (\<lambda>(j, m).
        if crc_of (x_crc E) (m_plain m) = h_crc32 (m_header m) then [] else [CrcMismatch j (member_name m)]) (enumerate 0 ms)"
    proof (rule nth_equalityI)
      fix j assume "j < length (map (crc_findings E ?a') (enumerate 0 ?rows))"
      then have j: "j < length ms" by simp
      from opens [OF j] j show "map (crc_findings E ?a') (enumerate 0 ?rows) ! j = map (\<lambda>(j, m).
          if crc_of (x_crc E) (m_plain m) = h_crc32 (m_header m) then [] else [CrcMismatch j (member_name m)]) (enumerate 0 ms) ! j"
        by (auto simp: nth_enumerate_eq crc_findings_def crc_verdict_def plain_entry_def member_row_def Let_def
            central_fields_def member_name_def)
    qed simp
    ultimately show ?thesis by (simp add: corrupt_members_def)
  qed
  ultimately show ?thesis by (simp add: audit_reader_def c(2) view(1) Let_def)
qed

text \<open>Two members behind one byte, the second under LZMA and with a wrong checksum in both its headers.\<close>

definition sound_member :: member where
  "sound_member = \<lparr> m_header = extract_header, m_local = extract_local, m_data = [0xFF], m_plain = [0xFF] \<rparr>"

definition corrupt_member :: member where
  "corrupt_member = \<lparr> m_header = lzma_header\<lparr>h_crc32 := 7, h_lfh_offset32 := 34\<rparr>,
     m_local = extract_local\<lparr>l_crc32 := 7, l_method := 14, l_compressed32 := 5\<rparr>,
     m_data = lzma_data, m_plain = [0xFF] \<rparr>"

lemmas sample_member_defs = sound_member_def corrupt_member_def extract_header_def extract_local_def sample_header_def
  lzma_header_def

lemma sample_members_ok: "archive_ok [1] (members_body [sound_member, corrupt_member]) (map m_header [sound_member, corrupt_member]) []"
  by (simp add: archive_ok_def comment_ok_def header_ok_def encode_archive_def directory_def members_body_def
      archive_eocd_def encode_eocd_def encode_header_def encode_fixed_def encode_local_def le_eval sample_member_defs)

lemma sample_methods: "method_from_u16 0 = Stored" "method_from_u16 14 = Lzma"
  by (simp_all add: method_from_u16_def)

lemma sample_members_written: "well_written (\<lambda>meth k data. Some data) [sound_member, corrupt_member]"
  by (simp add: well_written_def members_body_def copies_agree_def Let_def local_ok_def has_bits_def sample_member_defs
      numeral_2_eq_2 sample_methods capped_Some unat_MAX_BUFFERED_DECODE)

theorem audit_written_archive_witness:
  "audit_reader sample_externals (\<lambda>s. s) (cursor_new (written [1] [sound_member, corrupt_member] [])) =
    Some (Ok (map (Anomaly_new (\<lambda>s. s)) [PrependedData 1, CrcMismatch 1 [97, 46, 98]]))"
proof -
  have name: "member_name sound_member = [97, 46, 98]" "member_name corrupt_member = [97, 46, 98]"
    by (simp_all add: member_name_def sample_member_defs decode_name_ascii is_ascii_def)
  have "innocuous [97, 46, 98]"
    by (simp add: innocuous_def has_traversal_def is_sep_def lit_def is_absolute_def has_drive_prefix_def
        as_bytes_def encode_utf8_def Let_def has_bidi_override_def is_bidi_def has_control_chars_def is_control_def)
  then have "\<forall>m \<in> set [sound_member, corrupt_member]. innocuous (member_name m)" by (simp add: name)
  from audit_written_archive [OF sample_members_ok sample_members_written this codec_decodes_sample, of "\<lambda>s. s"]
  have "audit_reader sample_externals (\<lambda>s. s) (cursor_new (written [1] [sound_member, corrupt_member] [])) =
    Some (Ok (map (Anomaly_new (\<lambda>s. s)) ([PrependedData 1] @ corrupt_members bytewise_crc [sound_member, corrupt_member])))"
    by (simp add: crc_chunked_bytewise sample_externals_def)
  moreover have "corrupt_members bytewise_crc [sound_member, corrupt_member] = [CrcMismatch 1 [97, 46, 98]]"
    by (simp add: corrupt_members_def name) (simp add: sample_member_defs crc_sample)
  ultimately show ?thesis by simp
qed

end
