(* ===== verification/StoredBlocks.thy ===== *)
theory StoredBlocks
  imports Io
begin

text \<open>
  Random access to runs of stored deflate blocks, from \<open>core/src/lib.rs\<close>: the block index
  (\<open>index_stored_blocks\<close>) and the positioned reads through it (the \<open>StoredBlocks\<close> arm of
  \<open>StoredZipEntry::read_at\<close>). The abstract view of an index is the byte string its blocks hold;
  a positioned read is a slice of it.
\<close>

section \<open>The index\<close>

record stored_block =
  sb_uncomp_start :: u64
  sb_len :: u64
  sb_file_offset :: u64

definition bad_nlen :: "rstring \<Rightarrow> u64 \<Rightarrow> zip_core_error" where
  "bad_nlen name foff = Malformed name
     (lit ''stored block LEN/NLEN mismatch at file offset '' @ fmt_dec (unat foff))"

definition block_overrun :: "rstring \<Rightarrow> u64 \<Rightarrow> zip_core_error" where
  "block_overrun name data_off = Malformed name
     (lit ''stored block overruns compressed data at offset '' @ fmt_dec (unat data_off))"

definition bad_total :: "rstring \<Rightarrow> u64 \<Rightarrow> u64 \<Rightarrow> zip_core_error" where
  "bad_total name uoff sz = Malformed name (lit ''stored-block total '' @ fmt_dec (unat uoff) @
     lit '' != entry uncompressed size '' @ fmt_dec (unat sz))"

text \<open>The loop of \<open>index_stored_blocks\<close>: the blocks with their total, or \<open>None\<close> at the first block
  that is not stored or where the stream ends without a final block.\<close>

function index_loop ::
  "u8 list \<Rightarrow> rstring \<Rightarrow> u64 \<Rightarrow> u64 \<Rightarrow> u64 \<Rightarrow> stored_block list
     \<Rightarrow> ((stored_block list \<times> u64) option, zip_core_error) outcome" where
  "index_loop file name fin foff uoff blocks =
     and_then (add64 foff 5) (\<lambda>data_off.
       if fin < data_off then Ok None
       else and_then (map_err Io (pread_exact file 5 foff)) (\<lambda>hdr.
         let bfinal = hdr ! 0 AND 1; btype = drop_bit 1 (hdr ! 0) AND 3 in
         if btype \<noteq> 0 then Ok None
         else
           let len = from_le_bytes [hdr ! 1, hdr ! 2] :: u16; nlen = from_le_bytes [hdr ! 3, hdr ! 4] :: u16 in
           if nlen \<noteq> NOT len then Err (bad_nlen name foff)
           else and_then (add64 data_off (ucast len)) (\<lambda>next_off.
             if fin < next_off then Err (block_overrun name data_off)
             else and_then (add64 uoff (ucast len)) (\<lambda>uoff'.
               let blocks' = blocks @ [\<lparr> sb_uncomp_start = uoff, sb_len = ucast len, sb_file_offset = data_off \<rparr>] in
               if bfinal = 1 then Ok (Some (blocks', uoff'))
               else index_loop file name fin next_off uoff' blocks'))))"
  by pat_completeness auto
termination
proof (relation "measure (\<lambda>(file, name, fin, foff, uoff, blocks). unat fin - unat foff)", goal_cases)
  case (2 fl name fin foff uoff blocks data_off hdr bfinal btype len nlen next_off uoff' blocks')
  then have "unat data_off = unat foff + 5" "unat next_off = unat data_off + unat (ucast len :: u64)"
    by (simp_all add: unat_add64)
  moreover from 2 have "unat data_off \<le> unat fin" by (simp add: word_le_nat_alt not_less)
  ultimately show ?case by simp
qed simp

declare index_loop.simps [simp del]

definition index_stored_blocks ::
  "u8 list \<Rightarrow> rstring \<Rightarrow> u64 \<Rightarrow> u64 \<Rightarrow> u64 \<Rightarrow> (stored_block list option, zip_core_error) outcome" where
  "index_stored_blocks file name data_start compressed_size uncompressed_size =
     and_then (add64 data_start compressed_size) (\<lambda>fin.
     and_then (index_loop file name fin data_start 0 []) (\<lambda>r.
       case r of
         None \<Rightarrow> Ok None
       | Some (blocks, uoff) \<Rightarrow>
           if uoff \<noteq> uncompressed_size then Err (bad_total name uoff uncompressed_size)
           else Ok (Some blocks)))"

section \<open>Positioned reads\<close>

text \<open>
  \<open>partition_point\<close> on a list partitioned by the predicate is the length of the prefix that
  satisfies it. The sum in the predicate does not overflow on an index (\<open>blocks_from\<close> below).
\<close>

definition partition_point :: "('a \<Rightarrow> bool) \<Rightarrow> 'a list \<Rightarrow> usize" where
  "partition_point P xs = length (takeWhile P xs)"

definition nth_opt :: "'a list \<Rightarrow> usize \<Rightarrow> 'a option" where
  "nth_opt xs i = (if i < length xs then Some (xs ! i) else None)"

lemma partition_point_simps [simp]:
  "partition_point P [] = 0"
  "partition_point P (x # xs) = (if P x then Suc (partition_point P xs) else 0)"
  by (simp_all add: partition_point_def)

lemma nth_opt_simps [simp]: "nth_opt (x # xs) 0 = Some x" "nth_opt (x # xs) (Suc i) = nth_opt xs i"
  by (simp_all add: nth_opt_def)

function read_blocks ::
  "u8 list \<Rightarrow> stored_block list \<Rightarrow> usize \<Rightarrow> u64 \<Rightarrow> u64 \<Rightarrow> u8 list \<Rightarrow> (u8 list, io_error) outcome" where
  "read_blocks file blocks buf_len want_end cur filled =
     (if cur < want_end then
        (case nth_opt blocks (partition_point
             (\<lambda>b. unat (sb_uncomp_start b) + unat (sb_len b) \<le> unat cur) blocks) of
           None \<Rightarrow> Ok filled
         | Some b \<Rightarrow>
             and_then (sub64 cur (sb_uncomp_start b)) (\<lambda>within.
             and_then (sub64 (sb_len b) within) (\<lambda>avail.
             let n = min avail (want_end - cur) in
             if buf_len < length filled + unat n then Panic
             else and_then (add64 (sb_file_offset b) within) (\<lambda>off.
             and_then (pread_exact file (unat n) off) (\<lambda>bs.
             read_blocks file blocks buf_len want_end (cur + n) (filled @ bs))))))
      else Ok filled)"
  by pat_completeness auto
termination
proof (relation "measure (\<lambda>(file, blocks, buf_len, want_end, cur, filled). unat want_end - unat cur)", goal_cases)
  case (2 fl blocks buf_len want_end cur filled b within avail n off bs)
  let ?P = "\<lambda>b. unat (sb_uncomp_start b) + unat (sb_len b) \<le> unat cur"
  from 2(2) have "partition_point ?P blocks < length blocks" "b = blocks ! partition_point ?P blocks"
    by (auto simp: nth_opt_def split: if_splits)
  then have "\<not> ?P b" unfolding partition_point_def by (metis nth_length_takeWhile)
  moreover from 2(3,4) have "sb_uncomp_start b \<le> cur" "within = cur - sb_uncomp_start b"
    "within \<le> sb_len b" "avail = sb_len b - within" by (simp_all add: sub64_def split: if_splits)
  ultimately have "0 < unat avail" by (simp add: unat_sub word_le_nat_alt)
  moreover have lt: "unat cur < unat want_end" using 2(1) by (simp add: word_less_nat_alt)
  then have "unat (want_end - cur) = unat want_end - unat cur" by (simp add: unat_sub word_le_nat_alt)
  ultimately have n: "0 < unat n" "unat n \<le> unat want_end - unat cur"
    using 2(5) lt by (auto simp: min_def word_le_nat_alt)
  then have "unat cur + unat n \<le> unat want_end" using lt by linarith
  then have "unat cur + unat n < 2 ^ 64" by (rule le_less_trans) simp
  then have "unat (cur + n) = unat cur + unat n" by (rule unat_add64)
  with n lt show ?case by simp
qed simp

declare read_blocks.simps [simp del]

definition stored_read_at ::
  "u8 list \<Rightarrow> u64 \<Rightarrow> stored_block list \<Rightarrow> usize \<Rightarrow> u64 \<Rightarrow> (u8 list, io_error) outcome" where
  "stored_read_at file sz blocks buf_len offset =
     (if sz \<le> offset \<or> buf_len = 0 then Ok []
      else and_then (add64 offset (of_nat buf_len)) (\<lambda>e.
        read_blocks file blocks buf_len (min e sz) offset []))"

section \<open>The invariant of an index\<close>

text \<open>
  Blocks follow each other in the entry, end within \<open>2 ^ 64\<close>, and lie inside the file. The first
  starts at \<open>u\<close> and the last ends at \<open>fin_u\<close>.
\<close>

fun blocks_from :: "usize \<Rightarrow> usize \<Rightarrow> stored_block list \<Rightarrow> usize \<Rightarrow> bool" where
  "blocks_from flen u [] fin_u \<longleftrightarrow> u = fin_u"
| "blocks_from flen u (b # bs) fin_u \<longleftrightarrow>
     unat (sb_uncomp_start b) = u \<and> unat (sb_file_offset b) + unat (sb_len b) \<le> flen \<and>
     blocks_from flen (u + unat (sb_len b)) bs fin_u"

text \<open>What an index stands for: the bytes of its blocks.\<close>

definition block_bytes :: "u8 list \<Rightarrow> stored_block \<Rightarrow> u8 list" where
  "block_bytes file b = take (unat (sb_len b)) (drop (unat (sb_file_offset b)) file)"

definition blocks_content :: "u8 list \<Rightarrow> stored_block list \<Rightarrow> u8 list" where
  "blocks_content file blocks = concat (map (block_bytes file) blocks)"

lemma length_block_bytes:
  "unat (sb_file_offset b) + unat (sb_len b) \<le> length file \<Longrightarrow> length (block_bytes file b) = unat (sb_len b)"
  by (simp add: block_bytes_def)

lemma blocks_from_le: "blocks_from flen u bs fin_u \<Longrightarrow> u \<le> fin_u"
  by (induction flen u bs fin_u rule: blocks_from.induct) auto

lemma length_blocks_content:
  "blocks_from (length file) u bs fin_u \<Longrightarrow> u + length (blocks_content file bs) = fin_u"
  by (induction "length file" u bs fin_u rule: blocks_from.induct)
    (auto simp: blocks_content_def length_block_bytes)

lemma blocks_from_append:
  "blocks_from flen u (as @ bs) fin_u \<longleftrightarrow> (\<exists>m. blocks_from flen u as m \<and> blocks_from flen m bs fin_u)"
  by (induction flen u as fin_u rule: blocks_from.induct) auto

text \<open>The block found for a position inside the entry, and the bytes from that position on.\<close>

lemma blocks_from_find:
  assumes "blocks_from (length file) u bs fin_u" and "u \<le> p" and "p < fin_u"
  shows "\<exists>b. nth_opt bs (partition_point (\<lambda>b. unat (sb_uncomp_start b) + unat (sb_len b) \<le> p) bs) = Some b \<and>
    unat (sb_uncomp_start b) \<le> p \<and> p < unat (sb_uncomp_start b) + unat (sb_len b) \<and>
    unat (sb_file_offset b) + unat (sb_len b) \<le> length file \<and>
    (\<forall>n \<le> unat (sb_uncomp_start b) + unat (sb_len b) - p.
      take n (drop (p - u) (blocks_content file bs)) =
      take n (drop (unat (sb_file_offset b) + (p - unat (sb_uncomp_start b))) file))"
  using assms
proof (induction bs arbitrary: u)
  case (Cons b bs)
  show ?case
  proof (cases "u + unat (sb_len b) \<le> p")
    case True
    then have "drop (p - u) (blocks_content file (b # bs)) =
        drop (p - (u + unat (sb_len b))) (blocks_content file bs)"
      using Cons.prems by (simp add: blocks_content_def length_block_bytes)
    with Cons.IH [of "u + unat (sb_len b)"] Cons.prems True show ?thesis by auto
  next
    case False
    have "take n (drop (p - u) (blocks_content file (b # bs))) =
        take n (drop (unat (sb_file_offset b) + (p - u)) file)" if "n \<le> u + unat (sb_len b) - p" for n
    proof -
      have "take n (drop (p - u) (blocks_content file (b # bs))) = take n (drop (p - u) (block_bytes file b))"
        using Cons.prems that False by (simp add: blocks_content_def length_block_bytes)
      also have "\<dots> = take n (drop (unat (sb_file_offset b) + (p - u)) file)"
        using that False Cons.prems by (simp add: block_bytes_def drop_take min_absorb1 add.commute)
      finally show ?thesis .
    qed
    with False Cons.prems show ?thesis by auto
  qed
qed simp

section \<open>The loop keeps the invariant\<close>

lemma pread_exact_Ok: "pread_exact f n off = Ok bs \<Longrightarrow> 0 < n \<Longrightarrow> unat off + n \<le> length f \<and> length bs = n"
  by (auto simp: pread_exact_def split: if_splits)

text \<open>
  An index that comes out of the loop extends the blocks given to it, every block ends at most
  where the data of the entry does, and its header was read from the file.
\<close>

lemma index_loop_blocks:
  assumes "index_loop fl name fin foff uoff blocks = Ok (Some (blocks', total_u))"
  shows "\<exists>more. blocks' = blocks @ more \<and> more \<noteq> [] \<and>
    blocks_from (unat fin) (unat uoff) more (unat total_u) \<and>
    (\<forall>b \<in> set more. unat foff + 5 \<le> unat (sb_file_offset b) \<and> unat (sb_file_offset b) \<le> length fl)"
  using assms
proof (induction fl name fin foff uoff blocks rule: index_loop.induct)
  case (1 fl name fin foff uoff blocks)
  from 1(2) obtain hdr data_off len next_off uoff' where
    d: "add64 foff 5 = (Ok data_off :: (u64, zip_core_error) outcome)" "\<not> fin < data_off"
    "map_err Io (pread_exact fl 5 foff) = Ok hdr" "drop_bit 1 (hdr ! 0) AND 3 = 0"
    "len = (from_le_bytes [hdr ! 1, hdr ! 2] :: u16)" "(from_le_bytes [hdr ! 3, hdr ! 4] :: u16) = NOT len"
    "add64 data_off (ucast len) = (Ok next_off :: (u64, zip_core_error) outcome)" "\<not> fin < next_off"
    "add64 uoff (ucast len) = (Ok uoff' :: (u64, zip_core_error) outcome)"
    and rest: "(if hdr ! 0 AND 1 = 1 then Ok (Some (blocks @ [\<lparr> sb_uncomp_start = uoff, sb_len = ucast len,
          sb_file_offset = data_off \<rparr>], uoff'))
      else index_loop fl name fin next_off uoff' (blocks @ [\<lparr> sb_uncomp_start = uoff, sb_len = ucast len,
          sb_file_offset = data_off \<rparr>])) = Ok (Some (blocks', total_u))"
    by (subst (asm) index_loop.simps) (auto simp: Let_def split: if_splits)
  let ?b = "\<lparr> sb_uncomp_start = uoff, sb_len = ucast len, sb_file_offset = data_off \<rparr>"
  have b: "unat data_off + unat (ucast len :: u64) \<le> unat fin" "unat uoff' = unat uoff + unat (ucast len :: u64)"
    "unat data_off = unat foff + 5" "unat next_off = unat data_off + unat (ucast len :: u64)"
    using d(1,7-9) by (auto simp: unat_add64 word_le_nat_alt not_less)
  have header: "unat foff + 5 \<le> length fl"
    using d(3) pread_exact_Ok [of fl 5 foff] by (cases "pread_exact fl 5 foff") auto
  show ?case
  proof (cases "hdr ! 0 AND 1 = 1")
    case True
    with rest b header show ?thesis by auto
  next
    case False
    with rest have "index_loop fl name fin next_off uoff' (blocks @ [?b]) = Ok (Some (blocks', total_u))" by simp
    from 1(1) [OF d(1,2,3) refl refl _ d(5) refl _ d(7,8,9) refl _ this] d(4,6) False
    obtain more where more: "blocks' = (blocks @ [?b]) @ more" "blocks_from (unat fin) (unat uoff') more (unat total_u)"
      "\<forall>b \<in> set more. unat next_off + 5 \<le> unat (sb_file_offset b) \<and> unat (sb_file_offset b) \<le> length fl" by auto
    with b header show ?thesis by (intro exI [of _ "?b # more"]) auto
  qed
qed

section \<open>A positioned read is a slice\<close>

lemma read_blocks_step:
  assumes "blocks_from (length f) 0 blocks fin_u" and "unat cur < unat want_end" and "unat want_end \<le> fin_u"
    and "length filled + (unat want_end - unat cur) \<le> buf_len" and "length f < 2 ^ 64"
  shows "\<exists>n. 0 < unat n \<and> unat n \<le> unat want_end - unat cur \<and>
    read_blocks f blocks buf_len want_end cur filled =
    read_blocks f blocks buf_len want_end (cur + n) (filled @ take (unat n) (drop (unat cur) (blocks_content f blocks)))"
proof -
  from blocks_from_find [OF assms(1), of "unat cur"] assms(2,3) obtain b where
    b: "nth_opt blocks (partition_point (\<lambda>b. unat (sb_uncomp_start b) + unat (sb_len b) \<le> unat cur) blocks) = Some b"
    "unat (sb_uncomp_start b) \<le> unat cur" "unat cur < unat (sb_uncomp_start b) + unat (sb_len b)"
    "unat (sb_file_offset b) + unat (sb_len b) \<le> length f"
    and content: "\<And>n. n \<le> unat (sb_uncomp_start b) + unat (sb_len b) - unat cur \<Longrightarrow>
      take n (drop (unat cur) (blocks_content f blocks)) =
      take n (drop (unat (sb_file_offset b) + (unat cur - unat (sb_uncomp_start b))) f)"
    by auto
  let ?within = "cur - sb_uncomp_start b"
  have w: "unat ?within = unat cur - unat (sb_uncomp_start b)" using b(2) by (simp add: unat_sub word_le_nat_alt)
  then have wl: "?within \<le> sb_len b" using b(2,3) by (simp add: word_le_nat_alt)
  have av: "unat (sb_len b - ?within) = unat (sb_uncomp_start b) + unat (sb_len b) - unat cur"
    using wl w b(2,3) by (simp add: unat_sub)
  have rest: "unat (want_end - cur) = unat want_end - unat cur"
    using assms(2) by (simp add: unat_sub word_le_nat_alt)
  let ?n = "min (sb_len b - ?within) (want_end - cur)"
  have n: "0 < unat ?n" "unat ?n \<le> unat want_end - unat cur"
    "unat ?n \<le> unat (sb_uncomp_start b) + unat (sb_len b) - unat cur"
    using av rest b(3) assms(2) by (auto simp: min_def word_le_nat_alt)
  have off: "unat (sb_file_offset b) + unat ?within < 2 ^ 64" using b(3,4) w b(2) assms(5) wl
    by (simp add: word_le_nat_alt)
  then have off': "unat (sb_file_offset b + ?within) = unat (sb_file_offset b) + (unat cur - unat (sb_uncomp_start b))"
    using w by (simp add: unat_add64)
  have "pread_exact f (unat ?n) (sb_file_offset b + ?within) =
      Ok (take (unat ?n) (drop (unat cur) (blocks_content f blocks)))"
    using n b(2,3,4) content [OF n(3)] by (simp add: pread_exact_def off')
  moreover have "sub64 cur (sb_uncomp_start b) = (Ok ?within :: (u64, io_error) outcome)"
    "sub64 (sb_len b) ?within = (Ok (sb_len b - ?within) :: (u64, io_error) outcome)"
    "add64 (sb_file_offset b) ?within = (Ok (sb_file_offset b + ?within) :: (u64, io_error) outcome)"
    using b(2) wl off by (simp_all add: sub64_def word_le_nat_alt add64_OkI)
  moreover have "\<not> buf_len < length filled + unat ?n" using n(2) assms(4) by linarith
  ultimately have "read_blocks f blocks buf_len want_end cur filled =
      read_blocks f blocks buf_len want_end (cur + ?n) (filled @ take (unat ?n) (drop (unat cur) (blocks_content f blocks)))"
    using assms(2) b(1)
    by (subst read_blocks.simps) (simp add: Let_def word_less_nat_alt del: add64_eq_Ok)
  with n show ?thesis by blast
qed

lemma read_blocks_content:
  assumes "blocks_from (length f) 0 blocks fin_u" and "unat cur \<le> unat want_end" and "unat want_end \<le> fin_u"
    and "length filled + (unat want_end - unat cur) \<le> buf_len" and "length f < 2 ^ 64"
  shows "read_blocks f blocks buf_len want_end cur filled =
    Ok (filled @ take (unat want_end - unat cur) (drop (unat cur) (blocks_content f blocks)))"
  using assms(2,4)
proof (induction "unat want_end - unat cur" arbitrary: cur filled rule: less_induct)
  case less
  show ?case
  proof (cases "unat cur = unat want_end")
    case True
    then show ?thesis by (subst read_blocks.simps) (simp add: word_less_nat_alt)
  next
    case False
    with less.prems have lt: "unat cur < unat want_end" by simp
    let ?C = "blocks_content f blocks"
    from read_blocks_step [OF assms(1) lt assms(3) less.prems(2) assms(5)] obtain n where
      n: "0 < unat n" "unat n \<le> unat want_end - unat cur" and
      eq: "read_blocks f blocks buf_len want_end cur filled =
        read_blocks f blocks buf_len want_end (cur + n) (filled @ take (unat n) (drop (unat cur) ?C))" by blast
    have "unat cur + unat n \<le> unat want_end" using n(2) lt by linarith
    then have "unat cur + unat n < 2 ^ 64" by (rule le_less_trans) simp
    then have c: "unat (cur + n) = unat cur + unat n" by (rule unat_add64)
    have "length (take (unat n) (drop (unat cur) ?C)) \<le> unat n" by simp
    then have "read_blocks f blocks buf_len want_end (cur + n) (filled @ take (unat n) (drop (unat cur) ?C)) =
      Ok ((filled @ take (unat n) (drop (unat cur) ?C)) @ take (unat want_end - (unat cur + unat n)) (drop (unat cur + unat n) ?C))"
      using less.hyps [of "cur + n" "filled @ take (unat n) (drop (unat cur) ?C)"] n lt less.prems(2) unfolding c by simp
    moreover have "take (unat n) (drop (unat cur) ?C) @ take (unat want_end - (unat cur + unat n)) (drop (unat cur + unat n) ?C) =
        take (unat want_end - unat cur) (drop (unat cur) ?C)"
    proof -
      have "unat n + (unat want_end - (unat cur + unat n)) = unat want_end - unat cur" using n(2) lt by linarith
      with take_add [of "unat n" "unat want_end - (unat cur + unat n)" "drop (unat cur) ?C"] show ?thesis
        by (simp add: add.commute)
    qed
    ultimately show ?thesis using eq by simp
  qed
qed

lemma stored_read_at_slice:
  assumes "blocks_from (length f) 0 blocks (unat sz)" and "length f < 2 ^ 64"
    and "unat offset + buf_len < 2 ^ 64"
  shows "stored_read_at f sz blocks buf_len offset = Ok (take buf_len (drop (unat offset) (blocks_content f blocks)))"
proof (cases "sz \<le> offset \<or> buf_len = 0")
  case True
  with length_blocks_content [OF assms(1)] show ?thesis by (auto simp: stored_read_at_def word_le_nat_alt)
next
  case False
  have bl: "unat (of_nat buf_len :: u64) = buf_len" using assms(3) by (simp add: unat_of_nat64)
  let ?e = "min (offset + of_nat buf_len) sz"
  have e: "unat (offset + of_nat buf_len) = unat offset + buf_len" using assms(3) bl by (simp add: unat_add64)
  then have m: "unat ?e = min (unat offset + buf_len) (unat sz)" by (auto simp: min_def word_le_nat_alt)
  have "stored_read_at f sz blocks buf_len offset = read_blocks f blocks buf_len ?e offset []"
    using False assms(3) bl by (simp add: stored_read_at_def add64_OkI del: add64_eq_Ok)
  also have "\<dots> = Ok ([] @ take (unat ?e - unat offset) (drop (unat offset) (blocks_content f blocks)))"
    using False by (intro read_blocks_content [OF assms(1) _ _ _ assms(2)]) (auto simp: m word_le_nat_alt)
  also have "take (unat ?e - unat offset) (drop (unat offset) (blocks_content f blocks)) =
      take buf_len (drop (unat offset) (blocks_content f blocks))"
    using length_blocks_content [OF assms(1)] unfolding m by (cases "unat offset + buf_len \<le> unat sz") simp_all
  finally show ?thesis by simp
qed

section \<open>Streams of stored blocks\<close>

definition stored_header :: "bool \<Rightarrow> u8 list \<Rightarrow> u8 list" where
  "stored_header final c =
     (if final then 1 else 0) # le16 (of_nat (length c)) @ le16 (NOT (of_nat (length c)))"

fun encode_stored :: "u8 list list \<Rightarrow> u8 list" where
  "encode_stored [] = []"
| "encode_stored (c # cs) = stored_header (cs = []) c @ c @ encode_stored cs"

fun stored_layout :: "usize \<Rightarrow> usize \<Rightarrow> u8 list list \<Rightarrow> stored_block list" where
  "stored_layout off u [] = []"
| "stored_layout off u (c # cs) =
     \<lparr> sb_uncomp_start = of_nat u, sb_len = of_nat (length c), sb_file_offset = of_nat (off + 5) \<rparr> #
     stored_layout (off + 5 + length c) (u + length c) cs"

lemma length_stored_header [simp]: "length (stored_header final c) = 5"
  by (simp add: stored_header_def)

lemma stored_header_nth:
  "stored_header final c ! 0 = (if final then 1 else 0)"
  "from_le_bytes [stored_header final c ! 1, stored_header final c ! 2] = (of_nat (length c) :: u16)"
  "from_le_bytes [stored_header final c ! 3, stored_header final c ! 4] = NOT (of_nat (length c) :: u16)"
proof -
  have four: "stored_header final c = [if final then 1 else 0,
      le16 (of_nat (length c)) ! 0, le16 (of_nat (length c)) ! 1,
      le16 (NOT (of_nat (length c))) ! 0, le16 (NOT (of_nat (length c))) ! 1]"
    by (simp add: stored_header_def le16_eval)
  have two: "[le16 w ! 0, le16 w ! 1] = le16 w" for w by (simp add: le16_eval)
  show "stored_header final c ! 0 = (if final then 1 else 0)" by (simp add: stored_header_def)
  have "[stored_header final c ! 1, stored_header final c ! 2] = le16 (of_nat (length c))"
    "[stored_header final c ! 3, stored_header final c ! 4] = le16 (NOT (of_nat (length c)))"
    by (simp_all only: four) (simp_all add: le16_eval)
  then show "from_le_bytes [stored_header final c ! 1, stored_header final c ! 2] = (of_nat (length c) :: u16)"
    "from_le_bytes [stored_header final c ! 3, stored_header final c ! 4] = NOT (of_nat (length c) :: u16)"
    by (simp_all del: to_le_bytes.simps from_le_bytes.simps)
qed

lemma index_loop_encoded:
  assumes "chunks \<noteq> []" and "\<forall>c \<in> set chunks. length c < 65536"
    and "drop off f = encode_stored chunks @ post" and "off \<le> length f" and "length f < 2 ^ 63"
    and "fin = of_nat (off + length (encode_stored chunks))" and "u \<le> off"
  shows "index_loop f name fin (of_nat off) (of_nat u) blocks =
    Ok (Some (blocks @ stored_layout off u chunks, of_nat (u + length (concat chunks))))"
  using assms
proof (induction chunks arbitrary: off u blocks)
  case (Cons c cs)
  let ?h = "stored_header (cs = []) c"
  have len: "length f = off + 5 + length c + length (encode_stored cs) + length post"
    using arg_cong [OF Cons.prems(3), of length] Cons.prems(4) by simp
  have c: "length c < 65536" using Cons.prems(2) by simp
  have small: "off + 5 + length c + length (encode_stored cs) < 18446744073709551616"
    using len Cons.prems(5) by simp
  have fin: "unat fin = off + 5 + length c + length (encode_stored cs)"
  proof -
    have "off + length (encode_stored (c # cs)) = off + 5 + length c + length (encode_stored cs)" by simp
    then show ?thesis using unat_of_nat64 [OF small] by (simp only: Cons.prems(6))
  qed
  have uw: "unat (of_nat k :: u64) = k" if "k \<le> off + 5 + length c + length (encode_stored cs)" for k
    using that small by (simp add: unat_of_nat64)
  have lc: "(ucast (of_nat (length c) :: u16) :: u64) = of_nat (length c)" using c by (rule ucast_of_nat16)
  have 1: "add64 (of_nat off) 5 = (Ok (of_nat (off + 5)) :: (u64, zip_core_error) outcome)"
    "add64 (of_nat (off + 5)) (of_nat (length c)) = (Ok (of_nat (off + 5 + length c)) :: (u64, zip_core_error) outcome)"
    "add64 (of_nat u) (of_nat (length c)) = (Ok (of_nat (u + length c)) :: (u64, zip_core_error) outcome)"
    using small Cons.prems(7) add64_of_nat [of off 5 "off + 5"] by (simp_all add: add64_of_nat del: add64_eq_Ok of_nat_add)
  have 2: "\<not> fin < of_nat (off + 5)" "\<not> fin < of_nat (off + 5 + length c)"
    using fin uw [of "off + 5"] uw [of "off + 5 + length c"] by (simp_all add: word_less_nat_alt del: of_nat_add)
  have "take 5 (drop off f) = ?h" by (simp add: Cons.prems(3))
  then have 3: "pread_exact f 5 (of_nat off) = Ok ?h"
    using len uw [of off] by (simp add: pread_exact_def)
  have bt: "drop_bit 1 (?h ! 0) AND 3 = 0" "(?h ! 0 AND 1 = 1) = (cs = [])"
    by (simp_all add: stored_header_nth)
  let ?b = "\<lparr> sb_uncomp_start = of_nat u, sb_len = of_nat (length c), sb_file_offset = of_nat (off + 5) \<rparr>"
  have step: "index_loop f name fin (of_nat off) (of_nat u) blocks =
      (if cs = [] then Ok (Some (blocks @ [?b], of_nat (u + length c)))
       else index_loop f name fin (of_nat (off + 5 + length c)) (of_nat (u + length c)) (blocks @ [?b]))"
    by (subst index_loop.simps)
      (simp only: 1 2 3 bt and_then.simps map_err.simps Let_def if_False stored_header_nth(2,3) lc simp_thms)
  show ?case
  proof (cases "cs = []")
    case True
    with step show ?thesis by simp
  next
    case False
    have d: "drop (off + 5 + length c) f = encode_stored cs @ post"
    proof -
      have "drop (off + 5 + length c) f = drop (5 + length c) (drop off f)" by (simp add: add.commute add.left_commute)
      then show ?thesis by (simp add: Cons.prems(3))
    qed
    have "fin = of_nat (off + 5 + length c + length (encode_stored cs))"
      using Cons.prems(6) by (simp add: add.assoc)
    from Cons.IH [OF False _ d _ Cons.prems(5) this, of "u + length c" "blocks @ [?b]"] Cons.prems(2,7) len step False
    show ?thesis by (simp add: add.assoc)
  qed
qed simp

lemma stored_layout_blocks:
  assumes "drop off f = encode_stored chunks @ post" and "off \<le> length f" and "length f < 2 ^ 63" and "u \<le> off"
  shows "blocks_from (length f) u (stored_layout off u chunks) (u + length (concat chunks))"
    and "blocks_content f (stored_layout off u chunks) = concat chunks"
proof -
  have "blocks_from (length f) u (stored_layout off u chunks) (u + length (concat chunks)) \<and>
      blocks_content f (stored_layout off u chunks) = concat chunks"
    using assms
  proof (induction chunks arbitrary: off u)
    case (Cons c cs)
    have len: "length f = off + 5 + length c + length (encode_stored cs) + length post"
      using arg_cong [OF Cons.prems(1), of length] Cons.prems(2) by simp
    have d: "drop (off + 5) f = c @ encode_stored cs @ post"
    proof -
      have "drop (off + 5) f = drop 5 (drop off f)" by (simp add: add.commute)
      then show ?thesis by (simp add: Cons.prems(1))
    qed
    then have d': "drop (off + 5 + length c) f = encode_stored cs @ post"
      by (metis append_eq_conv_conj drop_drop add.commute)
    have uw: "unat (of_nat u :: u64) = u" "unat (of_nat (length c) :: u64) = length c"
      "unat (of_nat (off + 5) :: u64) = off + 5"
      by (intro unat_of_nat64; use len Cons.prems(3,4) in simp)+
    from Cons.IH [OF d' _ Cons.prems(3), of "u + length c"] Cons.prems(4) len uw d show ?case
      by (simp add: blocks_content_def block_bytes_def add.assoc del: of_nat_add)
  qed (simp add: blocks_content_def)
  then show "blocks_from (length f) u (stored_layout off u chunks) (u + length (concat chunks))"
    "blocks_content f (stored_layout off u chunks) = concat chunks" by blast+
qed

lemma length_concat_encode: "length (concat chunks) \<le> length (encode_stored chunks)"
  by (induction chunks) auto

section \<open>Panics\<close>

lemma pread_exact_no_panic [simp]: "pread_exact f n off \<noteq> Panic"
  by (simp add: pread_exact_def)

text \<open>The loop itself does not overflow while it stays near the file, as every header it reads forces.\<close>

lemma index_loop_no_panic:
  assumes "length f < 2 ^ 63" and "unat foff < 2 ^ 63 + 65536" and "unat uoff \<le> unat foff"
  shows "index_loop f name fin foff uoff blocks \<noteq> Panic"
  using assms
proof (induction f name fin foff uoff blocks rule: index_loop.induct)
  case (1 f name fin foff uoff blocks)
  have f5: "unat foff + 5 < 2 ^ 64" using 1(3) by simp
  then have data: "add64 foff 5 = (Ok (foff + 5) :: (u64, zip_core_error) outcome)" "unat (foff + 5) = unat foff + 5"
    by (simp_all add: add64_OkI unat_add64 del: add64_eq_Ok)
  show ?case
  proof
    assume "index_loop f name fin foff uoff blocks = Panic"
    then obtain hdr where h: "\<not> fin < foff + 5" "pread_exact f 5 foff = Ok hdr"
      "drop_bit 1 (hdr ! 0) AND 3 = 0"
      "(from_le_bytes [hdr ! 3, hdr ! 4] :: u16) = NOT (from_le_bytes [hdr ! 1, hdr ! 2])"
      and rest: "and_then (add64 (foff + 5) (ucast (from_le_bytes [hdr ! 1, hdr ! 2] :: u16))) (\<lambda>next_off.
             if fin < next_off then Err (block_overrun name (foff + 5))
             else and_then (add64 uoff (ucast (from_le_bytes [hdr ! 1, hdr ! 2] :: u16))) (\<lambda>uoff'.
               if hdr ! 0 AND 1 = 1 then Ok (Some (blocks @ [\<lparr> sb_uncomp_start = uoff,
                  sb_len = ucast (from_le_bytes [hdr ! 1, hdr ! 2] :: u16), sb_file_offset = foff + 5 \<rparr>], uoff'))
               else index_loop f name fin next_off uoff' (blocks @ [\<lparr> sb_uncomp_start = uoff,
                  sb_len = ucast (from_le_bytes [hdr ! 1, hdr ! 2] :: u16), sb_file_offset = foff + 5 \<rparr>]))) = Panic"
      by (subst (asm) index_loop.simps) (auto simp: data and_then_eq_Panic Let_def split: if_splits)
    define len where "len = (from_le_bytes [hdr ! 1, hdr ! 2] :: u16)"
    from pread_exact_Ok [OF h(2)] have in_f: "unat foff + 5 \<le> length f" by simp
    have l: "unat (ucast len :: u64) < 65536" by (simp add: unat_ucast16)
    then have b: "unat (foff + 5) + unat (ucast len :: u64) < 2 ^ 63 + 65536"
      using in_f data(2) 1(2) by linarith
    then have nx: "add64 (foff + 5) (ucast len) = (Ok (foff + 5 + ucast len) :: (u64, zip_core_error) outcome)"
      "unat (foff + 5 + ucast len) = unat (foff + 5) + unat (ucast len :: u64)"
      by (simp_all add: add64_OkI unat_add64 del: add64_eq_Ok)
    have "unat uoff + unat (ucast len :: u64) \<le> unat (foff + 5) + unat (ucast len :: u64)"
      using 1(4) data(2) by simp
    with b have ux: "add64 uoff (ucast len) = (Ok (uoff + ucast len) :: (u64, zip_core_error) outcome)"
      "unat (uoff + ucast len) = unat uoff + unat (ucast len :: u64)"
      by (simp_all add: add64_OkI unat_add64 del: add64_eq_Ok)
    let ?b = "\<lparr> sb_uncomp_start = uoff, sb_len = ucast len, sb_file_offset = foff + 5 \<rparr>"
    from rest have P: "\<not> fin < foff + 5 + ucast len" "hdr ! 0 AND 1 \<noteq> 1"
      "index_loop f name fin (foff + 5 + ucast len) (uoff + ucast len) (blocks @ [?b]) = Panic"
      unfolding len_def [symmetric] nx(1) ux(1) and_then.simps by (simp_all split: if_splits)
    have "map_err Io (pread_exact f 5 foff) = Ok hdr" using h(2) by simp
    from 1(1) [OF data(1) h(1) this refl refl _ len_def refl _ nx(1) P(1) ux(1) refl P(2)] h(3)
      h(4) [folded len_def] 1(2) b nx(2) ux(2) 1(4) data(2) P(3)
    show False by (simp del: from_le_bytes.simps)
  qed
qed

section \<open>Properties\<close>

text \<open>
  C15: A deflate stream of stored blocks, each of fewer than 65536 bytes, standing anywhere in a
  file, is indexed; and reading any number of bytes at any offset through that index returns
  exactly that slice of the concatenated blocks, shortened at their end.
\<close>

theorem stored_blocks_roundtrip:
  assumes "chunks \<noteq> []" and "\<forall>c \<in> set chunks. length c < 65536"
    and "f = pre @ encode_stored chunks @ post" and "length f < 2 ^ 63"
  shows "\<exists>blocks. index_stored_blocks f name (of_nat (length pre)) (of_nat (length (encode_stored chunks)))
      (of_nat (length (concat chunks))) = Ok (Some blocks) \<and>
    (\<forall>offset n. unat offset + n < 2 ^ 64 \<longrightarrow>
      stored_read_at f (of_nat (length (concat chunks))) blocks n offset =
        Ok (take n (drop (unat offset) (concat chunks))))"
proof -
  let ?off = "length pre" and ?len = "length (encode_stored chunks)" and ?total = "length (concat chunks)"
  have len: "length f = ?off + ?len + length post" using assms(3) by simp
  with assms(4) have small: "?off + ?len < 18446744073709551616" "?total < 18446744073709551616"
    using length_concat_encode [of chunks] by simp_all
  have d: "drop ?off f = encode_stored chunks @ post" using assms(3) by simp
  have "add64 (of_nat ?off) (of_nat ?len) = (Ok (of_nat (?off + ?len)) :: (u64, zip_core_error) outcome)"
    using small by (intro add64_of_nat) simp_all
  moreover from index_loop_encoded [OF assms(1,2) d _ assms(4) refl, of 0 name "[]"] len
  have "index_loop f name (of_nat (?off + ?len)) (of_nat ?off) 0 [] =
    Ok (Some (stored_layout ?off 0 chunks, of_nat ?total))" by simp
  ultimately have ix: "index_stored_blocks f name (of_nat ?off) (of_nat ?len) (of_nat ?total) =
      Ok (Some (stored_layout ?off 0 chunks))"
    by (simp add: index_stored_blocks_def del: of_nat_add add64_eq_Ok)
  from stored_layout_blocks [OF d _ assms(4), of 0] len
  have b: "blocks_from (length f) 0 (stored_layout ?off 0 chunks) (unat (of_nat ?total :: u64))"
    "blocks_content f (stored_layout ?off 0 chunks) = concat chunks"
    using small(2) by (simp_all add: unat_of_nat64)
  have "length f < 2 ^ 64" using assms(4) by simp
  from ix stored_read_at_slice [OF b(1) this] b(2) show ?thesis by auto
qed

theorem stored_blocks_roundtrip_witness:
  "\<exists>blocks. index_stored_blocks ([9] @ encode_stored [[1, 2], [3, 4, 5]] @ [7]) [] 1 15 5 = Ok (Some blocks) \<and>
    stored_read_at ([9] @ encode_stored [[1, 2], [3, 4, 5]] @ [7]) 5 blocks 3 1 = Ok [2, 3, 4]"
proof -
  from stored_blocks_roundtrip [where chunks = "[[1, 2], [3, 4, 5]]" and pre = "[9]" and post = "[7]"
      and name = "[]", OF _ _ refl] obtain blocks where
    "index_stored_blocks ([9] @ encode_stored [[1, 2], [3, 4, 5]] @ [7]) [] 1 15 5 = Ok (Some blocks)"
    and r: "\<And>offset n. unat offset + n < 2 ^ 64 \<Longrightarrow>
      stored_read_at ([9] @ encode_stored [[1, 2], [3, 4, 5]] @ [7]) 5 blocks n offset =
        Ok (take n (drop (unat offset) [1, 2, 3, 4, 5]))"
    by auto
  with r [of 1 3] show ?thesis by (intro exI [of _ blocks]) simp
qed

text \<open>
  Indexing an entry whose data starts near the file panics exactly when the start of its data
  plus its compressed size, which nothing bounds, overflows 64 bits.
\<close>

theorem index_stored_blocks_panics_iff:
  assumes "length f < 2 ^ 63" and "unat data_start < 2 ^ 63 + 65536"
  shows "index_stored_blocks f name data_start compressed_size uncompressed_size = Panic \<longleftrightarrow>
    2 ^ 64 \<le> unat data_start + unat compressed_size"
proof -
  have "index_loop f name fin data_start 0 [] \<noteq> Panic" for fin
    using assms by (intro index_loop_no_panic) simp_all
  then show ?thesis
    by (auto simp: index_stored_blocks_def and_then_eq_Panic add64_Panic_iff not_less split: option.splits if_splits)
qed

theorem index_stored_blocks_panics_iff_witness:
  "index_stored_blocks [1, 2, 3] [] 2 (- 1) 3 = Panic"
  by (subst index_stored_blocks_panics_iff) (simp_all add: unsigned_minus_1_eq_mask mask_eq_exp_minus_1)

lemma blocks_from_longer: "blocks_from k u bs w \<Longrightarrow> k \<le> l \<Longrightarrow> blocks_from l u bs w"
  by (induction k u bs w rule: blocks_from.induct) auto

lemma built_blocks:
  assumes "index_stored_blocks f name data_start compressed_size sz = Ok (Some blocks)"
  shows "blocks_from (unat data_start + unat compressed_size) 0 blocks (unat sz)"
    and "\<forall>b \<in> set blocks. unat data_start + 5 \<le> unat (sb_file_offset b) \<and> unat (sb_file_offset b) \<le> length f"
    and "blocks \<noteq> []"
proof -
  from assms obtain fin where fin: "add64 data_start compressed_size = (Ok fin :: (u64, zip_core_error) outcome)"
    and loop: "index_loop f name fin data_start 0 [] = Ok (Some (blocks, sz))"
    by (auto simp: index_stored_blocks_def split: option.splits if_splits)
  from fin have "unat fin = unat data_start + unat compressed_size" by (auto simp: unat_add64)
  with index_loop_blocks [OF loop] show "blocks_from (unat data_start + unat compressed_size) 0 blocks (unat sz)"
    "\<forall>b \<in> set blocks. unat data_start + 5 \<le> unat (sb_file_offset b) \<and> unat (sb_file_offset b) \<le> length f"
    "blocks \<noteq> []" by auto
qed

text \<open>
  C17: Whatever the bytes of the file, an index that is built has a block, its blocks are contiguous from
  zero to the entry's size, each ends inside the entry's compressed range, and each starts after a header
  that lies in that range and in the file. Where the compressed range lies in the file, so do the blocks:
  they hold as many bytes as the entry's size, and positioned reads return slices of those bytes. (Where it
  does not, the last block may run past the file, whose reads then fail.)
\<close>

theorem stored_index_sound:
  assumes "index_stored_blocks f name data_start compressed_size sz = Ok (Some blocks)"
  shows "blocks \<noteq> [] \<and> blocks_from (unat data_start + unat compressed_size) 0 blocks (unat sz) \<and>
    (\<forall>b \<in> set blocks. unat data_start + 5 \<le> unat (sb_file_offset b) \<and> unat (sb_file_offset b) \<le> length f) \<and>
    (unat data_start + unat compressed_size \<le> length f \<and> length f < 2 ^ 64 \<longrightarrow>
      blocks_from (length f) 0 blocks (unat sz) \<and> length (blocks_content f blocks) = unat sz \<and>
      (\<forall>offset n. unat offset + n < 2 ^ 64 \<longrightarrow>
        stored_read_at f sz blocks n offset = Ok (take n (drop (unat offset) (blocks_content f blocks)))))"
proof -
  note b = built_blocks [OF assms]
  have "blocks_from (length f) 0 blocks (unat sz)" if "unat data_start + unat compressed_size \<le> length f"
    using blocks_from_longer [OF b(1) that] .
  with b length_blocks_content [of f 0 blocks "unat sz"] stored_read_at_slice [of f blocks sz] show ?thesis by auto
qed

lemma one_block_index: "index_stored_blocks ([9] @ encode_stored [[1, 2]] @ [7]) [] 1 7 2 =
    Ok (Some (stored_layout 1 0 [[1, 2]]))"
proof -
  have "index_loop ([9] @ encode_stored [[1, 2]] @ [7]) [] 8 (of_nat 1) (of_nat 0) [] =
      Ok (Some (stored_layout 1 0 [[1, 2]], 2))"
    using index_loop_encoded [where chunks = "[[1, 2]]" and off = 1 and u = 0 and post = "[7]" and fin = 8
        and f = "[9] @ encode_stored [[1, 2]] @ [7]" and name = "[]" and blocks = "[]"] by simp
  then show ?thesis by (simp add: index_stored_blocks_def add64_def)
qed

text \<open>An index whose block is in the file, and one over a range that ends after the file.\<close>

lemma overrunning_index: "index_stored_blocks [1, 10, 0, 0xF5, 0xFF] [] 0 15 10 =
    Ok (Some [\<lparr> sb_uncomp_start = 0, sb_len = 10, sb_file_offset = 5 \<rparr>])"
  by (simp add: index_stored_blocks_def index_loop.simps add64_def pread_exact_def)

theorem stored_index_sound_witness:
  "length (blocks_content ([9] @ encode_stored [[1, 2]] @ [7]) (stored_layout 1 0 [[1, 2]])) = 2 \<and>
   blocks_from 15 0 [\<lparr> sb_uncomp_start = 0, sb_len = 10, sb_file_offset = 5 \<rparr>] 10"
  using stored_index_sound [OF one_block_index] stored_index_sound [OF overrunning_index] by simp

end
