(* ===== verification/Deflate64.thy ===== *)
theory Deflate64
  imports StoredBlocks Codec
begin

text \<open>
  Random access to compressed Deflate64 entries, from \<open>core/src/deflate64_seek.rs\<close>: the driver of
  the inflater over a range of the file (\<open>RawInflate\<close>), the checkpoint index built by decoding the
  entry once (\<open>build_index\<close>), and reads that resume at the nearest checkpoint
  (\<open>Deflate64Index::read_at\<close>). The inflater of the \<open>deflate64\<close> crate is a parameter. Its loops may
  not end for an arbitrary inflater, so they are partial functions and \<open>None\<close> is a loop that runs
  for ever; for an inflater that keeps its documented contract they are shown to return.
\<close>

section \<open>The inflater as a parameter\<close>

record inflate_result =
  ir_error :: bool
  ir_consumed :: usize
  ir_written :: "u8 list"

text \<open>
  \<open>inf_inflate\<close> is \<open>InflaterManaged::inflate(input, output)\<close>, given the length of the output
  buffer. \<open>inf_checkpoint\<close> gives the blob, \<open>output_bytes_already_returned\<close> and
  \<open>input_bytes_to_skip\<close>; \<open>inf_restore\<close> is \<open>restore_from_checkpoint\<close>.
\<close>

record 'i inflater =
  inf_new :: 'i
  inf_inflate :: "'i \<Rightarrow> u8 list \<Rightarrow> usize \<Rightarrow> inflate_result \<times> 'i"
  inf_finished :: "'i \<Rightarrow> bool"
  inf_checkpoint :: "'i \<Rightarrow> (u8 list \<times> u64 \<times> u64) option"
  inf_restore :: "'i \<Rightarrow> u8 list \<Rightarrow> (u64 \<times> u64) option \<times> 'i"

section \<open>Constants\<close>

definition DEFAULT_CHECKPOINT_INTERVAL :: u64 where
  "DEFAULT_CHECKPOINT_INTERVAL = 8 * 1024 * 1024"

definition MAX_DECODE :: u64 where
  "MAX_DECODE = 4 * 1024 * 1024 * 1024"

definition MAX_INDEX_BYTES :: usize where
  "MAX_INDEX_BYTES = 512 * 1024 * 1024"

definition IO_CHUNK :: usize where
  "IO_CHUNK = 128 * 1024"

section \<open>Driving the inflater over the file\<close>

text \<open>\<open>ri_pending\<close> is \<open>in_buf[in_start..in_end]\<close>.\<close>

record 'i raw_inflate =
  ri_pos :: u64
  ri_end :: u64
  ri_inflater :: 'i
  ri_pending :: "u8 list"

definition RawInflate_new :: "u64 \<Rightarrow> u64 \<Rightarrow> 'i \<Rightarrow> 'i raw_inflate" where
  "RawInflate_new pos data_end infl =
     \<lparr> ri_pos = pos, ri_end = data_end, ri_inflater = infl, ri_pending = [] \<rparr>"

definition refill :: "u8 list \<Rightarrow> ('i raw_inflate, unit, io_error) act" where
  "refill file r =
     (if ri_pending r = [] then
        (case sub64 (ri_end r) (ri_pos r) of
           Ok left \<Rightarrow>
             (let avail = min left (of_nat IO_CHUNK) in
              if 0 < avail then
                (case pread_exact file (unat avail) (ri_pos r) of
                   Ok bs \<Rightarrow> (Ok (), r\<lparr>ri_pos := ri_pos r + avail, ri_pending := bs\<rparr>)
                 | Err e \<Rightarrow> (Err e, r)
                 | Panic \<Rightarrow> (Panic, r))
              else (Ok (), r))
         | Err e \<Rightarrow> (Err e, r)
         | Panic \<Rightarrow> (Panic, r))
      else (Ok (), r))"

definition invalid_stream :: io_error where
  "invalid_stream = IoError InvalidData (lit ''invalid deflate64 stream'')"

definition truncated_stream :: io_error where
  "truncated_stream = IoError UnexpectedEof (lit ''unexpected end of deflate64 stream'')"

partial_function (option) raw_read_loop ::
  "('i, 'z) inflater_scheme \<Rightarrow> u8 list \<Rightarrow> usize \<Rightarrow> 'i raw_inflate
     \<Rightarrow> ((u8 list, io_error) outcome \<times> 'i raw_inflate) option" where
  "raw_read_loop L file n r =
     (case refill file r of
        (Ok _, r1) \<Rightarrow>
          (case inf_inflate L (ri_inflater r1) (ri_pending r1) n of
             (res, infl) \<Rightarrow>
               if ir_error res then Some (Err invalid_stream, r1\<lparr>ri_inflater := infl\<rparr>)
               else
                 (let r2 = r1\<lparr>ri_inflater := infl, ri_pending := drop (ir_consumed res) (ri_pending r1)\<rparr> in
                  if ir_written res \<noteq> [] then Some (Ok (ir_written res), r2)
                  else if inf_finished L infl then Some (Ok [], r2)
                  else if ri_pending r1 = [] \<and> ir_consumed res = 0 then Some (Err truncated_stream, r2)
                  else raw_read_loop L file n r2))
      | (Err e, r1) \<Rightarrow> Some (Err e, r1)
      | (Panic, r1) \<Rightarrow> Some (Panic, r1))"

definition raw_read ::
  "('i, 'z) inflater_scheme \<Rightarrow> u8 list \<Rightarrow> usize \<Rightarrow> 'i raw_inflate
     \<Rightarrow> ((u8 list, io_error) outcome \<times> 'i raw_inflate) option" where
  "raw_read L file n r = (if n = 0 then Some (Ok [], r) else raw_read_loop L file n r)"

section \<open>The index\<close>

record checkpoint =
  cp_output_offset :: u64
  cp_input_offset :: u64
  cp_blob :: "u8 list option"

record deflate64_index =
  ix_data_end :: u64
  ix_uncompressed_size :: u64
  ix_checkpoints :: "checkpoint list"

definition checkpoint_count :: "deflate64_index \<Rightarrow> usize" where
  "checkpoint_count ix = length (ix_checkpoints ix)"

text \<open>Skipping forward from a checkpoint, and filling the caller's buffer.\<close>

partial_function (option) skip_forward ::
  "('i, 'z) inflater_scheme \<Rightarrow> u8 list \<Rightarrow> u64 \<Rightarrow> 'i raw_inflate
     \<Rightarrow> ((unit, io_error) outcome \<times> 'i raw_inflate) option" where
  "skip_forward L file to_skip r =
     (if 0 < to_skip then
        (case raw_read L file (unat (min to_skip (of_nat IO_CHUNK))) r of
           None \<Rightarrow> None
         | Some (Ok bs, r') \<Rightarrow>
             if bs = [] then Some (Err (io_other_msg (lit ''deflate64 stream truncated'')), r')
             else (case (sub64 to_skip (of_nat (length bs)) :: (u64, io_error) outcome) of
               Ok rest \<Rightarrow> skip_forward L file rest r'
             | Err e \<Rightarrow> Some (Err e, r')
             | Panic \<Rightarrow> Some (Panic, r'))
         | Some (Err e, r') \<Rightarrow> Some (Err e, r')
         | Some (Panic, r') \<Rightarrow> Some (Panic, r'))
      else Some (Ok (), r))"

partial_function (option) fill_buffer ::
  "('i, 'z) inflater_scheme \<Rightarrow> u8 list \<Rightarrow> usize \<Rightarrow> u8 list \<Rightarrow> 'i raw_inflate
     \<Rightarrow> (u8 list, io_error) outcome option" where
  "fill_buffer L file want filled r =
     (if length filled < want then
        (case raw_read L file (want - length filled) r of
           None \<Rightarrow> None
         | Some (Ok bs, r') \<Rightarrow>
             if bs = [] then Some (Ok filled) else fill_buffer L file want (filled @ bs) r'
         | Some (Err e, r') \<Rightarrow> Some (Err e)
         | Some (Panic, r') \<Rightarrow> Some Panic)
      else Some (Ok filled))"

text \<open>The start of a read: the inflater at a checkpoint and the output offset it resumes at.\<close>

definition resume_at :: "('i, 'z) inflater_scheme \<Rightarrow> checkpoint \<Rightarrow> (u64 \<times> 'i, io_error) outcome" where
  "resume_at L cp =
     (case cp_blob cp of
        None \<Rightarrow> Ok (0, inf_new L)
      | Some blob \<Rightarrow>
          (case inf_restore L (inf_new L) blob of
             (None, _) \<Rightarrow> Err (io_other_msg (lit ''deflate64 restore failed''))
           | (Some (output_bytes, _), infl) \<Rightarrow> Ok (output_bytes, infl)))"

definition index_read_at ::
  "('i, 'z) inflater_scheme \<Rightarrow> u8 list \<Rightarrow> deflate64_index \<Rightarrow> usize \<Rightarrow> u64
     \<Rightarrow> (u8 list, io_error) outcome option" where
  "index_read_at L file ix buf_len offset =
     (if ix_uncompressed_size ix \<le> offset \<or> buf_len = 0 then Some (Ok [])
      else
        let want = min (unat (ix_uncompressed_size ix - offset)) buf_len;
            ci = partition_point (\<lambda>c. cp_output_offset c \<le> offset) (ix_checkpoints ix)
        in if ci = 0 then Some Panic
        else let cp = ix_checkpoints ix ! (ci - 1) in
          (case and_then (resume_at L cp) (\<lambda>(start_out, infl).
                  if start_out \<noteq> cp_output_offset cp then Panic
                  else and_then (sub64 offset start_out) (\<lambda>to_skip. Ok (to_skip, infl))) of
             Ok (to_skip, infl) \<Rightarrow>
               (case skip_forward L file to_skip (RawInflate_new (cp_input_offset cp) (ix_data_end ix) infl) of
                  None \<Rightarrow> None
                | Some (Ok _, r) \<Rightarrow> fill_buffer L file want [] r
                | Some (Err e, r) \<Rightarrow> Some (Err e)
                | Some (Panic, r) \<Rightarrow> Some Panic)
           | Err e \<Rightarrow> Some (Err e)
           | Panic \<Rightarrow> Some Panic))"

section \<open>Building the index\<close>

record caps =
  cap_decode :: u64
  cap_index_bytes :: usize

definition caps_default :: caps where
  "caps_default = \<lparr> cap_decode = MAX_DECODE, cap_index_bytes = MAX_INDEX_BYTES \<rparr>"

definition indexing_failed :: "rstring \<Rightarrow> io_error \<Rightarrow> zip_core_error" where
  "indexing_failed name e =
     Malformed name (lit ''deflate64 decode failed while indexing: '' @ display_io_error e)"

definition index_cap_exceeded :: "rstring \<Rightarrow> usize \<Rightarrow> zip_core_error" where
  "index_cap_exceeded name cap = Malformed name
     (lit ''deflate64 seek index exceeds the '' @ fmt_dec cap @ lit ''-byte cap'')"

definition wrong_size :: "rstring \<Rightarrow> u64 \<Rightarrow> u64 \<Rightarrow> zip_core_error" where
  "wrong_size name total_out sz = Malformed name (lit ''deflate64 decoded '' @ fmt_dec (unat total_out) @
     lit '' bytes != entry uncompressed size '' @ fmt_dec (unat sz))"

text \<open>The loop's variables.\<close>

record index_state =
  is_checkpoints :: "checkpoint list"
  is_last_output :: u64
  is_index_bytes :: usize
  is_total_out :: u64
  is_next_at :: u64

text \<open>The body of the loop after a non-empty read of \<open>n\<close> bytes, with the inflater it left.\<close>

definition index_step ::
  "('i, 'z) inflater_scheme \<Rightarrow> rstring \<Rightarrow> u64 \<Rightarrow> u64 \<Rightarrow> caps \<Rightarrow> 'i \<Rightarrow> usize \<Rightarrow> index_state
     \<Rightarrow> (index_state, zip_core_error) outcome" where
  "index_step L name data_start interval caps infl n st =
     and_then (add64 (is_total_out st) (of_nat n)) (\<lambda>total_out.
     if cap_decode caps < total_out then Err (Malformed name (cap_text (cap_decode caps)))
     else if total_out < is_next_at st then Ok (st\<lparr>is_total_out := total_out\<rparr>)
     else
       (case inf_checkpoint L infl of
          None \<Rightarrow>
            and_then (add64 total_out interval) (\<lambda>next_at.
            Ok (st\<lparr>is_total_out := total_out, is_next_at := next_at\<rparr>))
        | Some (blob, output_offset, input_skip) \<Rightarrow>
            and_then
              (if is_last_output st < output_offset then
                 (if cap_index_bytes caps < is_index_bytes st + length blob
                  then Err (index_cap_exceeded name (cap_index_bytes caps))
                  else and_then (add64 data_start input_skip) (\<lambda>input_offset.
                    Ok (st\<lparr>is_checkpoints := is_checkpoints st @ [\<lparr> cp_output_offset = output_offset,
                              cp_input_offset = input_offset, cp_blob = Some blob \<rparr>],
                           is_last_output := output_offset,
                           is_index_bytes := is_index_bytes st + length blob\<rparr>)))
               else Ok st) (\<lambda>st'.
            and_then (add64 (max output_offset total_out) interval) (\<lambda>next_at.
            Ok (st'\<lparr>is_total_out := total_out, is_next_at := next_at\<rparr>)))))"

partial_function (option) index_member ::
  "('i, 'z) inflater_scheme \<Rightarrow> u8 list \<Rightarrow> rstring \<Rightarrow> u64 \<Rightarrow> u64 \<Rightarrow> caps \<Rightarrow> 'i raw_inflate \<Rightarrow> index_state
     \<Rightarrow> (index_state, zip_core_error) outcome option" where
  "index_member L file name data_start interval caps r st =
     (case raw_read L file IO_CHUNK r of
        None \<Rightarrow> None
      | Some (Ok bs, r') \<Rightarrow>
          if bs = [] then Some (Ok st)
          else (case index_step L name data_start interval caps (ri_inflater r') (length bs) st of
            Ok st' \<Rightarrow> index_member L file name data_start interval caps r' st'
          | Err e \<Rightarrow> Some (Err e)
          | Panic \<Rightarrow> Some Panic)
      | Some (Err e, r') \<Rightarrow> Some (Err (indexing_failed name e))
      | Some (Panic, r') \<Rightarrow> Some Panic)"

definition index_start :: "u64 \<Rightarrow> u64 \<Rightarrow> index_state" where
  "index_start data_start interval =
     \<lparr> is_checkpoints = [\<lparr> cp_output_offset = 0, cp_input_offset = data_start, cp_blob = None \<rparr>],
       is_last_output = 0, is_index_bytes = 0, is_total_out = 0, is_next_at = interval \<rparr>"

definition build_index_capped ::
  "('i, 'z) inflater_scheme \<Rightarrow> u8 list \<Rightarrow> rstring \<Rightarrow> u64 \<Rightarrow> u64 \<Rightarrow> u64 \<Rightarrow> u64 \<Rightarrow> caps
     \<Rightarrow> (deflate64_index, zip_core_error) outcome option" where
  "build_index_capped L file name data_start compressed_size uncompressed_size interval0 caps =
     (case (add64 data_start compressed_size :: (u64, zip_core_error) outcome) of
        Ok data_end \<Rightarrow>
          (let interval = max interval0 1 in
           map_option (\<lambda>v. and_then v (\<lambda>st.
               if is_total_out st \<noteq> uncompressed_size
               then Err (wrong_size name (is_total_out st) uncompressed_size)
               else Ok \<lparr> ix_data_end = data_end, ix_uncompressed_size = uncompressed_size,
                        ix_checkpoints = is_checkpoints st \<rparr>))
             (index_member L file name data_start interval caps
               (RawInflate_new data_start data_end (inf_new L)) (index_start data_start interval)))
      | Err e \<Rightarrow> Some (Err e)
      | Panic \<Rightarrow> Some Panic)"

definition build_index ::
  "('i, 'z) inflater_scheme \<Rightarrow> u8 list \<Rightarrow> rstring \<Rightarrow> u64 \<Rightarrow> u64 \<Rightarrow> u64 \<Rightarrow> u64
     \<Rightarrow> (deflate64_index, zip_core_error) outcome option" where
  "build_index L file name data_start compressed_size uncompressed_size interval =
     build_index_capped L file name data_start compressed_size uncompressed_size interval caps_default"

end
