(* ===== verification/Deflate64Props.thy ===== *)
theory Deflate64Props
  imports Deflate64
begin

text \<open>
  Properties of the Deflate64 checkpoint index: the invariant of the index for any inflater, and,
  for an inflater that keeps its contract, that indexing and reading return and that a read is a
  slice of the decoded entry.
\<close>

section \<open>The invariant of the index\<close>

fun blob_length :: "checkpoint \<Rightarrow> usize" where
  "blob_length c = (case cp_blob c of None \<Rightarrow> 0 | Some b \<Rightarrow> length b)"

definition checkpoints_ok :: "u64 \<Rightarrow> checkpoint list \<Rightarrow> bool" where
  "checkpoints_ok data_start cps \<longleftrightarrow>
     (\<exists>rest. cps = \<lparr> cp_output_offset = 0, cp_input_offset = data_start, cp_blob = None \<rparr> # rest \<and>
       (\<forall>c \<in> set rest. cp_blob c \<noteq> None)) \<and>
     sorted_wrt (<) (map cp_output_offset cps)"

definition index_inv :: "u64 \<Rightarrow> caps \<Rightarrow> index_state \<Rightarrow> bool" where
  "index_inv data_start caps st \<longleftrightarrow>
     checkpoints_ok data_start (is_checkpoints st) \<and>
     (\<forall>c \<in> set (is_checkpoints st). cp_output_offset c \<le> is_last_output st) \<and>
     is_index_bytes st = sum_list (map blob_length (is_checkpoints st)) \<and>
     is_index_bytes st \<le> cap_index_bytes caps \<and> is_total_out st \<le> cap_decode caps"

lemma checkpoints_ok_snoc:
  assumes "checkpoints_ok ds cps" and "\<forall>c \<in> set cps. cp_output_offset c < cp_output_offset new"
    and "cp_blob new \<noteq> None"
  shows "checkpoints_ok ds (cps @ [new])"
  using assms by (auto simp: checkpoints_ok_def sorted_wrt_append)

lemma index_inv_start: "index_inv ds caps (index_start ds interval)"
  by (simp add: index_inv_def index_start_def checkpoints_ok_def)

lemma index_step_inv:
  assumes "index_inv ds caps st" and "index_step L name ds interval caps infl n st = Ok st'"
  shows "index_inv ds caps st'"
proof -
  from assms(2) obtain total_out where t: "\<not> cap_decode caps < total_out" and
    rest: "(if total_out < is_next_at st then Ok (st\<lparr>is_total_out := total_out\<rparr>) else
      (case inf_checkpoint L infl of None \<Rightarrow> and_then (add64 total_out interval) (\<lambda>next_at.
            Ok (st\<lparr>is_total_out := total_out, is_next_at := next_at\<rparr>))
        | Some (blob, output_offset, input_skip) \<Rightarrow>
            and_then
              (if is_last_output st < output_offset then
                 (if cap_index_bytes caps < is_index_bytes st + length blob
                  then Err (index_cap_exceeded name (cap_index_bytes caps))
                  else and_then (add64 ds input_skip) (\<lambda>input_offset.
                    Ok (st\<lparr>is_checkpoints := is_checkpoints st @ [\<lparr> cp_output_offset = output_offset,
                              cp_input_offset = input_offset, cp_blob = Some blob \<rparr>],
                           is_last_output := output_offset,
                           is_index_bytes := is_index_bytes st + length blob\<rparr>)))
               else Ok st) (\<lambda>st'.
            and_then (add64 (max output_offset total_out) interval) (\<lambda>next_at.
            Ok (st'\<lparr>is_total_out := total_out, is_next_at := next_at\<rparr>))))) = Ok st'"
    by (auto simp: index_step_def split: if_splits)
  have keep: "index_inv ds caps (st\<lparr>is_total_out := total_out, is_next_at := k\<rparr>)"
    "index_inv ds caps (st\<lparr>is_total_out := total_out\<rparr>)" for k
    using assms(1) t by (simp_all add: index_inv_def)
  have new: "index_inv ds caps (st\<lparr>is_checkpoints := is_checkpoints st @ [\<lparr> cp_output_offset = oo,
      cp_input_offset = io, cp_blob = Some blob \<rparr>], is_last_output := oo,
      is_index_bytes := is_index_bytes st + length blob, is_total_out := total_out, is_next_at := k\<rparr>)"
    if "is_last_output st < oo" "\<not> cap_index_bytes caps < is_index_bytes st + length blob" for oo io blob k
  proof -
    have "\<forall>c \<in> set (is_checkpoints st). cp_output_offset c < oo"
      using assms(1) that(1) by (auto simp: index_inv_def)
    with assms(1) t that checkpoints_ok_snoc [of ds "is_checkpoints st" "\<lparr> cp_output_offset = oo,
      cp_input_offset = io, cp_blob = Some blob \<rparr>"]
    show ?thesis by (auto simp: index_inv_def)
  qed
  from rest show ?thesis by (auto split: if_splits option.splits intro: keep new)
qed

text \<open>An induction along the loop, for an index that is built.\<close>

lemma index_member_induct [consumes 1, case_names finished step]:
  assumes "index_member L f name ds interval caps r st = Some (Ok st')"
    and "\<And>r st r'. raw_read L f IO_CHUNK r = Some (Ok [], r') \<Longrightarrow> P r st st"
    and "\<And>r st bs r' st1 st'. raw_read L f IO_CHUNK r = Some (Ok bs, r') \<Longrightarrow> bs \<noteq> [] \<Longrightarrow>
      index_step L name ds interval caps (ri_inflater r') (length bs) st = Ok st1 \<Longrightarrow>
      P r' st1 st' \<Longrightarrow> P r st st'"
  shows "P r st st'"
proof -
  have "L0 = L \<longrightarrow> f0 = f \<longrightarrow> name0 = name \<longrightarrow> ds0 = ds \<longrightarrow> interval0 = interval \<longrightarrow> caps0 = caps \<longrightarrow>
      (\<forall>st'. v = Ok st' \<longrightarrow> P r st st')"
    if "index_member L0 f0 name0 ds0 interval0 caps0 r st = Some v" for L0 f0 name0 ds0 interval0 caps0 r st v
    using that
  proof (induction rule: index_member.raw_induct [rotated, consumes 1])
    case (1 im L0 f0 name0 ds0 interval0 caps0 r st v)
    show ?case
    proof (intro impI allI)
      fix st' assume eqs: "L0 = L" "f0 = f" "name0 = name" "ds0 = ds" "interval0 = interval" "caps0 = caps"
        and v: "v = Ok st'"
      with 1(2) obtain bs r' where rd: "raw_read L f IO_CHUNK r = Some (Ok bs, r')"
        by (auto split: option.splits prod.splits outcome.splits)
      show "P r st st'"
      proof (cases "bs = []")
        case True
        with 1(2) eqs v rd have "st' = st" by simp
        with rd True assms(2) show ?thesis by simp
      next
        case False
        with 1(2) eqs v rd obtain st1 where s1:
          "index_step L name ds interval caps (ri_inflater r') (length bs) st = Ok st1"
          "im L f name ds interval caps r' st1 = Some (Ok st')"
          by (auto split: outcome.splits)
        from 1(1) [OF s1(2)] have "P r' st1 st'" by simp
        with assms(3) rd False s1(1) show ?thesis by blast
      qed
    qed
  qed
  with assms(1) show ?thesis by blast
qed

section \<open>The inflater's contract\<close>

text \<open>
  \<open>R i ip op\<close>: the inflater \<open>i\<close> has been fed \<open>ip\<close> bytes of the stream \<open>src\<close> and has returned
  \<open>op\<close> bytes of its decoding \<open>out\<close>. Fed a piece of what follows (an empty one only at the end of the
  stream), it takes no more than it is given, returns the next bytes that fit, says it is finished only
  at the end of \<open>out\<close>, and always makes progress; a checkpoint restores to an earlier such state.
\<close>

definition inflate_ok ::
  "('i, 'z) inflater_scheme \<Rightarrow> u8 list \<Rightarrow> u8 list \<Rightarrow> ('i \<Rightarrow> usize \<Rightarrow> usize \<Rightarrow> bool) \<Rightarrow> bool" where
  "inflate_ok L src out R \<longleftrightarrow>
     (\<forall>i ip op n k. R i ip op \<longrightarrow> 0 < n \<longrightarrow> ip + k \<le> length src \<longrightarrow> (k = 0 \<longrightarrow> ip = length src) \<longrightarrow>
        (case inf_inflate L i (take k (drop ip src)) n of (res, i') \<Rightarrow>
           \<not> ir_error res \<and> ir_consumed res \<le> k \<and> length (ir_written res) \<le> n \<and>
           ir_written res = take (length (ir_written res)) (drop op out) \<and>
           R i' (ip + ir_consumed res) (op + length (ir_written res)) \<and>
           (inf_finished L i' \<longrightarrow> op + length (ir_written res) = length out) \<and>
           (ir_written res = [] \<longrightarrow> \<not> inf_finished L i' \<longrightarrow> 0 < ir_consumed res)))"

definition inflater_ok ::
  "('i, 'z) inflater_scheme \<Rightarrow> u8 list \<Rightarrow> u8 list \<Rightarrow> ('i \<Rightarrow> usize \<Rightarrow> usize \<Rightarrow> bool) \<Rightarrow> bool" where
  "inflater_ok L src out R \<longleftrightarrow> R (inf_new L) 0 0 \<and> inflate_ok L src out R \<and>
     (\<forall>i ip op blob oo io. R i ip op \<longrightarrow> inf_checkpoint L i = Some (blob, oo, io) \<longrightarrow>
        unat oo \<le> op \<and> unat io \<le> length src \<and>
        (\<exists>i'. inf_restore L (inf_new L) blob = (Some (oo, io), i') \<and> R i' (unat io) (unat oo)))"

text \<open>Where the stream stands in the file, and where a driver stands in the stream.\<close>

definition stream_at :: "u8 list \<Rightarrow> u64 \<Rightarrow> u8 list \<Rightarrow> bool" where
  "stream_at f ds src \<longleftrightarrow> (\<exists>more. drop (unat ds) f = src @ more) \<and> unat ds + length src \<le> length f \<and> length f < 2 ^ 63"

definition driver_at ::
  "('i \<Rightarrow> usize \<Rightarrow> usize \<Rightarrow> bool) \<Rightarrow> u64 \<Rightarrow> u8 list \<Rightarrow> 'i raw_inflate \<Rightarrow> usize \<Rightarrow> usize \<Rightarrow> bool" where
  "driver_at R ds src r ip op \<longleftrightarrow> R (ri_inflater r) ip op \<and>
     ip + length (ri_pending r) \<le> length src \<and>
     ri_pending r = take (length (ri_pending r)) (drop ip src) \<and>
     unat (ri_pos r) = unat ds + ip + length (ri_pending r) \<and> unat (ri_end r) = unat ds + length src"

lemma refill_ok:
  assumes "stream_at f ds src" and "driver_at R ds src r ip op"
  shows "\<exists>r1. refill f r = (Ok (), r1) \<and> driver_at R ds src r1 ip op \<and> (ri_pending r1 = [] \<longrightarrow> ip = length src)"
proof (cases "ri_pending r = []")
  case False
  with assms(2) show ?thesis by (simp add: refill_def)
next
  case True
  with assms(2) have pos: "unat (ri_pos r) = unat ds + ip" "unat (ri_end r) = unat ds + length src" "ip \<le> length src"
    by (simp_all add: driver_at_def)
  then have le: "ri_pos r \<le> ri_end r" by (simp add: word_le_nat_alt)
  then have left: "unat (ri_end r - ri_pos r) = length src - ip" using pos by (simp add: unat_sub)
  define a where "a = min (ri_end r - ri_pos r) (of_nat IO_CHUNK)"
  have chunk: "unat (of_nat IO_CHUNK :: u64) = IO_CHUNK" "0 < IO_CHUNK" by (simp_all add: IO_CHUNK_def)
  have au: "unat a = min (length src - ip) IO_CHUNK" using left chunk by (auto simp: a_def min_def word_le_nat_alt)
  have sub: "sub64 (ri_end r) (ri_pos r) = (Ok (ri_end r - ri_pos r) :: (u64, io_error) outcome)"
    using le by (simp add: sub64_def)
  show ?thesis
  proof (cases "ip = length src")
    case True
    with au have "\<not> 0 < a" by (simp add: word_less_nat_alt)
    with \<open>ri_pending r = []\<close> assms(2) True show ?thesis unfolding refill_def sub outcome.case Let_def a_def [symmetric] by simp
  next
    case False
    with au chunk pos(3) have a0: "0 < a" "0 < unat a" by (simp_all add: word_less_nat_alt)
    from assms(1) obtain more where f: "drop (unat ds) f = src @ more" "unat ds + length src \<le> length f" "length f < 2 ^ 63"
      by (auto simp: stream_at_def)
    have "drop (unat (ri_pos r)) f = drop ip (drop (unat ds) f)" by (simp add: pos(1) add.commute)
    then have "take (unat a) (drop (unat (ri_pos r)) f) = take (unat a) (drop ip src)"
      using au pos(3) by (simp add: f(1))
    moreover have "unat (ri_pos r) + unat a \<le> length f" using au pos f(2) by simp
    ultimately have rd: "pread_exact f (unat a) (ri_pos r) = Ok (take (unat a) (drop ip src))"
      by (simp add: pread_exact_def)
    let ?r = "r\<lparr>ri_pos := ri_pos r + a, ri_pending := take (unat a) (drop ip src)\<rparr>"
    have "unat (ri_pos r) + unat a < 2 ^ 64" using au pos f(2,3) by simp
    then have "unat (ri_pos r + a) = unat (ri_pos r) + unat a" by (rule unat_add64)
    moreover have "length (take (unat a) (drop ip src)) = unat a" using au by simp
    moreover have "ip + unat a \<le> length src" using au pos(3) by (cases "length src - ip \<le> IO_CHUNK") simp_all
    ultimately have "driver_at R ds src ?r ip op"
      using assms(2) pos by (simp add: driver_at_def)
    moreover have "refill f r = (Ok (), ?r)"
      unfolding refill_def sub outcome.case Let_def a_def [symmetric] using \<open>ri_pending r = []\<close> a0(1) rd by simp
    moreover have "ri_pending ?r \<noteq> []" using a0(2) False pos(3) by simp
    ultimately show ?thesis by blast
  qed
qed

text \<open>A read returns the next bytes, and an empty result exactly at the end of the decoding.\<close>

lemma raw_read_loop_ok:
  assumes "stream_at f ds src" and "inflate_ok L src out R" and "0 < n" and "driver_at R ds src r ip op"
  shows "\<exists>k r' ip'. raw_read_loop L f n r = Some (Ok (take k (drop op out)), r') \<and>
    driver_at R ds src r' ip' (op + k) \<and> k \<le> n \<and> k \<le> length out - op \<and> (k = 0 \<longrightarrow> op = length out)"
  using assms(4)
proof (induction "length src - ip" arbitrary: r ip rule: less_induct)
  case less
  from refill_ok [OF assms(1) less.prems] obtain r1 where r1: "refill f r = (Ok (), r1)"
    "driver_at R ds src r1 ip op" "ri_pending r1 = [] \<longrightarrow> ip = length src" by blast
  define k where "k = length (ri_pending r1)"
  from r1(2) have d: "R (ri_inflater r1) ip op" "ip + k \<le> length src" "ri_pending r1 = take k (drop ip src)"
    "unat (ri_pos r1) = unat ds + ip + k" "unat (ri_end r1) = unat ds + length src"
    by (simp_all add: driver_at_def k_def)
  obtain res i' where inf: "inf_inflate L (ri_inflater r1) (ri_pending r1) n = (res, i')" by (rule prod.exhaust)
  have "k = 0 \<longrightarrow> ip = length src" using r1(3) by (simp add: k_def)
  from assms(2) [unfolded inflate_ok_def, rule_format, OF d(1) assms(3) d(2) this [rule_format]]
    inf [unfolded d(3)] have res: "\<not> ir_error res" "ir_consumed res \<le> k" "length (ir_written res) \<le> n"
    "ir_written res = take (length (ir_written res)) (drop op out)"
    "R i' (ip + ir_consumed res) (op + length (ir_written res))"
    "inf_finished L i' \<longrightarrow> op + length (ir_written res) = length out"
    "ir_written res = [] \<longrightarrow> \<not> inf_finished L i' \<longrightarrow> 0 < ir_consumed res"
    by simp_all
  let ?r2 = "r1\<lparr>ri_inflater := i', ri_pending := drop (ir_consumed res) (ri_pending r1)\<rparr>"
  have "drop (ir_consumed res) (take k (drop ip src)) =
      take (k - ir_consumed res) (drop (ip + ir_consumed res) src)"
    by (simp add: drop_take add.commute)
  then have at: "driver_at R ds src ?r2 (ip + ir_consumed res) (op + length (ir_written res))"
    using res(2,5) d by (simp add: driver_at_def)
  note step = raw_read_loop.simps [of L f n r]
  show ?case
  proof (cases "ir_written res = [] \<and> \<not> inf_finished L i'")
    case True
    with res(7) have c: "0 < ir_consumed res" by simp
    with True r1(1) inf res(1) have "raw_read_loop L f n r = raw_read_loop L f n ?r2"
      unfolding step by (simp add: Let_def)
    moreover have "length src - (ip + ir_consumed res) < length src - ip" using c res(2) d(2) by simp
    moreover from at True have "driver_at R ds src ?r2 (ip + ir_consumed res) op" by simp
    ultimately show ?thesis using less.hyps [of "ip + ir_consumed res" ?r2] by simp
  next
    case False
    then have "raw_read_loop L f n r = Some (Ok (ir_written res), ?r2)"
      unfolding step using r1(1) inf res(1) by (auto simp: Let_def)
    moreover have "length (ir_written res) \<le> length out - op"
      using arg_cong [OF res(4), of length] by simp
    ultimately show ?thesis
      using at res(3,4,6) False
      by (intro exI [of _ "length (ir_written res)"] exI [of _ ?r2] exI [of _ "ip + ir_consumed res"]) auto
  qed
qed

section \<open>Reading through the index\<close>

lemma raw_read_ok:
  assumes "stream_at f ds src" and "inflate_ok L src out R" and "0 < n" and "driver_at R ds src r ip op"
  obtains k r' ip' where "raw_read L f n r = Some (Ok (take k (drop op out)), r')"
    "driver_at R ds src r' ip' (op + k)" "k \<le> n" "k \<le> length out - op" "k = 0 \<longrightarrow> op = length out"
  using raw_read_loop_ok [OF assms] assms(3) by (auto simp: raw_read_def)

lemma skip_forward_ok:
  assumes "stream_at f ds src" and "inflate_ok L src out R"
    and "driver_at R ds src r ip op" and "op + unat to_skip \<le> length out"
  shows "\<exists>r' ip'. skip_forward L f to_skip r = Some (Ok (), r') \<and> driver_at R ds src r' ip' (op + unat to_skip)"
  using assms(3,4)
proof (induction "unat to_skip" arbitrary: to_skip r ip op rule: less_induct)
  case less
  note step = skip_forward.simps [of L f to_skip r]
  show ?case
  proof (cases "to_skip = 0")
    case True
    with less.prems show ?thesis unfolding step by auto
  next
    case False
    then have pos: "0 < to_skip" "0 < unat to_skip" by (simp_all add: word_gt_0 unat_gt_0)
    have "0 < min to_skip (of_nat IO_CHUNK)" using pos(1) by (simp add: IO_CHUNK_def)
    then have n: "0 < unat (min to_skip (of_nat IO_CHUNK))" by (simp add: word_less_nat_alt)
    have n': "unat (min to_skip (of_nat IO_CHUNK)) \<le> unat to_skip" by (simp add: min_def word_le_nat_alt)
    from raw_read_ok [OF assms(1,2) n less.prems(1)] obtain k r' ip' where
      k: "raw_read L f (unat (min to_skip (of_nat IO_CHUNK))) r = Some (Ok (take k (drop op out)), r')"
      "driver_at R ds src r' ip' (op + k)" "k \<le> unat (min to_skip (of_nat IO_CHUNK))" "k \<le> length out - op"
      "k = 0 \<longrightarrow> op = length out" .
    from k(5) less.prems(2) pos(2) have k0: "0 < k" by (cases k) auto
    have ks: "k \<le> unat to_skip" using k(3) n' by simp
    then have ku: "unat (of_nat k :: u64) = k" by (intro unat_of_nat64 le_less_trans [OF _ unat_lt64])
    have len: "length (take k (drop op out)) = k" using k(4) by simp
    from ks ku have sub: "sub64 to_skip (of_nat k) = (Ok (to_skip - of_nat k) :: (u64, io_error) outcome)"
      "unat (to_skip - of_nat k) = unat to_skip - k"
      by (simp_all add: sub64_def word_le_nat_alt unat_sub)
    have eq: "skip_forward L f to_skip r = skip_forward L f (to_skip - of_nat k) r'"
    proof -
      have "take k (drop op out) \<noteq> []" using len k0 by (metis length_0_conv less_numeral_extra(3))
      with pos(1) k(1) sub(1) show ?thesis unfolding step by (simp only: if_True if_False option.case prod.case outcome.case len)
    qed
    have "unat (to_skip - of_nat k) < unat to_skip" "op + k + unat (to_skip - of_nat k) \<le> length out"
      "op + k + unat (to_skip - of_nat k) = op + unat to_skip"
      using sub(2) k0 ks less.prems(2) by simp_all
    with less.hyps [OF _ k(2)] eq show ?thesis by metis
  qed
qed

lemma fill_buffer_ok:
  assumes "stream_at f ds src" and "inflate_ok L src out R"
    and "driver_at R ds src r ip op" and "length filled \<le> want" and "op + (want - length filled) \<le> length out"
  shows "fill_buffer L f want filled r = Some (Ok (filled @ take (want - length filled) (drop op out)))"
  using assms(3-5)
proof (induction "want - length filled" arbitrary: filled r ip op rule: less_induct)
  case less
  note step = fill_buffer.simps [of L f want filled r]
  show ?case
  proof (cases "length filled = want")
    case True
    then show ?thesis unfolding step by simp
  next
    case False
    with less.prems(2) have n: "0 < want - length filled" by simp
    from raw_read_ok [OF assms(1,2) n less.prems(1)] obtain k r' ip' where
      k: "raw_read L f (want - length filled) r = Some (Ok (take k (drop op out)), r')"
      "driver_at R ds src r' ip' (op + k)" "k \<le> want - length filled" "k \<le> length out - op"
      "k = 0 \<longrightarrow> op = length out" .
    from k(5) less.prems(3) n have k0: "0 < k" by (cases k) auto
    have len: "length (take k (drop op out)) = k" using k(4) by simp
    then have ne: "take k (drop op out) \<noteq> []" using k0 by (metis length_0_conv less_numeral_extra(3))
    let ?f = "filled @ take k (drop op out)"
    have "fill_buffer L f want filled r = fill_buffer L f want ?f r'"
      unfolding step using n ne k(1) by simp
    also have "\<dots> = Some (Ok (?f @ take (want - length ?f) (drop (op + k) out)))"
      using less.prems k(3) k0 len n by (intro less.hyps [OF _ k(2)]) simp_all
    also have "?f @ take (want - length ?f) (drop (op + k) out) = filled @ take (want - length filled) (drop op out)"
    proof -
      have lf: "length ?f = length filled + k" using len by simp
      have e: "want - length filled = k + (want - (length filled + k))" using k(3) by simp
      show ?thesis unfolding lf e take_add append_assoc drop_drop by (simp only: add.commute)
    qed
    finally show ?thesis .
  qed
qed

text \<open>The checkpoints of an index built over a good stream are restorable states of it.\<close>

definition resumable ::
  "('i, 'z) inflater_scheme \<Rightarrow> ('i \<Rightarrow> usize \<Rightarrow> usize \<Rightarrow> bool) \<Rightarrow> u64 \<Rightarrow> u8 list \<Rightarrow> u8 list \<Rightarrow> checkpoint \<Rightarrow> bool" where
  "resumable L R ds src out c \<longleftrightarrow> (\<exists>i ip. resume_at L c = Ok (cp_output_offset c, i) \<and>
     R i ip (unat (cp_output_offset c)) \<and> unat (cp_output_offset c) \<le> length out \<and> ip \<le> length src \<and> unat (cp_input_offset c) = unat ds + ip)"

lemma index_step_resumable:
  assumes "inflater_ok L src out R" and "stream_at f ds src" and "R infl ip op" and "op \<le> length out"
    and "\<forall>c \<in> set (is_checkpoints st). resumable L R ds src out c"
    and "index_step L name ds interval caps infl n st = Ok st'"
  shows "(\<forall>c \<in> set (is_checkpoints st'). resumable L R ds src out c) \<and>
    is_total_out st' = is_total_out st + of_nat n \<and> unat (is_total_out st) + unat (of_nat n :: u64) < 2 ^ 64"
proof -
  have new: "resumable L R ds src out \<lparr> cp_output_offset = oo, cp_input_offset = ds + io, cp_blob = Some blob \<rparr>"
    if "inf_checkpoint L infl = Some (blob, oo, io)" for blob oo io
  proof -
    from that assms(1,3) obtain i' where i': "unat io \<le> length src" "unat oo \<le> op"
      "inf_restore L (inf_new L) blob = (Some (oo, io), i')" "R i' (unat io) (unat oo)"
      unfolding inflater_ok_def by blast
    from assms(2) i'(1) have "unat ds + unat io < 2 ^ 64" by (auto simp: stream_at_def)
    then have "unat (ds + io) = unat ds + unat io" by (rule unat_add64)
    with i' assms(4) show ?thesis by (auto simp: resumable_def resume_at_def)
  qed
  from assms(6) show ?thesis
    by (auto simp: index_step_def assms(5) new split: if_splits option.splits)
qed

lemma index_member_total:
  assumes "inflater_ok L src out R" and "stream_at f ds src"
    and "index_member L f name ds interval caps r st = Some (Ok st')"
    and "driver_at R ds src r ip op" and "unat (is_total_out st) = op" and "op \<le> length out"
    and "\<forall>c \<in> set (is_checkpoints st). resumable L R ds src out c"
  shows "unat (is_total_out st') = length out \<and> (\<forall>c \<in> set (is_checkpoints st'). resumable L R ds src out c)"
proof -
  have ok: "inflate_ok L src out R" using assms(1) by (simp add: inflater_ok_def)
  have chunk: "0 < IO_CHUNK" by (simp add: IO_CHUNK_def)
  have "\<forall>ip op. driver_at R ds src r ip op \<longrightarrow> unat (is_total_out st) = op \<longrightarrow> op \<le> length out \<longrightarrow>
      (\<forall>c \<in> set (is_checkpoints st). resumable L R ds src out c) \<longrightarrow>
      unat (is_total_out st') = length out \<and> (\<forall>c \<in> set (is_checkpoints st'). resumable L R ds src out c)"
    using assms(3)
  proof (induction rule: index_member_induct)
    case (finished r st r')
    show ?case
    proof (intro allI impI)
      fix ip op assume a: "driver_at R ds src r ip op" "unat (is_total_out st) = op" "op \<le> length out"
        "\<forall>c \<in> set (is_checkpoints st). resumable L R ds src out c"
      obtain k r2 ip' where k: "raw_read L f IO_CHUNK r = Some (Ok (take k (drop op out)), r2)"
        "k \<le> length out - op" "k = 0 \<longrightarrow> op = length out"
        by (rule raw_read_ok [OF assms(2) ok chunk a(1)])
      with finished have "take k (drop op out) = []" by simp
      with k(2,3) have "op = length out" by auto
      with a show "unat (is_total_out st) = length out \<and> (\<forall>c \<in> set (is_checkpoints st). resumable L R ds src out c)" by simp
    qed
  next
    case (step r st bs r' st1 st')
    show ?case
    proof (intro allI impI)
      fix ip op assume a: "driver_at R ds src r ip op" "unat (is_total_out st) = op" "op \<le> length out"
        "\<forall>c \<in> set (is_checkpoints st). resumable L R ds src out c"
      obtain k r2 ip' where k: "raw_read L f IO_CHUNK r = Some (Ok (take k (drop op out)), r2)"
        "driver_at R ds src r2 ip' (op + k)" "k \<le> IO_CHUNK" "k \<le> length out - op" "k = 0 \<longrightarrow> op = length out"
        by (rule raw_read_ok [OF assms(2) ok chunk a(1)])
      with step(1) have bs: "bs = take k (drop op out)" "r2 = r'" by simp_all
      then have len: "length bs = k" using k(4) by simp
      have R: "R (ri_inflater r') ip' (op + k)" using k(2) bs(2) by (simp add: driver_at_def)
      have ku: "unat (of_nat k :: u64) = k" using k(3) by (intro unat_of_nat64) (simp add: IO_CHUNK_def)
      have "op + k \<le> length out" using a(3) k(4) by simp
      note within = this
      from index_step_resumable [OF assms(1,2) R this a(4) step(3)] len ku
      have s1: "\<forall>c \<in> set (is_checkpoints st1). resumable L R ds src out c"
        "unat (is_total_out st1) = unat (is_total_out st) + k"
        by (auto simp: unat_add64)
      with step(4) k(2) bs(2) a(2) within show "unat (is_total_out st') = length out \<and> (\<forall>c \<in> set (is_checkpoints st'). resumable L R ds src out c)"
        by auto
    qed
  qed
  with assms(4-7) show ?thesis by blast
qed

lemma partition_point_last:
  assumes "0 < partition_point P xs"
  shows "partition_point P xs - 1 < length xs \<and> P (xs ! (partition_point P xs - 1))"
proof -
  have le: "length (takeWhile P xs) \<le> length xs" by (rule length_takeWhile_le)
  with assms have "takeWhile P xs ! (length (takeWhile P xs) - 1) \<in> set (takeWhile P xs)"
    unfolding partition_point_def by (intro nth_mem) simp
  then have "P (takeWhile P xs ! (length (takeWhile P xs) - 1))" by (rule set_takeWhileD [THEN conjunct2])
  moreover have "length (takeWhile P xs) - 1 < length xs"
    using assms le unfolding partition_point_def by linarith
  ultimately show ?thesis using assms by (simp add: partition_point_def takeWhile_nth)
qed

text \<open>A built index: its shape, and that reading can resume from each of its checkpoints.\<close>

lemma built_index:
  assumes "inflater_ok L src out R" and "stream_at f data_start src" and "unat compressed_size = length src"
    and "build_index_capped L f name data_start compressed_size sz interval caps = Some (Ok ix)"
  shows "unat sz = length out" "ix_uncompressed_size ix = sz"
    "unat (ix_data_end ix) = unat data_start + length src"
    "checkpoints_ok data_start (ix_checkpoints ix)"
    "\<forall>c \<in> set (ix_checkpoints ix). resumable L R data_start src out c"
proof -
  let ?r0 = "RawInflate_new data_start (data_start + compressed_size) (inf_new L)"
  from assms(4) obtain st where st: "index_member L f name data_start (max interval 1) caps ?r0
      (index_start data_start (max interval 1)) = Some (Ok st)" "is_total_out st = sz"
    and ix: "ix = \<lparr> ix_data_end = data_start + compressed_size, ix_uncompressed_size = sz, ix_checkpoints = is_checkpoints st \<rparr>"
    and sum: "unat (data_start + compressed_size) = unat data_start + length src"
    by (auto simp: build_index_capped_def Let_def add64_def unat_add64 assms(3) split: if_splits)
  have R0: "R (inf_new L) 0 0" using assms(1) by (simp add: inflater_ok_def)
  from index_member_total [OF assms(1,2) st(1), of 0 0] R0 sum
  have "unat sz = length out" "\<forall>c \<in> set (is_checkpoints st). resumable L R data_start src out c"
    by (auto simp: driver_at_def RawInflate_new_def index_start_def resumable_def resume_at_def st(2))
  moreover have "checkpoints_ok data_start (is_checkpoints st)"
  proof -
    have "index_inv data_start caps s \<longrightarrow> index_inv data_start caps s'"
      if "index_member L f name data_start (max interval 1) caps r s = Some (Ok s')" for r s s'
      using that by (induction rule: index_member_induct) (auto dest: index_step_inv)
    with st(1) index_inv_start have "index_inv data_start caps st" by blast
    then show ?thesis by (simp add: index_inv_def)
  qed
  ultimately show "unat sz = length out" "ix_uncompressed_size ix = sz"
    "unat (ix_data_end ix) = unat data_start + length src"
    "checkpoints_ok data_start (ix_checkpoints ix)"
    "\<forall>c \<in> set (ix_checkpoints ix). resumable L R data_start src out c"
    by (simp_all add: ix sum)
qed

text \<open>
  C19: A checkpoint index that is built, for whatever inflater, starts with the stream start, has
  strictly increasing output offsets with a saved state at every later one, holds no more bytes of
  saved states than its cap, and its size is that of the entry, within the decoding cap; its
  checkpoint for an offset is therefore never missing. Where the inflater keeps its contract on the
  stream of the entry, every checkpoint stays inside the entry: its output offset is at most the entry's
  size, and its input offset lies between the start and the end of the entry's data.
\<close>

theorem deflate64_index_invariant:
  assumes "build_index_capped L f name data_start compressed_size sz interval caps = Some (Ok ix)"
  shows "checkpoints_ok data_start (ix_checkpoints ix) \<and>
    sum_list (map blob_length (ix_checkpoints ix)) \<le> cap_index_bytes caps \<and>
    ix_uncompressed_size ix = sz \<and> sz \<le> cap_decode caps \<and>
    unat (ix_data_end ix) = unat data_start + unat compressed_size \<and>
    (\<forall>offset. 0 < partition_point (\<lambda>c. cp_output_offset c \<le> offset) (ix_checkpoints ix)) \<and>
    (\<forall>src out R. inflater_ok L src out R \<and> stream_at f data_start src \<and> unat compressed_size = length src \<longrightarrow>
      (\<forall>c \<in> set (ix_checkpoints ix). cp_output_offset c \<le> sz \<and>
        data_start \<le> cp_input_offset c \<and> cp_input_offset c \<le> ix_data_end ix))"
proof -
  from assms obtain st where st: "index_member L f name data_start (max interval 1) caps
      (RawInflate_new data_start (data_start + compressed_size) (inf_new L)) (index_start data_start (max interval 1)) =
      Some (Ok st)" "is_total_out st = sz"
    and ix: "ix = \<lparr> ix_data_end = data_start + compressed_size, ix_uncompressed_size = sz, ix_checkpoints = is_checkpoints st \<rparr>"
    and sum: "unat data_start + unat compressed_size < 2 ^ 64"
    by (auto simp: build_index_capped_def Let_def add64_def split: if_splits)
  have "index_inv data_start caps s \<longrightarrow> index_inv data_start caps s'"
    if "index_member L f name data_start (max interval 1) caps r s = Some (Ok s')" for r s s'
    using that by (induction rule: index_member_induct) (auto dest: index_step_inv)
  from this [OF st(1)] have inv: "index_inv data_start caps st" by (simp add: index_inv_start)
  then have ok: "checkpoints_ok data_start (is_checkpoints st)" by (simp add: index_inv_def)
  then have "0 < partition_point (\<lambda>c. cp_output_offset c \<le> offset) (is_checkpoints st)" for offset
    by (auto simp: checkpoints_ok_def)
  moreover have within: "\<forall>src out R. inflater_ok L src out R \<and> stream_at f data_start src \<and>
      unat compressed_size = length src \<longrightarrow>
      (\<forall>c \<in> set (ix_checkpoints ix). cp_output_offset c \<le> sz \<and>
        data_start \<le> cp_input_offset c \<and> cp_input_offset c \<le> ix_data_end ix)"
  proof (intro allI impI ballI)
    fix src out R c
    assume a: "inflater_ok L src out R \<and> stream_at f data_start src \<and> unat compressed_size = length src"
      and c: "c \<in> set (ix_checkpoints ix)"
    then have a': "inflater_ok L src out R" "stream_at f data_start src" "unat compressed_size = length src" by auto
    from built_index(1,3,5) [OF a' assms] c
    show "cp_output_offset c \<le> sz \<and> data_start \<le> cp_input_offset c \<and> cp_input_offset c \<le> ix_data_end ix"
      by (auto simp: resumable_def word_le_nat_alt)
  qed
  ultimately show ?thesis using inv ok st(2) ix sum
    by (intro conjI) (rule within | simp add: index_inv_def unat_add64)+
qed

text \<open>Resuming from a checkpoint at or before the offset, skipping forward, then filling the buffer.\<close>

lemma resumed_read:
  assumes "inflate_ok L src out R" and "stream_at f data_start src"
    and "unat data_end = unat data_start + length src"
    and "R i ip (unat from)" and "ip \<le> length src" and "unat cin = unat data_start + ip"
    and "from \<le> offset" and "unat offset + want \<le> length out"
  shows "\<exists>r'. skip_forward L f (offset - from) (RawInflate_new cin data_end i) = Some (Ok (), r') \<and>
    fill_buffer L f want [] r' = Some (Ok (take want (drop (unat offset) out)))"
proof -
  let ?r = "RawInflate_new cin data_end i"
  have d: "driver_at R data_start src ?r ip (unat from)"
    using assms(3-6) by (simp add: driver_at_def RawInflate_new_def)
  have sub: "unat (offset - from) = unat offset - unat from" "unat from \<le> unat offset"
    using assms(7) by (simp_all add: unat_sub word_le_nat_alt)
  then have "unat from + unat (offset - from) \<le> length out" using assms(8) by simp
  from skip_forward_ok [OF assms(2,1) d this] sub obtain r' ip' where
    skip: "skip_forward L f (offset - from) ?r = Some (Ok (), r')" "driver_at R data_start src r' ip' (unat offset)"
    by auto
  with fill_buffer_ok [OF assms(2,1) skip(2), of "[]" want] assms(8) show ?thesis by simp
qed

lemma index_slice:
  assumes "inflater_ok L src out R" and "stream_at f data_start src" and "unat compressed_size = length src"
    and "build_index_capped L f name data_start compressed_size sz interval caps = Some (Ok ix)"
  shows "index_read_at L f ix n offset = Some (Ok (take n (drop (unat offset) out)))"
proof (cases "sz \<le> offset \<or> n = 0")
  case True
  with built_index(1,2) [OF assms] show ?thesis by (auto simp: index_read_at_def word_le_nat_alt)
next
  case False
  note built = built_index [OF assms]
  have ok: "inflate_ok L src out R" using assms(1) by (simp add: inflater_ok_def)
  let ?pp = "partition_point (\<lambda>c. cp_output_offset c \<le> offset) (ix_checkpoints ix)"
  let ?cp = "ix_checkpoints ix ! (?pp - 1)"
  have "0 < ?pp" using built(4) by (auto simp: checkpoints_ok_def)
  note ci = this partition_point_last [OF this]
  from ci(2) have le: "cp_output_offset ?cp \<le> offset" and "?cp \<in> set (ix_checkpoints ix)" by auto
  with built(5) obtain i ip where cp: "resume_at L ?cp = Ok (cp_output_offset ?cp, i)"
    "R i ip (unat (cp_output_offset ?cp))" "ip \<le> length src" "unat (cp_input_offset ?cp) = unat data_start + ip"
    by (auto simp: resumable_def)
  have left: "unat (sz - offset) = length out - unat offset" "unat offset < length out"
    using False built(1) by (simp_all add: unat_sub word_le_nat_alt)
  let ?want = "min (unat (sz - offset)) n"
  have "unat offset + ?want \<le> length out" using left by simp
  from resumed_read [OF ok assms(2) built(3) cp(2,3,4) le this] obtain r' where
    r: "skip_forward L f (offset - cp_output_offset ?cp) (RawInflate_new (cp_input_offset ?cp) (ix_data_end ix) i)
      = Some (Ok (), r')" "fill_buffer L f ?want [] r' = Some (Ok (take ?want (drop (unat offset) out)))" by blast
  have "take ?want (drop (unat offset) out) = take n (drop (unat offset) out)"
    using left(1) by (simp add: min_def take_all_iff)
  moreover have "sub64 offset (cp_output_offset ?cp) = (Ok (offset - cp_output_offset ?cp) :: (u64, io_error) outcome)"
    using le by (simp add: sub64_def)
  ultimately show ?thesis
    using False ci(1) cp(1) r built(2) unfolding index_read_at_def Let_def by simp
qed

text \<open>
  C18: For an inflater that keeps its contract on the stream of an entry in the file, an index that is
  built has the length of the decoding as its size, and reading through it any number of bytes at
  any offset returns, and returns exactly that slice of the decoding.
\<close>

theorem deflate64_read_at_slice:
  assumes "inflater_ok L src out R" and "stream_at f data_start src" and "unat compressed_size = length src"
    and "build_index_capped L f name data_start compressed_size sz interval caps = Some (Ok ix)"
  shows "unat sz = length out \<and> index_read_at L f ix n offset = Some (Ok (take n (drop (unat offset) out)))"
  using built_index(1) [OF assms] index_slice [OF assms] by simp

text \<open>Indexing such a stream ends.\<close>

lemma index_step_no_panic:
  assumes "inflater_ok L src out R" and "stream_at f ds src" and "R infl ip op"
    and "unat (is_total_out st) + n \<le> length out" and "length out + unat interval < 2 ^ 64" and "op \<le> length out"
  shows "index_step L name ds interval caps infl n st \<noteq> Panic"
proof -
  have small: "length out < 18446744073709551616" using assms(5) by simp
  then have nu: "unat (of_nat n :: u64) = n" using assms(4) by (intro unat_of_nat64) simp
  then have total: "add64 (is_total_out st) (of_nat n) = (Ok (is_total_out st + of_nat n) :: (u64, zip_core_error) outcome)"
    "unat (is_total_out st + of_nat n) = unat (is_total_out st) + n"
    using assms(4) small by (simp_all add: add64_OkI unat_add64 del: add64_eq_Ok)
  have next1: "add64 (is_total_out st + of_nat n) interval \<noteq> (Panic :: (u64, zip_core_error) outcome)"
    using assms(4,5) total(2) by (simp add: add64_Panic_iff)
  have cp: "add64 ds io \<noteq> (Panic :: (u64, zip_core_error) outcome)"
      "add64 (max oo (is_total_out st + of_nat n)) interval \<noteq> (Panic :: (u64, zip_core_error) outcome)"
    if "inf_checkpoint L infl = Some (blob, oo, io)" for blob oo io
  proof -
    from that assms(1,3) have "unat oo \<le> op" "unat io \<le> length src" unfolding inflater_ok_def by blast+
    then show "add64 ds io \<noteq> (Panic :: (u64, zip_core_error) outcome)"
      "add64 (max oo (is_total_out st + of_nat n)) interval \<noteq> (Panic :: (u64, zip_core_error) outcome)"
      using assms(2,4-6) total(2) by (auto simp: add64_Panic_iff stream_at_def max_def)
  qed
  show ?thesis
    using next1 cp by (auto simp: index_step_def total(1) and_then_eq_Panic split: option.splits)
qed

lemma index_member_terminates:
  assumes "inflater_ok L src out R" and "stream_at f data_start src" and "length out + unat interval < 2 ^ 64"
    and "driver_at R data_start src r ip op" and "unat (is_total_out st) = op" and "op \<le> length out"
  shows "\<exists>v. index_member L f name data_start interval caps r st = Some v \<and> v \<noteq> Panic"
  using assms(4-6)
proof (induction "length out - op" arbitrary: r ip op st rule: less_induct)
  case less
  have ok: "inflate_ok L src out R" using assms(1) by (simp add: inflater_ok_def)
  have chunk: "0 < IO_CHUNK" by (simp add: IO_CHUNK_def)
  note step = index_member.simps [of L f name data_start interval caps r st]
  obtain k r' ip' where k: "raw_read L f IO_CHUNK r = Some (Ok (take k (drop op out)), r')"
    "driver_at R data_start src r' ip' (op + k)" "k \<le> IO_CHUNK" "k \<le> length out - op"
    by (rule raw_read_ok [OF assms(2) ok chunk less.prems(1)])
  show ?case
  proof (cases "take k (drop op out) = []")
    case True
    with k(1) show ?thesis unfolding step by simp
  next
    case False
    have len: "length (take k (drop op out)) = k" using k(4) by simp
    with False have k0: "0 < k" by auto
    have R: "R (ri_inflater r') ip' (op + k)" using k(2) by (simp add: driver_at_def)
    let ?s = "index_step L name data_start interval caps (ri_inflater r') k st"
    have np: "?s \<noteq> Panic"
      using less.prems k(4) assms(3) by (intro index_step_no_panic [OF assms(1,2) R]) simp_all
    have ku: "unat (of_nat k :: u64) = k" using k(3) by (intro unat_of_nat64) (simp add: IO_CHUNK_def)
    show ?thesis
    proof (cases ?s)
      case (Ok st1)
      have "is_total_out st1 = is_total_out st + of_nat k"
        "unat (is_total_out st) + unat (of_nat k :: u64) < 2 ^ 64"
        using Ok by (auto simp: index_step_def split: if_splits option.splits)
      then have "unat (is_total_out st1) = op + k" using ku less.prems(2) by (simp add: unat_add64)
      moreover have "length out - (op + k) < length out - op" "op + k \<le> length out"
        using k(4) k0 less.prems(3) by simp_all
      ultimately obtain v where "index_member L f name data_start interval caps r' st1 = Some v" "v \<noteq> Panic"
        using less.hyps [OF _ k(2)] by blast
      with False k(1) Ok len show ?thesis unfolding step by simp
    next
      case (Err e)
      with False k(1) len show ?thesis unfolding step by simp
    qed (use np in simp)
  qed
qed

text \<open>
  C20: Building the index of an entry whose stream is in the file ends without a panic, in an index or
  an error, for any inflater that keeps its contract on the stream, any interval and any caps.
\<close>

theorem deflate64_index_terminates:
  assumes "inflater_ok L src out R" and "stream_at f data_start src" and "unat compressed_size = length src"
    and "length out + unat (max interval 1) < 2 ^ 64"
  shows "\<exists>v. build_index_capped L f name data_start compressed_size sz interval caps = Some v \<and> v \<noteq> Panic"
proof -
  have R0: "R (inf_new L) 0 0" using assms(1) by (simp add: inflater_ok_def)
  let ?i = "max interval 1"
  have sum: "unat data_start + unat compressed_size < 2 ^ 64"
    using assms(2,3) by (auto simp: stream_at_def)
  then have "driver_at R data_start src (RawInflate_new data_start (data_start + compressed_size) (inf_new L)) 0 0"
    using R0 assms(3) by (simp add: driver_at_def RawInflate_new_def unat_add64)
  from index_member_terminates [where st = "index_start data_start ?i", OF assms(1,2,4) this] obtain v where
    "index_member L f name data_start ?i caps (RawInflate_new data_start (data_start + compressed_size) (inf_new L))
      (index_start data_start ?i) = Some v" "v \<noteq> Panic"
    by (auto simp: index_start_def)
  moreover have "add64 data_start compressed_size = (Ok (data_start + compressed_size) :: (u64, zip_core_error) outcome)"
    using sum by (rule add64_OkI)
  ultimately show ?thesis
    by (simp add: build_index_capped_def Let_def and_then_eq_Panic del: add64_eq_Ok)
qed

section \<open>A concrete inflater\<close>

text \<open>
  One for streams of three bytes that it passes through; its state is the number of bytes it still
  expects, which is also its saved state.
\<close>

definition copy_inflater :: "nat inflater" where
  "copy_inflater = \<lparr> inf_new = 3,
     inf_inflate = (\<lambda>i input n. let w = take n (take i input) in
       (\<lparr> ir_error = False, ir_consumed = length w, ir_written = w \<rparr>, i - length w)),
     inf_finished = (\<lambda>i. i = 0),
     inf_checkpoint = (\<lambda>i. Some ([of_nat i], of_nat (3 - i), of_nat (3 - i))),
     inf_restore = (\<lambda>_ b. (Some (3 - ucast (b ! 0), 3 - ucast (b ! 0)), unat (b ! 0))) \<rparr>"

definition copy_at :: "nat \<Rightarrow> usize \<Rightarrow> usize \<Rightarrow> bool" where
  "copy_at i ip op \<longleftrightarrow> ip = op \<and> ip \<le> 3 \<and> i = 3 - ip"

lemma copy_inflate_ok: "length src = 3 \<Longrightarrow> inflate_ok copy_inflater src src copy_at"
  by (auto simp: inflate_ok_def copy_inflater_def copy_at_def Let_def min_def)

lemma copy_inflater_ok: "length src = 3 \<Longrightarrow> inflater_ok copy_inflater src src copy_at"
proof -
  assume len: "length src = 3"
  have "unat oo \<le> op \<and> unat io \<le> length src \<and>
      (\<exists>i'. inf_restore copy_inflater (inf_new copy_inflater) blob = (Some (oo, io), i') \<and> copy_at i' (unat io) (unat oo))"
    if "copy_at i ip op" "inf_checkpoint copy_inflater i = Some (blob, oo, io)" for i ip op blob oo io
  proof -
    from that(1) have "ip = op" "op = 0 \<and> i = 3 \<or> op = 1 \<and> i = 2 \<or> op = 2 \<and> i = 1 \<or> op = 3 \<and> i = 0"
      by (auto simp: copy_at_def)
    with that(2) len show ?thesis by (elim disjE conjE; clarsimp simp: copy_inflater_def copy_at_def)
  qed
  moreover have "copy_at (inf_new copy_inflater) 0 0" by (simp add: copy_inflater_def copy_at_def)
  ultimately show ?thesis using copy_inflate_ok [OF len] unfolding inflater_ok_def by blast
qed

lemma sample_stream: "stream_at [9, 1, 2, 3, 7] 1 [1, 2, 3]"
  by (auto simp: stream_at_def)

theorem deflate64_index_terminates_witness:
  "\<exists>v. build_index_capped copy_inflater [9, 1, 2, 3, 7] [] 1 3 3 2 caps_default = Some v \<and> v \<noteq> Panic"
  using deflate64_index_terminates [OF copy_inflater_ok sample_stream, where compressed_size = 3 and interval = 2]
  by simp

lemma sample_index:
  "\<exists>ix. build_index_capped copy_inflater [9, 1, 2, 3, 7] [] 1 3 3 2 caps_default = Some (Ok ix)"
proof -
  have chunk: "IO_CHUNK = 131072" by (simp add: IO_CHUNK_def)
  have r1: "raw_read copy_inflater [9, 1, 2, 3, 7] IO_CHUNK (RawInflate_new 1 4 3) =
      Some (Ok [1, 2, 3], \<lparr> ri_pos = 4, ri_end = 4, ri_inflater = 0, ri_pending = [] \<rparr>)"
    by (simp add: raw_read_def chunk raw_read_loop.simps refill_def RawInflate_new_def sub64_def Let_def
        pread_exact_def copy_inflater_def min_def)
  have r2: "raw_read copy_inflater [9, 1, 2, 3, 7] IO_CHUNK \<lparr> ri_pos = 4, ri_end = 4, ri_inflater = 0, ri_pending = [] \<rparr> =
      Some (Ok [], \<lparr> ri_pos = 4, ri_end = 4, ri_inflater = 0, ri_pending = [] \<rparr>)"
    by (simp add: raw_read_def chunk raw_read_loop.simps refill_def sub64_def Let_def copy_inflater_def)
  obtain st where st: "index_step copy_inflater [] 1 2 caps_default 0 3 (index_start 1 2) = Ok st" "is_total_out st = 3"
    by (simp add: index_step_def index_start_def caps_default_def MAX_DECODE_def MAX_INDEX_BYTES_def
        copy_inflater_def add64_def max_def)
  have "index_member copy_inflater [9, 1, 2, 3, 7] [] 1 2 caps_default (RawInflate_new 1 4 3) (index_start 1 2) = Some (Ok st)"
    by (subst index_member.simps) (simp add: r1 st(1) [unfolded numeral_3_eq_3] index_member.simps [of _ _ _ _ _ _ _ st] r2)
  moreover have "max (2 :: u64) 1 = 2" "inf_new copy_inflater = 3"
    by (simp_all add: max_def word_le_nat_alt copy_inflater_def)
  ultimately show ?thesis using st(2)
    by (simp add: build_index_capped_def add64_def Let_def)
qed

theorem deflate64_index_invariant_witness:
  "\<exists>ix. build_index_capped copy_inflater [9, 1, 2, 3, 7] [] 1 3 3 2 caps_default = Some (Ok ix) \<and>
    checkpoints_ok 1 (ix_checkpoints ix) \<and> (\<forall>c \<in> set (ix_checkpoints ix). cp_input_offset c \<le> 4)"
proof -
  from sample_index obtain ix where
    ix: "build_index_capped copy_inflater [9, 1, 2, 3, 7] [] 1 3 3 2 caps_default = Some (Ok ix)" by blast
  note i = deflate64_index_invariant [OF ix]
  have "inflater_ok copy_inflater [1, 2, 3] [1, 2, 3] copy_at" by (rule copy_inflater_ok) simp
  with i sample_stream have "\<forall>c \<in> set (ix_checkpoints ix). cp_input_offset c \<le> ix_data_end ix" by fastforce
  moreover from i have "unat (ix_data_end ix) = 4" by simp
  ultimately have "\<forall>c \<in> set (ix_checkpoints ix). cp_input_offset c \<le> 4" by (simp add: word_le_nat_alt)
  with ix i show ?thesis by blast
qed

theorem deflate64_read_at_slice_witness:
  "\<exists>ix. build_index_capped copy_inflater [9, 1, 2, 3, 7] [] 1 3 3 2 caps_default = Some (Ok ix) \<and>
    index_read_at copy_inflater [9, 1, 2, 3, 7] ix 5 1 = Some (Ok [2, 3])"
proof -
  from sample_index obtain ix where
    ix: "build_index_capped copy_inflater [9, 1, 2, 3, 7] [] 1 3 3 2 caps_default = Some (Ok ix)" by blast
  from deflate64_read_at_slice [OF copy_inflater_ok sample_stream _ ix, where n = 5 and offset = 1] ix
  show ?thesis by simp
qed

end
