(* ===== verification/StoredEntry.thy ===== *)
theory StoredEntry
  imports Extract Deflate64Props
begin

text \<open>
  Random access to one entry, from \<open>core/src/lib.rs\<close>: \<open>open_entry\<close> chooses how the entry is
  addressed (stored blocks, Deflate64 checkpoints, or full decoding), \<open>StoredZipEntry::read_at\<close>
  reads through that layout. The files named by paths are a parameter \<open>fs\<close>: what opening a path
  gives, with the contents of the file.
\<close>

section \<open>The entry\<close>

datatype layout =
    StoredBlocks "stored_block list"
  | Deflate64Layout deflate64_index
  | Fallback (fb_path: rstring) (fb_name: rstring)

record stored_zip_entry =
  se_file :: "u8 list"
  se_uncompressed_size :: u64
  se_layout :: layout

definition se_len :: "stored_zip_entry \<Rightarrow> u64" where
  "se_len e = se_uncompressed_size e"

definition se_is_empty :: "stored_zip_entry \<Rightarrow> bool" where
  "se_is_empty e \<longleftrightarrow> se_uncompressed_size e = 0"

fun is_stored_block_layout :: "layout \<Rightarrow> bool" where
  "is_stored_block_layout (StoredBlocks bs) = True"
| "is_stored_block_layout _ = False"

definition is_stored_block_indexed :: "stored_zip_entry \<Rightarrow> bool" where
  "is_stored_block_indexed e = is_stored_block_layout (se_layout e)"

fun layout_block_count :: "layout \<Rightarrow> usize" where
  "layout_block_count (StoredBlocks b) = length b"
| "layout_block_count (Deflate64Layout ix) = 0"
| "layout_block_count (Fallback path name) = 0"

fun is_deflate64_layout :: "layout \<Rightarrow> bool" where
  "is_deflate64_layout (Deflate64Layout ix) = True"
| "is_deflate64_layout _ = False"

fun layout_checkpoint_count :: "layout \<Rightarrow> usize" where
  "layout_checkpoint_count (Deflate64Layout ix) = checkpoint_count ix"
| "layout_checkpoint_count (StoredBlocks b) = 0"
| "layout_checkpoint_count (Fallback path name) = 0"

section \<open>Reading\<close>

text \<open>\<open>Vec::with_capacity\<close> refuses, by a panic, more than \<open>isize::MAX\<close> bytes.\<close>

definition fallback_read ::
  "('h, 'c, 'm, 'd, 'x) externals \<Rightarrow> (rstring \<Rightarrow> (u8 list, io_error) outcome) \<Rightarrow> rstring \<Rightarrow> rstring
     \<Rightarrow> u64 \<Rightarrow> u64 \<Rightarrow> usize \<Rightarrow> (u8 list, io_error) outcome option" where
  "fallback_read E fs path name sz offset total_len =
     bind_opt (fs path) (\<lambda>contents.
     bind_opt (map_err IoOther (ZipArchive_new (cursor_new contents))) (\<lambda>archive.
     case by_name E archive name of
       None \<Rightarrow> None
     | Some opened \<Rightarrow>
         bind_opt (map_err IoOther opened) (\<lambda>entry.
           if 2 ^ 63 \<le> unat sz then Some Panic
           else map_option (\<lambda>v. and_then v (\<lambda>all.
               slice all (unat offset) (min (unat offset + total_len) (length all))))
             (read_entry E entry))))"

definition entry_read_at ::
  "('h, 'c, 'm, 'd, 'x) externals \<Rightarrow> ('i, 'z) inflater_scheme \<Rightarrow> (rstring \<Rightarrow> (u8 list, io_error) outcome)
     \<Rightarrow> stored_zip_entry \<Rightarrow> usize \<Rightarrow> u64 \<Rightarrow> (u8 list, io_error) outcome option" where
  "entry_read_at E I fs e buf_len offset =
     (if se_uncompressed_size e \<le> offset \<or> buf_len = 0 then Some (Ok [])
      else bind_opt (add64 offset (of_nat buf_len)) (\<lambda>past.
        let want_end = min past (se_uncompressed_size e); total_len = unat (want_end - offset) in
        (case se_layout e of
           StoredBlocks blocks \<Rightarrow> Some (read_blocks (se_file e) blocks buf_len want_end offset [])
         | Deflate64Layout ix \<Rightarrow> index_read_at I (se_file e) ix buf_len offset
         | Fallback path name \<Rightarrow> fallback_read E fs path name (se_uncompressed_size e) offset total_len)))"

section \<open>Opening\<close>

definition choose_layout ::
  "('i, 'z) inflater_scheme \<Rightarrow> u8 list \<Rightarrow> rstring \<Rightarrow> rstring \<Rightarrow> compression_method \<Rightarrow> u64 \<Rightarrow> u64 \<Rightarrow> u64
     \<Rightarrow> (layout, zip_core_error) outcome option" where
  "choose_layout I contents path name meth data_start compressed_size uncompressed_size =
     (if meth = Stored then
        Some (Ok (StoredBlocks
          [\<lparr> sb_uncomp_start = 0, sb_len = uncompressed_size, sb_file_offset = data_start \<rparr>]))
      else if meth = Deflated then
        Some (and_then (index_stored_blocks contents name data_start compressed_size uncompressed_size)
          (\<lambda>ix. case ix of Some blocks \<Rightarrow> Ok (StoredBlocks blocks) | None \<Rightarrow> Ok (Fallback path name)))
      else if meth = Deflate64 then
        bind_opt (index_stored_blocks contents name data_start compressed_size uncompressed_size)
          (\<lambda>ix. case ix of
             Some blocks \<Rightarrow> Some (Ok (StoredBlocks blocks))
           | None \<Rightarrow> map_option (\<lambda>v. and_then v (\<lambda>index. Ok (Deflate64Layout index)))
               (build_index I contents name data_start compressed_size uncompressed_size
                  DEFAULT_CHECKPOINT_INTERVAL))
      else Some (Ok (Fallback path name)))"

definition open_entry ::
  "('h, 'c, 'm, 'd, 'x) externals \<Rightarrow> ('i, 'z) inflater_scheme \<Rightarrow> (rstring \<Rightarrow> (u8 list, io_error) outcome)
     \<Rightarrow> rstring \<Rightarrow> rstring \<Rightarrow> (stored_zip_entry, zip_core_error) outcome option" where
  "open_entry E I fs path name =
     bind_opt (map_err Io (fs path)) (\<lambda>contents.
     bind_opt (map_err Io (fs path)) (\<lambda>contents'.
     bind_opt (ZipArchive_new (cursor_new contents')) (\<lambda>archive.
     case by_name E archive name of
       None \<Rightarrow> None
     | Some opened \<Rightarrow>
         bind_opt opened (\<lambda>entry.
           map_option (\<lambda>v. and_then v (\<lambda>layout.
               Ok \<lparr> se_file = contents, se_uncompressed_size = zf_size entry, se_layout = layout \<rparr>))
             (choose_layout I contents path name (zf_compression entry) (zf_data_start entry)
               (zf_compressed_size entry) (zf_size entry))))))"

section \<open>Properties\<close>

lemma entry_read_at_blocks:
  "se_layout e = StoredBlocks blocks \<Longrightarrow>
     entry_read_at E I fs e n offset = Some (stored_read_at (se_file e) (se_uncompressed_size e) blocks n offset)"
  by (cases "add64 offset (of_nat n) :: (u64, io_error) outcome")
    (auto simp: entry_read_at_def stored_read_at_def Let_def simp del: add64_eq_Ok)

lemma read_blocks_done: "read_blocks f blocks n want_end want_end filled = Ok filled"
  by (simp add: read_blocks.simps)

lemma read_single_block:
  assumes "offset < want_end" and "want_end \<le> sz" and "unat (want_end - offset) \<le> n"
  shows "read_blocks f [\<lparr> sb_uncomp_start = 0, sb_len = sz, sb_file_offset = ds \<rparr>] n want_end offset [] =
    and_then (add64 ds offset) (\<lambda>off. pread_exact f (unat (want_end - offset)) off)"
proof -
  have lt: "offset < sz" using assms(1,2) by simp
  then have found: "nth_opt [\<lparr> sb_uncomp_start = 0, sb_len = sz, sb_file_offset = ds \<rparr>] (partition_point
      (\<lambda>b. unat (sb_uncomp_start b) + unat (sb_len b) \<le> unat offset)
      [\<lparr> sb_uncomp_start = 0, sb_len = sz, sb_file_offset = ds \<rparr>]) = Some \<lparr> sb_uncomp_start = 0, sb_len = sz, sb_file_offset = ds \<rparr>"
    by (simp add: word_less_nat_alt)
  have within: "sub64 offset 0 = (Ok offset :: (u64, io_error) outcome)"
    "sub64 sz offset = (Ok (sz - offset) :: (u64, io_error) outcome)"
    using lt by (simp_all add: sub64_def)
  have "unat (want_end - offset) \<le> unat (sz - offset)"
    using assms(1,2) lt by (simp add: unat_sub word_le_nat_alt word_less_nat_alt)
  then have rest: "min (sz - offset) (want_end - offset) = want_end - offset"
    by (simp add: min_absorb2 word_le_nat_alt)
  have right: "and_then v Ok = v" for v :: "(u8 list, io_error) outcome" by (cases v) simp_all
  have "\<not> unat sz \<le> unat offset" using lt by (simp add: word_less_nat_alt)
  then show ?thesis
    by (subst read_blocks.simps)
      (use assms(1,3) in \<open>simp add: found within rest Let_def read_blocks_done right\<close>)
qed

text \<open>A block for all of the entry, read at an offset inside it.\<close>

lemma one_block_read:
  assumes "n < 2 ^ 63" and inside: "\<not> (sz \<le> offset \<or> n = 0)"
  shows "stored_read_at contents sz [\<lparr> sb_uncomp_start = 0, sb_len = sz, sb_file_offset = start \<rparr>] n offset =
    (let at = unat start + unat offset; k = min n (unat sz - unat offset)
     in if 2 ^ 64 \<le> unat offset + n \<or> 2 ^ 64 \<le> at then Panic
        else if at + k \<le> length contents then Ok (take k (drop at contents)) else Err eof_error)"
proof -
  let ?b = "\<lparr> sb_uncomp_start = 0, sb_len = sz, sb_file_offset = start \<rparr>"
  let ?k = "min n (unat sz - unat offset)" and ?start = "unat start + unat offset"
  have nu: "unat (of_nat n :: u64) = n" using assms(1) by (simp add: unat_of_nat64)
  have some: "?k \<noteq> 0" using inside by (auto simp: word_le_nat_alt min_def)
  have "stored_read_at contents sz [?b] n offset =
      (if 2 ^ 64 \<le> unat offset + n \<or> 2 ^ 64 \<le> ?start then Panic
       else if ?start + ?k \<le> length contents then Ok (take ?k (drop ?start contents)) else Err eof_error)"
  proof (cases "2 ^ 64 \<le> unat offset + n")
    case True
    then have "add64 offset (of_nat n) = (Panic :: (u64, io_error) outcome)" by (simp add: add64_Panic_iff nu)
    with True inside show ?thesis by (simp add: stored_read_at_def)
  next
    case no_wrap: False
    let ?lim = "min (offset + of_nat n) (sz)"
    have past: "add64 offset (of_nat n) = (Ok (offset + of_nat n) :: (u64, io_error) outcome)"
      "unat (offset + of_nat n) = unat offset + n"
      using no_wrap by (simp_all add: nu add64_OkI unat_add64 del: add64_eq_Ok)
    have m: "unat ?lim = min (unat offset + n) (unat (sz))"
      using past(2) by (auto simp: min_def word_le_nat_alt)
    have lt: "offset < ?lim" unfolding word_less_nat_alt m using inside by (auto simp: word_le_nat_alt)
    have "unat (?lim - offset) = unat ?lim - unat offset"
      by (rule unat_sub) (rule order.strict_implies_order [OF lt])
    also have "\<dots> = ?k" unfolding m by (auto simp: min_def)
    finally have len: "unat (?lim - offset) = ?k" .
    have "stored_read_at contents (sz) [?b] n offset = read_blocks contents [?b] n ?lim offset []"
      using inside by (simp add: stored_read_at_def past(1))
    also have "\<dots> = and_then (add64 (start) offset) (\<lambda>off. pread_exact contents ?k off)"
      using read_single_block [OF lt, of "sz" n] by (simp add: len)
    also have "\<dots> = (if 2 ^ 64 \<le> ?start then Panic
        else if ?start + ?k \<le> length contents then Ok (take ?k (drop ?start contents)) else Err eof_error)"
    proof (cases "2 ^ 64 \<le> ?start")
      case True
      then have "add64 (start) offset = (Panic :: (u64, io_error) outcome)" by (simp add: add64_Panic_iff)
      with True show ?thesis by simp
    next
      case lt: False
      then have "add64 (start) offset = (Ok (start + offset) :: (u64, io_error) outcome)"
        and "unat (start + offset) = ?start"
        by (simp_all add: add64_OkI unat_add64 del: add64_eq_Ok)
      moreover have "pread_exact contents ?k off = (if unat off + ?k \<le> length contents
          then Ok (take ?k (drop (unat off) contents)) else Err eof_error)" for off
        unfolding pread_exact_def using some by (simp only: simp_thms)
      ultimately show ?thesis using lt by (simp del: add64_eq_Ok)
    qed
    finally show ?thesis using no_wrap by simp
  qed
  then show ?thesis by (simp add: Let_def)
qed

text \<open>
  C36: Opening a stored entry always succeeds once the archive yields the entry, and a read from it with any
  buffer a caller can have, at any offset, is determined: nothing at or past the declared end, a panic when
  the offset plus the length of the buffer, or plus the data start, overflows 64 bits (although the read
  would be cut at the entry's end), the bytes of the file where they exist, and an error where they do not.
\<close>

theorem stored_entry_read:
  assumes "fs path = Ok contents" and "ZipArchive_new (cursor_new contents) = Ok archive"
    and "by_name E archive name = Some (Ok f)" and "zf_compression f = Stored" and "n < 2 ^ 63"
  shows "\<exists>e. open_entry E I fs path name = Some (Ok e) \<and> se_len e = zf_size f \<and>
    (let r = entry_read_at E I fs e n offset;
         start = unat (zf_data_start f) + unat offset;
         k = min n (unat (zf_size f) - unat offset)
     in if k = 0 then r = Some (Ok [])
        else if 2 ^ 64 \<le> unat offset + n \<or> 2 ^ 64 \<le> start then r = Some Panic
        else if start + k \<le> length contents then r = Some (Ok (take k (drop start contents)))
        else \<exists>err. r = Some (Err err))"
proof -
  let ?b = "\<lparr> sb_uncomp_start = 0, sb_len = zf_size f, sb_file_offset = zf_data_start f \<rparr>"
  let ?e = "\<lparr> se_file = contents, se_uncompressed_size = zf_size f, se_layout = StoredBlocks [?b] \<rparr>"
  have o: "open_entry E I fs path name = Some (Ok ?e)"
    using assms(1-4) by (simp add: open_entry_def choose_layout_def)
  have read: "entry_read_at E I fs ?e n offset = Some (stored_read_at contents (zf_size f) [?b] n offset)"
    by (simp add: entry_read_at_blocks)
  show ?thesis
  proof (cases "min n (unat (zf_size f) - unat offset) = 0")
    case True
    then have "zf_size f \<le> offset \<or> n = 0" by (auto simp: word_le_nat_alt min_def split: if_splits)
    with True o show ?thesis by (auto simp: read stored_read_at_def se_len_def)
  next
    case False
    then have "\<not> (zf_size f \<le> offset \<or> n = 0)" by (auto simp: word_le_nat_alt)
    from one_block_read [OF assms(5) this, of contents "zf_data_start f"] o False show ?thesis
      by (intro exI [of _ ?e]) (simp add: read se_len_def Let_def)
  qed
qed

text \<open>
  Opening a stored entry always succeeds once the archive yields the entry, and a read returns the
  bytes of the archive from the entry's data start on, up to the declared uncompressed size: the
  compressed size, which says how much data the entry has, plays no part, so a larger declared size
  returns bytes that do not belong to the entry.
\<close>

theorem stored_entry_window:
  assumes "fs path = Ok contents" and "ZipArchive_new (cursor_new contents) = Ok archive"
    and "by_name E archive name = Some (Ok f)" and "zf_compression f = Stored"
    and "unat (zf_data_start f) + unat (zf_size f) \<le> length contents" and "length contents < 2 ^ 64"
    and "unat offset + n < 2 ^ 64"
  shows "\<exists>e. open_entry E I fs path name = Some (Ok e) \<and> se_len e = zf_size f \<and> is_stored_block_indexed e \<and>
    entry_read_at E I fs e n offset =
      Some (Ok (take n (drop (unat offset) (take (unat (zf_size f)) (drop (unat (zf_data_start f)) contents)))))"
proof -
  let ?b = "\<lparr> sb_uncomp_start = 0, sb_len = zf_size f, sb_file_offset = zf_data_start f \<rparr>"
  let ?e = "\<lparr> se_file = contents, se_uncompressed_size = zf_size f, se_layout = StoredBlocks [?b] \<rparr>"
  have o: "open_entry E I fs path name = Some (Ok ?e)"
    using assms(1-4) by (simp add: open_entry_def choose_layout_def)
  have "blocks_from (length contents) 0 [?b] (unat (zf_size f))" using assms(5) by simp
  from stored_read_at_slice [OF this assms(6,7)]
  have "entry_read_at E I fs ?e n offset = Some (Ok (take n (drop (unat offset) (blocks_content contents [?b]))))"
    by (simp add: entry_read_at_blocks)
  then show ?thesis
    using o by (simp add: blocks_content_def block_bytes_def se_len_def is_stored_block_indexed_def)
qed

lemma fallback_slice:
  assumes "se_layout e = Fallback path name" and "fs path = Ok contents"
    and "ZipArchive_new (cursor_new contents) = Ok archive" and "by_name E archive name = Some (Ok f)"
    and "read_entry E f = Some (Ok all)" and "offset < se_uncompressed_size e" and "0 < n"
    and "unat offset + n < 2 ^ 64"
  shows "entry_read_at E I fs e n offset = Some (
    if 2 ^ 63 \<le> unat (se_uncompressed_size e) \<or> length all < unat offset then Panic
    else Ok (take (min n (unat (se_uncompressed_size e) - unat offset)) (drop (unat offset) all)))"
proof -
  have nu: "unat (of_nat n :: u64) = n" using assms(8) by (simp add: unat_of_nat64)
  then have past: "add64 offset (of_nat n) = (Ok (offset + of_nat n) :: (u64, io_error) outcome)"
    "unat (offset + of_nat n) = unat offset + n"
    using assms(8) by (simp_all add: add64_OkI unat_add64 del: add64_eq_Ok)
  let ?m = "min (offset + of_nat n) (se_uncompressed_size e)"
  have m: "unat ?m = min (unat offset + n) (unat (se_uncompressed_size e))"
    using past(2) by (auto simp: min_def word_le_nat_alt)
  have lt: "unat offset < unat (se_uncompressed_size e)" using assms(6) by (simp add: word_less_nat_alt)
  have "offset \<le> ?m" unfolding word_le_nat_alt m using lt by simp
  then have t: "unat (?m - offset) = min n (unat (se_uncompressed_size e) - unat offset)"
    unfolding unat_sub [OF \<open>offset \<le> ?m\<close>] m using lt
    by (cases "unat offset + n \<le> unat (se_uncompressed_size e)") simp_all
  have "entry_read_at E I fs e n offset =
      fallback_read E fs path name (se_uncompressed_size e) offset (unat (?m - offset))"
    using assms(1,7) linorder_not_le [THEN iffD2, OF assms(6)] by (simp add: entry_read_at_def past(1) Let_def)
  also have "\<dots> = Some (if 2 ^ 63 \<le> unat (se_uncompressed_size e) then Panic
      else slice all (unat offset) (min (unat offset + unat (?m - offset)) (length all)))"
    using assms(2-5) by (simp add: fallback_read_def)
  also have "(slice all (unat offset) (min (unat offset + unat (?m - offset)) (length all)) :: (u8 list, io_error) outcome) =
      (if length all < unat offset then Panic else Ok (take (unat (?m - offset)) (drop (unat offset) all)))"
    by (auto simp: slice_def slice_get_def min_def)
  finally show ?thesis unfolding t by auto
qed

text \<open>
  C37: Through the fallback layout a read decodes the whole entry: it panics when the declared size
  does not fit an allocation or when the offset lies past what was decoded, though it is below the
  declared size; otherwise it returns the slice of the decoded bytes.
\<close>

theorem fallback_read_at:
  assumes "se_layout e = Fallback path name" and "fs path = Ok contents"
    and "ZipArchive_new (cursor_new contents) = Ok archive" and "by_name E archive name = Some (Ok f)"
    and "read_entry E f = Some (Ok all)" and "offset < se_uncompressed_size e" and "0 < n"
    and "unat offset + n < 2 ^ 64"
  shows "entry_read_at E I fs e n offset = Some (
    if 2 ^ 63 \<le> unat (se_uncompressed_size e) \<or> length all < unat offset then Panic
    else Ok (take (min n (unat (se_uncompressed_size e) - unat offset)) (drop (unat offset) all)))"
  using assms by (rule fallback_slice)

section \<open>Concrete entries\<close>

text \<open>The sample archive under another header for its entry.\<close>

abbreviation sample_body :: "u8 list" where
  "sample_body \<equiv> [] @ encode_local extract_local @ [0xFF] @ []"

lemma sample_entry_opens:
  assumes "archive_ok [1] sample_body [h] []" and "entries_of [h] = Ok [e]"
    and "ce_lfh_offset e = 0" and "ce_compressed_size e = 1" and "ce_crc32 e = 0xFF000000"
    and "ce_method e = Stored" and "ce_flags e = 0" and "ce_disk_start e = 0" and "ce_name e = [97, 46, 98]"
    and "length (encode_archive [1] sample_body [h] []) < 2 ^ 63"
  shows "\<exists>archive f. ZipArchive_new (cursor_new (encode_archive [1] sample_body [h] [])) = Ok archive \<and>
    by_name sample_externals archive [97, 46, 98] = Some (Ok f) \<and>
    zf_compression f = Stored \<and> zf_size f = ce_uncompressed_size e \<and> zf_compressed_size f = 1 \<and>
    unat (zf_data_start f) = 34 \<and> read_entry sample_externals f = Some (Ok [0xFF])"
proof -
  let ?F = "encode_archive [1] sample_body [h] []" and ?e = "e\<lparr>ce_lfh_offset := 1\<rparr>"
  from open_encoded [OF assms(1,2)] obtain c' where c': "cu_data c' = ?F"
    "ZipArchive_new (cursor_new ?F) = and_then (shift_entries 1 [e]) (\<lambda>es'.
      Ok \<lparr> za_reader = c', za_entries = es', za_summary = summary_of [1] sample_body [h] [] \<rparr>)"
    by auto
  with sample_shift [OF assms(3)] have opened: "ZipArchive_new (cursor_new ?F) =
      Ok \<lparr> za_reader = c', za_entries = [?e], za_summary = summary_of [1] sample_body [h] [] \<rparr>" (is "_ = Ok ?z")
    by simp
  let ?rest = "[0xFF] @ directory [h] @ archive_eocd sample_body [h] []"
  have "cu_data c' = [1] @ encode_local extract_local @ ?rest" "length (cu_data c') < 2 ^ 63"
    using assms(10) by (simp_all add: c'(1)) (simp add: encode_archive_def)
  from read_lfh_encoded [OF _ this] obtain ds c'' where
    rd: "read_lfh_fields 1 c' = (Ok (local_fields extract_local, ds), c'')" "drop (unat ds) (cu_data c') = ?rest" "cu_data c'' = cu_data c'"
    by (auto simp: local_ok_def extract_local_def)
  have "length ?F = 34 + length ?rest" by (simp add: encode_archive_def extract_local_def)
  then have ds: "unat ds = 34"
    using arg_cong [OF rd(2), of length] by (simp add: c'(1))
  have data: "entry_data ?e c' = Ok (ds, take_new (c''\<lparr>cu_pos := unat ds\<rparr>) 1)"
    by (simp add: entry_data_def rd(1) seek_start_def assms(4))
  have one: "on_one_disk ?z ?e" by (simp add: on_one_disk_def assms(8) summary_of_def)
  let ?t = "take_new (c''\<lparr>cu_pos := unat ds\<rparr>) 1" and ?verdict = "crc_verdict sample_externals ?e True [0xFF]"
  have opened_f: "by_name sample_externals ?z [97, 46, 98] =
      Some (Ok (fresh_file sample_externals ?e ds True (StoredDecoder (BoxTake ?t))))"
    using data check_local_disk_one [OF one]
    by (simp add: by_name_def entry_named_def assms(6-9) archive_open_def has_bits_def make_zip_file_Stored)
  have "window ?t = [0xFF]" using rd(2,3) by (simp add: take_new_def)
  with win.read_to_end_content [where s = ?t and sizes = "x_sizes sample_externals" and i = 0 and acc = "[]"]
  obtain t' where "read_to_end file_read (x_sizes sample_externals) 0 [] ?t = Some (Ok [0xFF], t')" by auto
  from read_fresh_file [OF stored_over_box [where F = BoxTake, OF this boxed_read_simps(1)]]
  have "read_entry sample_externals (fresh_file sample_externals ?e ds True (StoredDecoder (BoxTake ?t))) = Some ?verdict"
    by (simp add: crc_chunked_bytewise)
  also have "?verdict = Ok [0xFF]" using assms(5) by (simp add: crc_verdict_def crc_sample)
  finally show ?thesis
    using opened opened_f ds assms(4,6) by (simp add: zf_compression_def zf_size_def zf_compressed_size_def fresh_file_def)
qed

text \<open>A header declaring five bytes where the entry has one.\<close>

definition inflated_header :: cd_header where
  "inflated_header = extract_header\<lparr>h_uncompressed32 := 5\<rparr>"

definition inflated_archive :: "u8 list" where
  "inflated_archive = encode_archive [1] sample_body [inflated_header] []"

lemma inflated_ok: "archive_ok [1] sample_body [inflated_header] []"
  by (simp add: archive_ok_def comment_ok_def header_ok_def encode_archive_def directory_def
      archive_eocd_def encode_eocd_def encode_header_def encode_fixed_def sample_header_def
      inflated_header_def extract_header_def extract_local_def encode_local_def le_eval)

lemma length_inflated: "length inflated_archive = 106"
  by (simp add: inflated_archive_def encode_archive_def directory_def length_encode_header length_archive_eocd
      extract_local_def inflated_header_def extract_header_def sample_header_def)

lemma inflated_opens:
  "\<exists>archive f. ZipArchive_new (cursor_new inflated_archive) = Ok archive \<and>
    by_name sample_externals archive [97, 46, 98] = Some (Ok f) \<and>
    zf_compression f = Stored \<and> zf_size f = 5 \<and> zf_compressed_size f = 1 \<and> unat (zf_data_start f) = 34 \<and>
    read_entry sample_externals f = Some (Ok [0xFF])"
proof -
  obtain e where "entries_of [inflated_header] = Ok [e]" "ce_lfh_offset e = 0" "ce_compressed_size e = 1"
    "ce_crc32 e = 0xFF000000" "ce_method e = Stored" "ce_flags e = 0" "ce_disk_start e = 0"
    "ce_name e = [97, 46, 98]" "ce_uncompressed_size e = 5"
    by (simp add: entry_of_plain sample_header_def extract_header_def inflated_header_def method_from_u16_def
        decode_name_ascii is_ascii_def)
  from sample_entry_opens [OF inflated_ok this(1-8)] this(9) length_inflated show ?thesis
    by (simp add: inflated_archive_def)
qed

text \<open>A header declaring the largest 64-bit size, in a Zip64 field.\<close>

definition huge_header :: cd_header where
  "huge_header = extract_header\<lparr>h_uncompressed32 := U32_SENTINEL,
     h_extra := extra_record ZIP64_EXTRA_ID (le64 0xFFFFFFFFFFFFFFFF)\<rparr>"

definition huge_archive :: "u8 list" where
  "huge_archive = encode_archive [1] sample_body [huge_header] []"

lemma huge_ok: "archive_ok [1] sample_body [huge_header] []"
  by (simp add: archive_ok_def comment_ok_def header_ok_def encode_archive_def directory_def
      archive_eocd_def encode_eocd_def encode_header_def encode_fixed_def sample_header_def
      huge_header_def extract_header_def extract_local_def encode_local_def le_eval extra_record_def)

lemma huge_opens:
  "\<exists>archive f. ZipArchive_new (cursor_new huge_archive) = Ok archive \<and>
    by_name sample_externals archive [97, 46, 98] = Some (Ok f) \<and>
    zf_compression f = Stored \<and> zf_size f = 0xFFFFFFFFFFFFFFFF \<and> unat (zf_data_start f) = 34"
proof -
  have "fst (zip64_loop True False False (ucast U32_SENTINEL) 1 0
      (Reader_new (extra_record ZIP64_EXTRA_ID (le64 0xFFFFFFFFFFFFFFFF)))) = Ok (0xFFFFFFFFFFFFFFFF, 1, 0)"
    using zip64_loop_hit [of "Reader_new (extra_record ZIP64_EXTRA_ID (le64 0xFFFFFFFFFFFFFFFF))"
        "le64 0xFFFFFFFFFFFFFFFF" "[]" True False False "ucast U32_SENTINEL" 1 0]
      zip64_fields_payload [where nu = True and nc = False and no = False and u' = "0xFFFFFFFFFFFFFFFF" and c' = 0
          and l' = 0 and junk = "[]"]
    by (simp add: zip64_payload_def)
  then obtain e where "entries_of [huge_header] = Ok [e]" "ce_lfh_offset e = 0" "ce_compressed_size e = 1"
    "ce_crc32 e = 0xFF000000" "ce_method e = Stored" "ce_flags e = 0" "ce_disk_start e = 0"
    "ce_name e = [97, 46, 98]" "ce_uncompressed_size e = 0xFFFFFFFFFFFFFFFF"
    by (simp add: entry_of_def make_entry_def resolve_sizes_def fixed_of_def huge_header_def extract_header_def
        sample_header_def apply_zip64_extra_def method_from_u16_def decode_name_ascii is_ascii_def)
  from sample_entry_opens [OF huge_ok this(1-8)] this(9) show ?thesis
    by (auto simp: huge_archive_def encode_archive_def directory_def length_encode_header length_archive_eocd
        extract_local_def huge_header_def extract_header_def sample_header_def)
qed

text \<open>
  Two bytes asked for one byte before the declared end: the read panics, although it would be cut there.
\<close>

theorem stored_entry_read_witness:
  "\<exists>e. open_entry sample_externals copy_inflater (\<lambda>_. Ok huge_archive) [] [97, 46, 98] = Some (Ok e) \<and>
    entry_read_at sample_externals copy_inflater (\<lambda>_. Ok huge_archive) e 2 0xFFFFFFFFFFFFFFFE = Some Panic"
proof -
  from huge_opens obtain archive f where f: "ZipArchive_new (cursor_new huge_archive) = Ok archive"
    "by_name sample_externals archive [97, 46, 98] = Some (Ok f)"
    "zf_compression f = Stored" "zf_size f = 0xFFFFFFFFFFFFFFFF" by blast
  from stored_entry_read [where fs = "\<lambda>_. Ok huge_archive" and n = 2 and offset = "0xFFFFFFFFFFFFFFFE"
      and path = "[]" and I = copy_inflater, OF refl f(1-3)] f(4)
  show ?thesis by (auto simp: Let_def)
qed

lemma inflated_window: "take 5 (drop 34 inflated_archive) = [0xFF, 80, 75, 1, 2]"
  by (simp add: inflated_archive_def encode_archive_def directory_def encode_header_def le_eval
      encode_local_def extract_local_def)

theorem stored_entry_window_witness:
  "\<exists>e. open_entry sample_externals copy_inflater (\<lambda>_. Ok inflated_archive) [] [97, 46, 98] = Some (Ok e) \<and>
    entry_read_at sample_externals copy_inflater (\<lambda>_. Ok inflated_archive) e 5 0 = Some (Ok [0xFF, 80, 75, 1, 2])"
proof -
  from inflated_opens obtain archive f where f: "ZipArchive_new (cursor_new inflated_archive) = Ok archive"
    "by_name sample_externals archive [97, 46, 98] = Some (Ok f)"
    "zf_compression f = Stored" "zf_size f = 5" "unat (zf_data_start f) = 34" by blast
  from stored_entry_window [where fs = "\<lambda>_. Ok inflated_archive" and n = 5 and offset = 0 and path = "[]"
      and I = copy_inflater, OF refl f(1,2,3)] f(4,5)
  show ?thesis by (auto simp: length_inflated inflated_window)
qed

text \<open>The same archive through the fallback: one byte is decoded where five are declared.\<close>

theorem fallback_read_at_witness:
  "entry_read_at sample_externals copy_inflater (\<lambda>_. Ok inflated_archive)
     \<lparr> se_file = [], se_uncompressed_size = 5, se_layout = Fallback [] [97, 46, 98] \<rparr> 3 2 = Some Panic"
proof -
  from inflated_opens obtain archive f where f: "ZipArchive_new (cursor_new inflated_archive) = Ok archive"
    "by_name sample_externals archive [97, 46, 98] = Some (Ok f)" "read_entry sample_externals f = Some (Ok [0xFF])" by blast
  from fallback_read_at [where fs = "\<lambda>_. Ok inflated_archive" and n = 3 and offset = 2 and I = copy_inflater
      and e = "\<lparr> se_file = [], se_uncompressed_size = 5, se_layout = Fallback [] [97, 46, 98] \<rparr>", OF _ refl f]
  show ?thesis by simp
qed

end
