(* ===== verification/StoredStream.thy ===== *)
theory StoredStream
  imports StoredBlocks
begin

text \<open>
  The block index against a reference: what a DEFLATE stream of stored blocks stands for, by recursion on
  its bytes and without positions, and that indexing an entry succeeds for exactly the streams that have
  such a decoding, with blocks that cover it.
\<close>

section \<open>The reference\<close>

text \<open>
  A stored block is a byte with the final bit and the type zero (the other bits are padding), the length,
  its complement and the bytes. What follows the final block does not belong to the stream.
\<close>

function stored_decode :: "u8 list \<Rightarrow> u8 list option" where
  "stored_decode bs =
     (if length bs < 5 then None
      else let len = from_le_bytes [bs ! 1, bs ! 2] :: u16; nlen = from_le_bytes [bs ! 3, bs ! 4] :: u16;
               chunk = take (unat len) (drop 5 bs)
           in if drop_bit 1 (bs ! 0) AND 3 \<noteq> 0 \<or> nlen \<noteq> NOT len \<or> length bs < 5 + unat len then None
              else if bs ! 0 AND 1 = 1 then Some chunk
              else map_option ((@) chunk) (stored_decode (drop (5 + unat len) bs)))"
  by pat_completeness auto
termination by (relation "measure length") auto

declare stored_decode.simps [simp del]

text \<open>A run of stored blocks written with any contents decodes to them.\<close>

lemma stored_decode_encoded:
  assumes "chunks \<noteq> []" and "\<forall>c \<in> set chunks. length c < 65536"
  shows "stored_decode (encode_stored chunks @ post) = Some (concat chunks)"
  using assms
proof (induction chunks)
  case (Cons c cs)
  let ?h = "stored_header (cs = []) c" and ?bs = "encode_stored (c # cs) @ post"
  have nth: "?bs ! i = ?h ! i" if "i < 5" for i using that by (simp add: nth_append)
  have len: "unat (of_nat (length c) :: u16) = length c"
    using Cons.prems(2) by (simp add: unat_of_nat take_bit_nat_eq_self)
  have hd: "?bs ! 0 = (if cs = [] then 1 else 0)"
    "from_le_bytes [?bs ! 1, ?bs ! 2] = (of_nat (length c) :: u16)"
    "from_le_bytes [?bs ! 3, ?bs ! 4] = NOT (of_nat (length c) :: u16)"
    using nth [of 0] nth [of 1] nth [of 2] nth [of 3] nth [of 4] stored_header_nth [of "cs = []" c]
    by (simp_all del: from_le_bytes.simps)
  have dr: "drop 5 ?bs = c @ encode_stored cs @ post" "drop (5 + length c) ?bs = encode_stored cs @ post"
    by simp_all
  have "length ?bs = 5 + length c + length (encode_stored cs) + length post" by simp
  with Cons.IH Cons.prems(2) show ?case
    unfolding stored_decode.simps [of ?bs] Let_def hd len dr by (auto simp: less_Suc_eq)
qed simp

section \<open>One step of the loop\<close>

definition stream_rest :: "u8 list \<Rightarrow> u64 \<Rightarrow> u64 \<Rightarrow> u8 list" where
  "stream_rest f fin foff = take (unat fin - unat foff) (drop (unat foff) f)"

definition stream_len :: "u8 list \<Rightarrow> u16" where
  "stream_len D = from_le_bytes [D ! 1, D ! 2]"

definition near :: "u8 list \<Rightarrow> u64 \<Rightarrow> u64 \<Rightarrow> u64 \<Rightarrow> bool" where
  "near f fin foff uoff \<longleftrightarrow>
     length f < 2 ^ 63 \<and> unat fin \<le> length f \<and> unat foff \<le> unat fin \<and> unat uoff \<le> unat foff"

lemma length_stream_rest: "near f fin foff uoff \<Longrightarrow> length (stream_rest f fin foff) = unat fin - unat foff"
  by (auto simp: stream_rest_def near_def)

lemma index_loop_step:
  assumes "near f fin foff uoff"
  defines "D \<equiv> stream_rest f fin foff" and "len \<equiv> stream_len (stream_rest f fin foff)"
  shows "index_loop f name fin foff uoff blocks =
    (if length D < 5 then Ok None
     else if drop_bit 1 (D ! 0) AND 3 \<noteq> 0 then Ok None
     else if from_le_bytes [D ! 3, D ! 4] \<noteq> NOT len then Err (bad_nlen name foff)
     else if length D < 5 + unat len then Err (block_overrun name (foff + 5))
     else let blocks' = blocks @ [\<lparr> sb_uncomp_start = uoff, sb_len = ucast len, sb_file_offset = foff + 5 \<rparr>] in
       if D ! 0 AND 1 = 1 then Ok (Some (blocks', uoff + ucast len))
       else index_loop f name fin (foff + 5 + ucast len) (uoff + ucast len) blocks')"
proof -
  have b: "length f < 9223372036854775808" "unat fin \<le> length f" "unat foff \<le> unat fin" "unat uoff \<le> unat foff"
    using assms(1) by (simp_all add: near_def)
  have LD: "length D = unat fin - unat foff" unfolding D_def by (rule length_stream_rest [OF assms(1)])
  have w: "unat (ucast len :: u64) = unat len" "unat len < 65536" by (simp_all add: unat_ucast16)
  have data: "add64 foff 5 = (Ok (foff + 5) :: (u64, zip_core_error) outcome)" "unat (foff + 5) = unat foff + 5"
    using b by (simp_all add: add64_OkI unat_add64 del: add64_eq_Ok)
  have nx: "add64 (foff + 5) (ucast len) = (Ok (foff + 5 + ucast len) :: (u64, zip_core_error) outcome)"
    "unat (foff + 5 + ucast len) = unat foff + 5 + unat len"
  proof -
    have "unat (foff + 5) + unat (ucast len :: u64) < 18446744073709551616" using b(1-3) w data(2) by linarith
    then show "add64 (foff + 5) (ucast len) = (Ok (foff + 5 + ucast len) :: (u64, zip_core_error) outcome)"
      "unat (foff + 5 + ucast len) = unat foff + 5 + unat len"
      using data(2) w(1) by (simp_all add: add64_OkI unat_add64 del: add64_eq_Ok)
  qed
  have ux: "add64 uoff (ucast len) = (Ok (uoff + ucast len) :: (u64, zip_core_error) outcome)"
  proof -
    have "unat uoff + unat (ucast len :: u64) < 18446744073709551616" using b w by linarith
    then show ?thesis by (simp add: add64_OkI del: add64_eq_Ok)
  qed
  have short: "fin < foff + 5 \<longleftrightarrow> length D < 5"
    using b(3) by (auto simp: word_less_nat_alt data(2) LD)
  show ?thesis
  proof (cases "length D < 5")
    case True
    then show ?thesis by (subst index_loop.simps) (simp add: data(1) short del: add64_eq_Ok)
  next
    case False
    have hdr: "pread_exact f 5 foff = Ok (take 5 D)"
      using False b LD by (simp add: pread_exact_def D_def stream_rest_def min_def)
    have over: "fin < foff + 5 + ucast len \<longleftrightarrow> length D < 5 + unat len"
      using b(3) by (auto simp: word_less_nat_alt nx(2) LD)
    have nth: "take 5 D ! 0 = D ! 0" "take 5 D ! 1 = D ! 1" "take 5 D ! 2 = D ! 2" "take 5 D ! 3 = D ! 3" "take 5 D ! 4 = D ! 4"
      by simp_all
    have len: "from_le_bytes [D ! 1, D ! 2] = len" by (simp only: len_def stream_len_def D_def)
    show ?thesis
      by (subst index_loop.simps)
        (simp only: data(1) short hdr nth len nx(1) ux over False and_then.simps map_err.simps Let_def if_False
          if_not_P if_P split: if_split)
  qed
qed


lemma near_step:
  assumes "near f fin foff uoff" and "5 + unat len \<le> length (stream_rest f fin foff)"
  shows "near f fin (foff + 5 + ucast (len :: u16)) (uoff + ucast len)"
    and "unat (foff + 5 + ucast len) = unat foff + (5 + unat len)"
    and "unat (uoff + ucast len) = unat uoff + unat len"
    and "stream_rest f fin (foff + 5 + ucast len) = drop (5 + unat len) (stream_rest f fin foff)"
    and "block_bytes f \<lparr> sb_uncomp_start = uoff, sb_len = ucast len, sb_file_offset = foff + 5 \<rparr> =
      take (unat len) (drop 5 (stream_rest f fin foff))"
proof -
  have b: "length f < 9223372036854775808" "unat fin \<le> length f" "unat uoff \<le> unat foff"
    and l: "unat foff + (5 + unat len) \<le> unat fin"
    using assms length_stream_rest [OF assms(1)] by (auto simp: near_def)
  have w: "unat (ucast len :: u64) = unat len" by (simp add: unat_ucast16)
  have f5: "unat (foff + 5) = unat foff + 5" using b l by (subst unat_add64) simp_all
  show foff: "unat (foff + 5 + ucast len) = unat foff + (5 + unat len)"
    using b l w f5 by (subst unat_add64) simp_all
  show uoff: "unat (uoff + ucast len) = unat uoff + unat len"
    using b l w by (subst unat_add64) simp_all
  show "near f fin (foff + 5 + ucast len) (uoff + ucast len)"
    using b l by (simp add: near_def foff uoff)
  show "stream_rest f fin (foff + 5 + ucast len) = drop (5 + unat len) (stream_rest f fin foff)"
    unfolding stream_rest_def foff drop_take drop_drop diff_diff_left by (simp add: add.commute)
  show "block_bytes f \<lparr> sb_uncomp_start = uoff, sb_len = ucast len, sb_file_offset = foff + 5 \<rparr> =
      take (unat len) (drop 5 (stream_rest f fin foff))"
    using l by (simp add: block_bytes_def stream_rest_def f5 w drop_take min_def add.commute)
qed

section \<open>The loop is the reference\<close>

text \<open>An outcome of indexing agrees with an optional decoding.\<close>

definition indexed_as ::
  "u8 list \<Rightarrow> u64 \<Rightarrow> stored_block list \<Rightarrow> ((stored_block list \<times> u64) option, zip_core_error) outcome
     \<Rightarrow> u8 list option \<Rightarrow> bool" where
  "indexed_as f uoff blocks r d = (case d of
       Some out \<Rightarrow> (\<exists>bs. r = Ok (Some (blocks @ bs, uoff + of_nat (length out))) \<and> blocks_content f bs = out)
     | None \<Rightarrow> (\<forall>x. r \<noteq> Ok (Some x)))"

lemma index_loop_decodes:
  "near f fin foff uoff \<Longrightarrow>
     indexed_as f uoff blocks (index_loop f name fin foff uoff blocks) (stored_decode (stream_rest f fin foff))"
proof (induction "length (stream_rest f fin foff)" arbitrary: foff uoff blocks rule: less_induct)
  case less
  let ?D = "stream_rest f fin foff" and ?len = "stream_len (stream_rest f fin foff)"
  note step = index_loop_step [OF less.prems, of name blocks] stored_decode.simps [of ?D]
  show ?case
  proof (cases "length ?D < 5 \<or> drop_bit 1 (?D ! 0) AND 3 \<noteq> 0 \<or>
      from_le_bytes [?D ! 3, ?D ! 4] \<noteq> NOT ?len \<or> length ?D < 5 + unat ?len")
    case True
    then show ?thesis unfolding step indexed_as_def by (auto simp: Let_def stream_len_def)
  next
    case False
    let ?b = "\<lparr> sb_uncomp_start = uoff, sb_len = ucast ?len, sb_file_offset = foff + 5 \<rparr>"
    let ?chunk = "take (unat ?len) (drop 5 ?D)"
    let ?f' = "foff + 5 + ucast ?len" and ?u' = "uoff + ucast ?len"
    from False have le: "5 + unat ?len \<le> length ?D" by simp
    note after = near_step [OF less.prems le]
    have chunk: "length ?chunk = unat ?len" using le by (auto simp: min_def)
    have dec: "stored_decode ?D = (if ?D ! 0 AND 1 = 1 then Some ?chunk
        else map_option ((@) ?chunk) (stored_decode (drop (5 + unat ?len) ?D)))"
      unfolding step(2) using False by (simp add: Let_def stream_len_def)
    have run: "index_loop f name fin foff uoff blocks =
        (if ?D ! 0 AND 1 = 1 then Ok (Some (blocks @ [?b], ?u')) else index_loop f name fin ?f' ?u' (blocks @ [?b]))"
      unfolding step(1) using False by (simp add: Let_def)
    have u': "?u' = uoff + of_nat (length ?chunk)" using chunk by simp
    have "length (stream_rest f fin ?f') < length ?D" using le unfolding after(4) length_drop by linarith
    note ih = less.hyps [OF this after(1), of "blocks @ [?b]", unfolded after(4)]
    show ?thesis
    proof (cases "?D ! 0 AND 1 = 1")
      case True
      with after(5) u' show ?thesis
        unfolding dec run by (simp add: indexed_as_def blocks_content_def)
    next
      case more: False
      show ?thesis
      proof (cases "stored_decode (drop (5 + unat ?len) ?D)")
        case None
        with ih more show ?thesis unfolding dec run by (simp add: indexed_as_def)
      next
        case (Some out)
        with ih obtain bs where bs: "index_loop f name fin ?f' ?u' (blocks @ [?b]) =
            Ok (Some ((blocks @ [?b]) @ bs, ?u' + of_nat (length out)))" "blocks_content f bs = out"
          by (auto simp: indexed_as_def)
        with Some more after(5) u' show ?thesis
          unfolding dec run by (simp add: indexed_as_def blocks_content_def add.assoc)
      qed
    qed
  qed
qed


lemma stored_decode_length: "stored_decode bs = Some out \<Longrightarrow> length out \<le> length bs"
proof (induction bs arbitrary: out rule: stored_decode.induct)
  case (1 bs)
  let ?len = "from_le_bytes [bs ! 1, bs ! 2] :: u16"
  note d = 1(2) [unfolded stored_decode.simps [of bs] Let_def]
  show ?case
  proof (cases "bs ! 0 AND 1 = 1")
    case True
    with d show ?thesis by (auto split: if_splits)
  next
    case False
    with d obtain out' where rest: "stored_decode (drop (5 + unat ?len) bs) = Some out'"
      "out = take (unat ?len) (drop 5 bs) @ out'" and le: "5 + unat ?len \<le> length bs"
      by (auto split: if_splits simp del: from_le_bytes.simps)
    from d False have "length out' \<le> length (drop (5 + unat ?len) bs)"
      by (intro 1(1) [OF _ refl refl refl _ _ rest(1)]) (auto split: if_splits simp del: from_le_bytes.simps)
    with rest(2) le show ?thesis by (simp del: from_le_bytes.simps)
  qed
qed

lemma index_decodes:
  assumes "length f < 2 ^ 63" and "unat data_start + unat compressed_size \<le> length f"
  defines "data \<equiv> take (unat compressed_size) (drop (unat data_start) f)"
  shows "stored_decode data = None \<Longrightarrow> index_stored_blocks f name data_start compressed_size sz \<noteq> Ok (Some blocks)"
    and "stored_decode data = Some out \<Longrightarrow> \<exists>blocks. blocks_content f blocks = out \<and>
      index_stored_blocks f name data_start compressed_size sz =
        (if length out = unat sz then Ok (Some blocks) else Err (bad_total name (of_nat (length out)) sz))"
proof -
  let ?fin = "data_start + compressed_size"
  have b: "unat data_start + unat compressed_size < 18446744073709551616" using assms(1,2) by simp
  then have fin: "add64 data_start compressed_size = (Ok ?fin :: (u64, zip_core_error) outcome)"
    "unat ?fin = unat data_start + unat compressed_size"
    by (simp_all add: add64_OkI unat_add64 del: add64_eq_Ok)
  have "near f ?fin data_start 0" using assms(1,2) fin(2) by (simp add: near_def)
  moreover have "stream_rest f ?fin data_start = data" by (simp add: stream_rest_def data_def fin(2))
  ultimately have ix: "indexed_as f 0 [] (index_loop f name ?fin data_start 0 []) (stored_decode data)"
    using index_loop_decodes [of f ?fin data_start 0 "[]" name] by simp
  show "index_stored_blocks f name data_start compressed_size sz \<noteq> Ok (Some blocks)" if "stored_decode data = None"
    using ix that by (auto simp: indexed_as_def index_stored_blocks_def fin(1) split: option.splits if_splits simp del: add64_eq_Ok)
  assume out: "stored_decode data = Some out"
  with ix obtain blocks where r: "index_loop f name ?fin data_start 0 [] = Ok (Some (blocks, of_nat (length out)))"
    "blocks_content f blocks = out" by (auto simp: indexed_as_def)
  have "length out < 18446744073709551616" using stored_decode_length [OF out] assms(1) by (simp add: data_def) linarith
  then have "(of_nat (length out) = sz) = (length out = unat sz)"
    using unat_of_nat64 [of "length out"] by (simp add: word_eq_iff_unsigned [where ?'a = nat])
  with r show "\<exists>blocks. blocks_content f blocks = out \<and> index_stored_blocks f name data_start compressed_size sz =
        (if length out = unat sz then Ok (Some blocks) else Err (bad_total name (of_nat (length out)) sz))"
    by (intro exI [of _ blocks]) (simp add: index_stored_blocks_def fin(1) del: add64_eq_Ok)
qed

section \<open>The index is the reference\<close>

text \<open>
  C16: Indexing an entry whose data lies in the file succeeds exactly when its bytes are a stream of stored
  blocks by the reference decoder and decode to as many bytes as the entry declares; reads through the
  index are then slices of that decoding, whatever their offset and length. A stream of another length is
  refused with the message that names both sizes, and nothing else is ever indexed.
\<close>

theorem stored_index_decodes:
  assumes "length f < 2 ^ 63" and "unat data_start + unat compressed_size \<le> length f"
  shows "case stored_decode (take (unat compressed_size) (drop (unat data_start) f)) of
      None \<Rightarrow> \<forall>blocks. index_stored_blocks f name data_start compressed_size sz \<noteq> Ok (Some blocks)
    | Some out \<Rightarrow>
        if length out = unat sz then
          \<exists>blocks. index_stored_blocks f name data_start compressed_size sz = Ok (Some blocks) \<and>
            (\<forall>offset n. unat offset + n < 2 ^ 64 \<longrightarrow>
               stored_read_at f sz blocks n offset = Ok (take n (drop (unat offset) out)))
        else index_stored_blocks f name data_start compressed_size sz = Err (bad_total name (of_nat (length out)) sz)"
proof (cases "stored_decode (take (unat compressed_size) (drop (unat data_start) f))")
  case None
  with index_decodes(1) [OF assms] show ?thesis by simp
next
  case (Some out)
  from index_decodes(2) [OF assms Some, of name sz] obtain blocks where
    b: "blocks_content f blocks = out" "index_stored_blocks f name data_start compressed_size sz =
      (if length out = unat sz then Ok (Some blocks) else Err (bad_total name (of_nat (length out)) sz))" by blast
  show ?thesis
  proof (cases "length out = unat sz")
    case True
    with b(2) have ix: "index_stored_blocks f name data_start compressed_size sz = Ok (Some blocks)" by simp
    from blocks_from_longer [OF built_blocks(1) [OF ix] assms(2)] have
      "blocks_from (length f) 0 blocks (unat sz)" .
    from stored_read_at_slice [OF this] assms(1) b(1) ix True Some show ?thesis by auto
  qed (use b(2) Some in simp)
qed

text \<open>Two blocks with padding bits in the first header and a byte after the final one.\<close>

abbreviation padded_stream :: "u8 list" where
  "padded_stream \<equiv> [0xF8, 2, 0, 0xFD, 0xFF, 7, 8, 1, 1, 0, 0xFE, 0xFF, 9, 0x55]"

lemma padded_stream_decoded: "stored_decode padded_stream = Some [7, 8, 9]"
  by (subst stored_decode.simps, simp, subst stored_decode.simps, simp)

theorem stored_index_decodes_witness:
  "\<exists>blocks. index_stored_blocks (1 # padded_stream) [] 1 14 3 = Ok (Some blocks) \<and>
     stored_read_at (1 # padded_stream) 3 blocks 2 1 = Ok [8, 9]"
proof -
  from stored_index_decodes [of "1 # padded_stream" 1 14 "[]" 3] padded_stream_decoded
  obtain blocks where "index_stored_blocks (1 # padded_stream) [] 1 14 3 = Ok (Some blocks)"
    and r: "\<And>offset n. unat offset + n < 2 ^ 64 \<Longrightarrow>
      stored_read_at (1 # padded_stream) 3 blocks n offset = Ok (take n (drop (unat offset) [7, 8, 9]))"
    by auto
  with r [of 1 2] show ?thesis by (intro exI [of _ blocks]) simp
qed

end
