(* ===== verification/RandomAccess.thy ===== *)
theory RandomAccess
  imports StoredEntry StoredStream
begin

text \<open>
  The contract of random access in \<open>core/src/lib.rs\<close>: \<open>StoredZipEntry\<close> promises a caller a fixed byte
  string, read at any offset with any buffer, whichever way the entry is addressed. The contract is the
  locale \<open>positioned\<close>; the stored blocks, the Deflate64 index and the entry itself provide it. From
  the contract alone, a caller that asks for one buffer after the other gets the whole entry after a
  number of reads its length bounds.
\<close>

section \<open>Reading one buffer after the other\<close>

text \<open>A caller's loop: each read starts where the bytes delivered so far end.\<close>

fun read_run :: "(usize \<Rightarrow> u64 \<Rightarrow> (u8 list, io_error) outcome option) \<Rightarrow> usize list \<Rightarrow> u64
     \<Rightarrow> (u8 list, io_error) outcome option" where
  "read_run rd [] offset = Some (Ok [])"
| "read_run rd (n # ns) offset = Option.bind (rd n offset) (\<lambda>v. bind_opt v (\<lambda>got.
     map_option (\<lambda>w. and_then w (\<lambda>more. Ok (got @ more))) (read_run rd ns (offset + of_nat (length got)))))"

section \<open>The contract\<close>

text \<open>\<open>holds s data\<close>: the source \<open>s\<close> stands for the bytes \<open>data\<close>.\<close>

locale positioned =
  fixes rd :: "'s \<Rightarrow> usize \<Rightarrow> u64 \<Rightarrow> (u8 list, io_error) outcome option"
    and holds :: "'s \<Rightarrow> u8 list \<Rightarrow> bool"
  assumes slice: "holds s data \<Longrightarrow> unat offset + n < 2 ^ 64 \<Longrightarrow>
      rd s n offset = Some (Ok (take n (drop (unat offset) data)))"
begin

text \<open>Reads do not depend on one another: any sequence of buffers gets the bytes in order.\<close>

lemma read_run_slice:
  assumes "holds s data" and "\<And>n. n \<in> set ns \<Longrightarrow> length data + n < 2 ^ 64" and "unat offset \<le> length data"
  shows "read_run (rd s) ns offset = Some (Ok (take (sum_list ns) (drop (unat offset) data)))"
  using assms(2,3)
proof (induction ns arbitrary: offset)
  case Nil
  show ?case by simp
next
  case (Cons n ns)
  have lt: "length data + n < 2 ^ 64" using Cons.prems(1) by simp
  let ?got = "take n (drop (unat offset) data)"
  have "unat (of_nat (length ?got) :: u64) = length ?got" using lt by (simp add: unat_of_nat64)
  then have next_off: "unat (offset + of_nat (length ?got)) = unat offset + length ?got"
    using lt Cons.prems(2) by (simp add: unat_add64)
  also have "\<dots> \<le> length data" using Cons.prems(2) by simp
  finally have "read_run (rd s) ns (offset + of_nat (length ?got)) =
      Some (Ok (take (sum_list ns) (drop (unat (offset + of_nat (length ?got))) data)))"
    using Cons.prems(1) by (intro Cons.IH) simp_all
  moreover have "drop (unat (offset + of_nat (length ?got))) data = drop n (drop (unat offset) data)"
    unfolding next_off by (auto simp: min_def add.commute)
  moreover have "rd s n offset = Some (Ok ?got)" using assms(1) lt Cons.prems(2) by (intro slice) simp_all
  ultimately show ?case by (simp add: take_add)
qed

text \<open>So enough buffers of one length get everything.\<close>

lemma read_run_whole:
  assumes "holds s data" and "length data + n < 2 ^ 64" and "length data \<le> k * n"
  shows "read_run (rd s) (replicate k n) 0 = Some (Ok data)"
  using read_run_slice [OF assms(1), of "replicate k n" 0] assms(2,3) by (simp add: sum_list_replicate)

text \<open>What the source stands for is unique, as far as it can be addressed.\<close>

lemma holds_unique:
  assumes "holds s data" and "holds s data'" and "length data < 2 ^ 63" and "length data' < 2 ^ 63"
  shows "data = data'"
proof -
  let ?n = "max (length data) (length data')"
  have "rd s ?n 0 = Some (Ok data)" "rd s ?n 0 = Some (Ok data')"
    using slice [OF assms(1), of 0 ?n] slice [OF assms(2), of 0 ?n] assms(3,4) by simp_all
  then show ?thesis by simp
qed

end

section \<open>The providers\<close>

text \<open>Stored blocks: the bytes the blocks cover.\<close>

fun blocks_read :: "u8 list \<times> u64 \<times> stored_block list \<Rightarrow> usize \<Rightarrow> u64 \<Rightarrow> (u8 list, io_error) outcome option" where
  "blocks_read (f, sz, blocks) n offset = Some (stored_read_at f sz blocks n offset)"

fun blocks_hold :: "u8 list \<times> u64 \<times> stored_block list \<Rightarrow> u8 list \<Rightarrow> bool" where
  "blocks_hold (f, sz, blocks) data \<longleftrightarrow>
     blocks_from (length f) 0 blocks (unat sz) \<and> length f < 2 ^ 64 \<and> data = blocks_content f blocks"

interpretation blocks: positioned blocks_read blocks_hold
  by unfold_locales (auto simp: stored_read_at_slice)

text \<open>A Deflate64 index: the decoding of the stream it was built over.\<close>

inductive index_holds ::
  "('i, 'z) inflater_scheme \<Rightarrow> u8 list \<times> deflate64_index \<Rightarrow> u8 list \<Rightarrow> bool" for L where
  built: "inflater_ok L src out R \<Longrightarrow> stream_at f data_start src \<Longrightarrow> unat compressed_size = length src \<Longrightarrow>
    build_index_capped L f name data_start compressed_size sz interval caps = Some (Ok ix) \<Longrightarrow>
    index_holds L (f, ix) out"

interpretation index: positioned "\<lambda>(f, ix). index_read_at L f ix" "index_holds L" for L
  by unfold_locales (auto elim!: index_holds.cases simp: index_slice)

text \<open>
  An entry, by the layout \<open>open_entry\<close> chose for it: the bytes its blocks cover, the decoding its index
  was built over, or what the fallback decodes on every read, where that has the declared size.
\<close>

inductive serves ::
  "('h, 'c, 'm, 'd, 'x) externals \<Rightarrow> ('i, 'z) inflater_scheme \<Rightarrow> (rstring \<Rightarrow> (u8 list, io_error) outcome)
     \<Rightarrow> stored_zip_entry \<Rightarrow> u8 list \<Rightarrow> bool" for E I fs where
  by_blocks: "se_layout e = StoredBlocks blocks \<Longrightarrow>
    blocks_hold (se_file e, se_uncompressed_size e, blocks) data \<Longrightarrow> serves E I fs e data"
| by_checkpoints: "se_layout e = Deflate64Layout ix \<Longrightarrow> index_holds I (se_file e, ix) data \<Longrightarrow>
    length data = unat (se_uncompressed_size e) \<Longrightarrow> serves E I fs e data"
| by_decoding: "se_layout e = Fallback path name \<Longrightarrow> fs path = Ok contents \<Longrightarrow>
    ZipArchive_new (cursor_new contents) = Ok archive \<Longrightarrow> by_name E archive name = Some (Ok f) \<Longrightarrow>
    read_entry E f = Some (Ok data) \<Longrightarrow> length data = unat (se_uncompressed_size e) \<Longrightarrow>
    length data < 2 ^ 63 \<Longrightarrow> serves E I fs e data"

lemma serves_length: "serves E I fs e data \<Longrightarrow> length data = unat (se_uncompressed_size e)"
proof (induction rule: serves.induct)
  case (by_blocks e blocks data)
  then show ?case using length_blocks_content [of "se_file e" 0 blocks] by auto
qed

lemma entry_read_within:
  assumes "unat offset + n < 2 ^ 64" and "offset < se_uncompressed_size e" and "0 < n"
  shows "entry_read_at E I fs e n offset =
    (let want_end = min (offset + of_nat n) (se_uncompressed_size e) in
     case se_layout e of
       StoredBlocks blocks \<Rightarrow> Some (read_blocks (se_file e) blocks n want_end offset [])
     | Deflate64Layout ix \<Rightarrow> index_read_at I (se_file e) ix n offset
     | Fallback path name \<Rightarrow> fallback_read E fs path name (se_uncompressed_size e) offset (unat (want_end - offset)))"
proof -
  have "unat (of_nat n :: u64) = n" using assms(1) by (simp add: unat_of_nat64)
  then have past: "add64 offset (of_nat n) = (Ok (offset + of_nat n) :: (u64, io_error) outcome)"
    using assms(1) by (simp add: add64_OkI del: add64_eq_Ok)
  show ?thesis
    using assms(3) linorder_not_le [THEN iffD2, OF assms(2)] by (simp add: entry_read_at_def past Let_def)
qed

lemma serves_slice:
  assumes "serves E I fs e data" and "unat offset + n < 2 ^ 64"
  shows "entry_read_at E I fs e n offset = Some (Ok (take n (drop (unat offset) data)))"
proof (cases "se_uncompressed_size e \<le> offset \<or> n = 0")
  case True
  then show ?thesis using serves_length [OF assms(1)] by (auto simp: entry_read_at_def word_le_nat_alt)
next
  case False
  then have lt: "offset < se_uncompressed_size e" "0 < n" by auto
  from assms(1) show ?thesis
  proof cases
    case (by_blocks blocks)
    from blocks.slice [OF by_blocks(2) assms(2)] show ?thesis by (simp add: entry_read_at_blocks [OF by_blocks(1)])
  next
    case (by_checkpoints ix)
    from index.slice [OF by_checkpoints(2) assms(2)] show ?thesis
      using entry_read_within [OF assms(2) lt, where E = E and I = I and fs = fs] by (simp add: by_checkpoints(1))
  next
    case (by_decoding path name contents archive f)
    have "unat offset < length data" using lt(1) by_decoding(6) by (simp add: word_less_nat_alt)
    with by_decoding(6,7) fallback_slice [where I = I and fs = fs, OF by_decoding(1-5) lt assms(2)] show ?thesis
      by (auto simp: min_def)
  qed
qed

interpretation entry: positioned "entry_read_at E I fs" "serves E I fs" for E I fs
  by unfold_locales (rule serves_slice)

text \<open>
  C10: An entry that stands for some bytes gives them up completely: a caller asking for one buffer of
  \<open>n > 0\<close> bytes after the other has them all, in order, after any number of reads \<open>k\<close> with
  \<open>k * n\<close> at least their number, and no read panics, fails or hangs, whichever of the three layouts
  addresses the entry.
\<close>

theorem entry_read_completely:
  assumes "serves E I fs e data" and "length data + n < 2 ^ 64" and "length data \<le> k * n"
  shows "read_run (entry_read_at E I fs e) (replicate k n) 0 = Some (Ok data)"
  using assms by (rule entry.read_run_whole)

text \<open>A Deflate64 index over three bytes, read two by two.\<close>

theorem entry_read_completely_witness:
  "\<exists>ix. read_run (entry_read_at sample_externals copy_inflater (\<lambda>_. Ok [])
     \<lparr> se_file = [9, 1, 2, 3, 7], se_uncompressed_size = 3, se_layout = Deflate64Layout ix \<rparr>) [2, 2] 0 =
   Some (Ok [1, 2, 3])"
proof -
  from sample_index obtain ix where
    ix: "build_index_capped copy_inflater [9, 1, 2, 3, 7] [] 1 3 3 2 caps_default = Some (Ok ix)" by blast
  have "index_holds copy_inflater ([9, 1, 2, 3, 7], ix) [1, 2, 3]"
    by (rule built [OF copy_inflater_ok sample_stream _ ix]) simp_all
  then have "serves sample_externals copy_inflater (\<lambda>_. Ok []) \<lparr> se_file = [9, 1, 2, 3, 7],
      se_uncompressed_size = 3, se_layout = Deflate64Layout ix \<rparr> [1, 2, 3]"
    by (intro by_checkpoints) simp_all
  from entry_read_completely [OF this, of 2 2]
  have "read_run (entry_read_at sample_externals copy_inflater (\<lambda>_. Ok []) \<lparr> se_file = [9, 1, 2, 3, 7],
      se_uncompressed_size = 3, se_layout = Deflate64Layout ix \<rparr>) (replicate 2 2) 0 = Some (Ok [1, 2, 3])" by simp
  moreover have "replicate 2 (2 :: usize) = [2, 2]" by (simp add: numeral_2_eq_2)
  ultimately show ?thesis by metis
qed

section \<open>Opened entries\<close>

lemma open_entry_layout:
  assumes "fs path = Ok contents" and "ZipArchive_new (cursor_new contents) = Ok archive"
    and "by_name E archive name = Some (Ok f)" and "open_entry E I fs path name = Some (Ok e)"
  shows "se_file e = contents" and "se_uncompressed_size e = zf_size f"
    and "choose_layout I contents path name (zf_compression f) (zf_data_start f) (zf_compressed_size f) (zf_size f)
      = Some (Ok (se_layout e))"
  using assms by (auto simp: open_entry_def split: outcome.splits)

text \<open>The four ways \<open>choose_layout\<close> ends.\<close>

lemma choose_layout_cases [consumes 1, case_names stored indexed checkpoints fallback]:
  assumes "choose_layout I contents path name meth ds cs sz = Some (Ok layout)"
  obtains "meth = Stored" "layout = StoredBlocks [\<lparr> sb_uncomp_start = 0, sb_len = sz, sb_file_offset = ds \<rparr>]"
  | blocks where "meth \<noteq> Stored" "index_stored_blocks contents name ds cs sz = Ok (Some blocks)" "layout = StoredBlocks blocks"
  | ix where "meth = Deflate64" "layout = Deflate64Layout ix"
      "build_index_capped I contents name ds cs sz DEFAULT_CHECKPOINT_INTERVAL caps_default = Some (Ok ix)"
      "index_stored_blocks contents name ds cs sz = Ok None"
  | "meth \<noteq> Stored" "layout = Fallback path name" "meth \<noteq> Deflate64"
      "meth = Deflated \<Longrightarrow> index_stored_blocks contents name ds cs sz = Ok None"
  using assms by (cases "index_stored_blocks contents name ds cs sz")
    (auto simp: choose_layout_def build_index_def split: if_splits option.splits)

text \<open>What is not indexed is not a stream of stored blocks, and what is indexed decodes to its blocks.\<close>

lemma unindexed_decode:
  assumes "length f < 2 ^ 63" and "unat ds + unat cs \<le> length f" and "index_stored_blocks f name ds cs sz = Ok None"
  shows "stored_decode (take (unat cs) (drop (unat ds) f)) = None"
proof (rule ccontr)
  assume "stored_decode (take (unat cs) (drop (unat ds) f)) \<noteq> None"
  then obtain out where "stored_decode (take (unat cs) (drop (unat ds) f)) = Some out" by blast
  from index_decodes(2) [OF assms(1,2) this, of name sz] assms(3) show False by (auto split: if_splits)
qed

lemma indexed_decode:
  assumes "length f < 2 ^ 63" and "unat ds + unat cs \<le> length f"
    and "index_stored_blocks f name ds cs sz = Ok (Some blocks)"
  shows "stored_decode (take (unat cs) (drop (unat ds) f)) = Some (blocks_content f blocks)"
proof (cases "stored_decode (take (unat cs) (drop (unat ds) f))")
  case None
  from index_decodes(1) [OF assms(1,2) None] assms(3) show ?thesis by simp
next
  case (Some out)
  from index_decodes(2) [OF assms(1,2) Some, of name sz] assms(3) Some show ?thesis by (auto split: if_splits)
qed

text \<open>
  C9: What an opened entry stands for under the contract of random access. When the entry's data lies in
  the file and the inflater keeps its contract on a Deflate64 entry, the opened entry has the declared
  size, and its layout decides the rest. A stored entry stands for that many bytes at its data start; a
  Deflated or Deflate64 entry addressed by blocks for what the reference decoder of stored blocks makes of
  its compressed bytes; one addressed by checkpoints, which is a Deflate64 entry that is not such a stream,
  for the decoding of its stream; and all of these have the declared size. The fallback is left for a
  Deflated entry that is not such a stream and for the other methods: it stands for the bytes extracting
  the entry gives exactly when these are as many as declared.
\<close>

theorem opened_entry_serves:
  assumes "fs path = Ok contents" and "ZipArchive_new (cursor_new contents) = Ok archive"
    and "by_name E archive name = Some (Ok f)" and "open_entry E I fs path name = Some (Ok e)"
    and "length contents < 2 ^ 63"
    and "unat (zf_data_start f) + unat (zf_compressed_size f) \<le> length contents"
    and "zf_compression f = Stored \<Longrightarrow> unat (zf_data_start f) + unat (zf_size f) \<le> length contents"
    and "src = take (unat (zf_compressed_size f)) (drop (unat (zf_data_start f)) contents)"
    and "zf_compression f = Deflate64 \<Longrightarrow> inflater_ok I src out R"
  shows "se_len e = zf_size f \<and> (case se_layout e of
      StoredBlocks blocks \<Rightarrow> \<exists>served. serves E I fs e served \<and> length served = unat (zf_size f) \<and>
        (if zf_compression f = Stored
         then served = take (unat (zf_size f)) (drop (unat (zf_data_start f)) contents)
         else stored_decode src = Some served)
    | Deflate64Layout ix \<Rightarrow> zf_compression f = Deflate64 \<and> stored_decode src = None \<and>
        serves E I fs e out \<and> length out = unat (zf_size f)
    | Fallback p nm \<Rightarrow> p = path \<and> nm = name \<and> zf_compression f \<noteq> Stored \<and> zf_compression f \<noteq> Deflate64 \<and>
        (zf_compression f = Deflated \<longrightarrow> stored_decode src = None) \<and>
        (\<forall>data. read_entry E f = Some (Ok data) \<and> length data < 2 ^ 63 \<longrightarrow>
          (serves E I fs e data \<longleftrightarrow> length data = unat (zf_size f))))"
proof -
  note opened = open_entry_layout [OF assms(1-4)]
  have len: "length served = unat (zf_size f)" if "serves E I fs e served" for served
    using serves_length [OF that] opened(2) by simp
  from opened(3) show ?thesis
  proof (cases rule: choose_layout_cases)
    case stored
    let ?b = "\<lparr> sb_uncomp_start = 0, sb_len = zf_size f, sb_file_offset = zf_data_start f \<rparr>"
    have "blocks_hold (se_file e, se_uncompressed_size e, [?b]) (blocks_content contents [?b])"
      using assms(5,7) stored(1) by (simp add: opened(1,2))
    note by_blocks [OF stored(2) this, of E I fs]
    with len [OF this] stored show ?thesis
      by (simp add: opened(2) se_len_def) (auto simp: blocks_content_def block_bytes_def)
  next
    case (indexed blocks)
    from blocks_from_longer [OF built_blocks(1) [OF indexed(2)] assms(6)] assms(5)
    have "blocks_hold (se_file e, se_uncompressed_size e, blocks) (blocks_content contents blocks)"
      by (simp add: opened(1,2))
    note by_blocks [OF indexed(3) this, of E I fs]
    with len [OF this] indexed indexed_decode [OF assms(5,6) indexed(2)] show ?thesis
      by (auto simp: opened(2) se_len_def assms(8))
  next
    case (checkpoints ix)
    have st: "stream_at contents (zf_data_start f) src" "unat (zf_compressed_size f) = length src"
      using assms(5,6) by (simp_all add: stream_at_def assms(8)) (metis append_take_drop_id)
    note I = assms(9) [OF checkpoints(1)]
    have "index_holds I (se_file e, ix) out" using built [OF I st checkpoints(3)] by (simp add: opened(1))
    moreover have "length out = unat (se_uncompressed_size e)"
      using built_index(1) [OF I st checkpoints(3)] by (simp add: opened(2))
    ultimately have "serves E I fs e out" by (rule by_checkpoints [OF checkpoints(2)])
    with len [OF this] checkpoints unindexed_decode [OF assms(5,6) checkpoints(4)] show ?thesis
      by (simp add: opened(2) se_len_def assms(8))
  next
    case fallback
    have "serves E I fs e data \<longleftrightarrow> length data = unat (zf_size f)"
      if "read_entry E f = Some (Ok data) \<and> length data < 2 ^ 63" for data
    proof
      assume "length data = unat (zf_size f)"
      with that show "serves E I fs e data"
        by (intro by_decoding [where fs = fs, OF fallback(2) assms(1-3)]) (simp_all add: opened(2))
    qed (rule len)
    moreover have "stored_decode src = None" if "zf_compression f = Deflated"
      unfolding assms(8) by (rule unindexed_decode [OF assms(5,6) fallback(4) [OF that]])
    ultimately show ?thesis using fallback(1-3) by (simp add: opened(2) se_len_def)
  qed
qed

text \<open>The sample archive, whose entry is stored.\<close>

theorem opened_entry_serves_witness:
  "\<exists>e served. open_entry sample_externals copy_inflater (\<lambda>_. Ok inflated_archive) [] [97, 46, 98] = Some (Ok e) \<and>
    serves sample_externals copy_inflater (\<lambda>_. Ok inflated_archive) e served \<and> length served = 5"
proof -
  let ?fs = "\<lambda>_. Ok inflated_archive"
  from inflated_opens obtain archive f where f: "ZipArchive_new (cursor_new inflated_archive) = Ok archive"
    "by_name sample_externals archive [97, 46, 98] = Some (Ok f)"
    "zf_compression f = Stored" "zf_size f = 5" "zf_compressed_size f = 1" "unat (zf_data_start f) = 34" by blast
  let ?b = "\<lparr> sb_uncomp_start = 0, sb_len = zf_size f, sb_file_offset = zf_data_start f \<rparr>"
  obtain e where e: "open_entry sample_externals copy_inflater ?fs [] [97, 46, 98] = Some (Ok e)"
    "se_layout e = StoredBlocks [?b]"
    by (simp add: open_entry_def choose_layout_def f)
  have within: "length inflated_archive < 2 ^ 63"
    "unat (zf_data_start f) + unat (zf_compressed_size f) \<le> length inflated_archive"
    "unat (zf_data_start f) + unat (zf_size f) \<le> length inflated_archive"
    by (simp_all add: length_inflated f(4-6))
  have "\<exists>served. serves sample_externals copy_inflater ?fs e served \<and> length served = unat (zf_size f)"
    using opened_entry_serves [where fs = ?fs and I = copy_inflater and path = "[]",
        OF refl f(1,2) e(1) within refl] f(3)
    by (simp only: e(2) layout.case compression_method.distinct simp_thms) blast
  with e(1) f(4) show ?thesis by auto
qed

end
