(* ===== verification/VfsShape.thy ===== *)
theory VfsShape
  imports VfsTree
begin

text \<open>
  The node table that \<open>build_tree\<close> leaves: with every node stands for a path, ids are positions,
  children are the paths one component longer, and what the nodes say of their paths is the
  specification of \<open>VfsTree\<close>.
\<close>

section \<open>The shape of the table\<close>

definition path_comp :: "rstring \<Rightarrow> bool" where
  "path_comp c \<longleftrightarrow> c \<noteq> [] \<and> (\<forall>x \<in> set c. \<not> is_sep x)"

lemma components_ok: "list_all path_comp (components raw)"
  by (auto simp: components_def list_all_iff path_comp_def dest: split_sep_no_sep)

lemma join_path_inj:
  assumes "list_all path_comp p" and "list_all path_comp q" and "join_path p = join_path q"
  shows "p = q"
proof -
  have ne: "join_path r = [] \<longleftrightarrow> r = []" if "list_all path_comp r" for r
    using that by (cases r rule: join_path.cases) (auto simp: path_comp_def)
  have "split_sep (join_path r) = r" if "list_all path_comp r" "r \<noteq> []" for r
    using that by (intro split_join_path) (auto simp: list_all_iff path_comp_def)
  then show ?thesis using assms ne by metis
qed

definition child_ids :: "rstring list list \<Rightarrow> rstring list \<Rightarrow> nat list" where
  "child_ids paths q = [j \<leftarrow> [0..<length paths]. paths ! j \<noteq> [] \<and> butlast (paths ! j) = q]"

definition path_name :: "rstring list \<Rightarrow> u8 list" where
  "path_name p = as_bytes (if p = [] then [] else last p)"

definition shape :: "rstring list list \<Rightarrow> tree \<Rightarrow> bool" where
  "shape paths t \<longleftrightarrow>
     length paths = length (fst t) \<and> distinct paths \<and> paths \<noteq> [] \<and> paths ! 0 = [] \<and>
     (\<forall>p \<in> set paths. list_all path_comp p) \<and>
     (\<forall>i < length paths. snd t (join_path (paths ! i)) = Some (of_nat i)) \<and>
     (\<forall>p. list_all path_comp p \<longrightarrow> p \<notin> set paths \<longrightarrow> snd t (join_path p) = None) \<and>
     (\<forall>i < length paths. 0 < i \<longrightarrow> (\<exists>j < i. paths ! j = butlast (paths ! i))) \<and>
     map nd_children (fst t) = map (map of_nat \<circ> child_ids paths) paths \<and>
     map nd_name (fst t) = map path_name paths"

lemma shapeD:
  assumes "shape paths t"
  shows "length paths = length (fst t)" and "distinct paths" and "paths ! 0 = []"
    and "p \<in> set paths \<Longrightarrow> list_all path_comp p"
    and "i < length paths \<Longrightarrow> snd t (join_path (paths ! i)) = Some (of_nat i)"
    and "list_all path_comp p \<Longrightarrow> p \<notin> set paths \<Longrightarrow> snd t (join_path p) = None"
    and "i < length paths \<Longrightarrow> 0 < i \<Longrightarrow> \<exists>j < i. paths ! j = butlast (paths ! i)"
    and "map nd_children (fst t) = map (map of_nat \<circ> child_ids paths) paths"
    and "map nd_name (fst t) = map path_name paths" and "paths \<noteq> []"
  using assms unfolding shape_def by blast+

text \<open>What the table says of each path.\<close>

definition view :: "rstring list list \<Rightarrow> node list \<Rightarrow> path_map" where
  "view paths nodes = map_of (zip paths (map info_of nodes))"

lemma view_nth: "distinct paths \<Longrightarrow> length paths = length nodes \<Longrightarrow> i < length paths \<Longrightarrow>
    view paths nodes (paths ! i) = Some (info_of (nodes ! i))"
  unfolding view_def by (subst map_of_zip_nth) simp_all

lemma view_None: "length paths = length nodes \<Longrightarrow> view paths nodes p = None \<longleftrightarrow> p \<notin> set paths"
  by (simp add: view_def map_of_zip_is_None)

lemma view_snoc: "length paths = length nodes \<Longrightarrow> p \<notin> set paths \<Longrightarrow>
    view (paths @ [p]) (nodes @ [n]) = (view paths nodes)(p \<mapsto> info_of n)"
proof -
  assume len: "length paths = length nodes" and p: "p \<notin> set paths"
  have "view (paths @ [p]) (nodes @ [n]) = [p \<mapsto> info_of n] ++ view paths nodes"
    using len by (simp add: view_def)
  also have "\<dots> = view paths nodes ++ [p \<mapsto> info_of n]"
    by (rule map_add_comm) (simp add: view_def len p)
  finally show ?thesis by simp
qed

lemma view_modify:
  assumes "distinct paths" and "length paths = length nodes" and "i < length paths"
  shows "view paths (nodes[i := n]) = (view paths nodes)(paths ! i \<mapsto> info_of n)"
proof
  fix p
  show "view paths (nodes[i := n]) p = ((view paths nodes)(paths ! i \<mapsto> info_of n)) p"
  proof (cases "p \<in> set paths")
    case True
    then obtain j where j: "j < length paths" "p = paths ! j" by (auto simp: in_set_conv_nth)
    then have "p = paths ! i \<longleftrightarrow> j = i" using assms by (simp add: nth_eq_iff_index_eq)
    with j assms show ?thesis by (auto simp: view_nth)
  next
    case False
    then have "p \<noteq> paths ! i" using assms(3) by auto
    with False assms show ?thesis by (simp add: view_None [THEN iffD2])
  qed
qed

section \<open>Adding a node\<close>

lemma child_ids_snoc:
  "child_ids (paths @ [p]) q = child_ids paths q @ (if p \<noteq> [] \<and> butlast p = q then [length paths] else [])"
proof -
  have "filter (\<lambda>j. (paths @ [p]) ! j \<noteq> [] \<and> butlast ((paths @ [p]) ! j) = q) [0..<length paths] =
      filter (\<lambda>j. paths ! j \<noteq> [] \<and> butlast (paths ! j) = q) [0..<length paths]"
    by (rule filter_cong) (auto simp: nth_append)
  then show ?thesis by (simp add: child_ids_def)
qed

lemma push_child_in:
  assumes "i < length nodes" and "length nodes < 2 ^ 64"
  shows "push_child nodes (of_nat i) c = nodes[i := (nodes ! i)\<lparr>nd_children := nd_children (nodes ! i) @ [c]\<rparr>]"
  using assms unat_of_nat64 [of i] by (simp add: push_child_def modify_at_def)

lemma info_of_children [simp]: "info_of (n\<lparr>nd_children := cs\<rparr>) = info_of n"
  by (simp add: info_of_def)

lemma map_update_same: "i < length xs \<Longrightarrow> f y = f (xs ! i) \<Longrightarrow> map f (xs[i := y]) = map f xs"
  by (simp add: map_update list_update_same_conv)

text \<open>What the parts of the invariant become when a node for a new path below the \<open>i\<close>-th is added.\<close>

lemma child_ids_fresh:
  assumes "shape paths t" and "p \<notin> set paths"
  shows "child_ids paths p = []"
proof -
  note S = shapeD [OF assms(1)]
  have "\<not> (paths ! k \<noteq> [] \<and> butlast (paths ! k) = p)" if k: "k \<in> set [0..<length paths]" for k
  proof
    assume kp: "paths ! k \<noteq> [] \<and> butlast (paths ! k) = p"
    have lt: "k < length paths" using k by simp
    have "0 < k" using kp S(3) by (cases k) auto
    with S(7) [OF lt] kp obtain k' where "k' < k" "paths ! k' = p" by auto
    with lt assms(2) show False by (metis less_trans nth_mem)
  qed
  then show ?thesis unfolding child_ids_def filter_empty_conv by blast
qed

lemma children_added:
  assumes sh: "shape paths (nodes, by_path)" and i: "i < length paths" and new: "paths ! i @ [c] \<notin> set paths"
    and n: "nd_children n = []" and p_def: "p = paths ! i @ [c]"
  defines "old \<equiv> (nodes @ [n]) ! i"
  shows "map nd_children ((nodes @ [n])[i := old\<lparr>nd_children := nd_children old @ [of_nat (length paths)]\<rparr>]) =
    map (map of_nat \<circ> child_ids (paths @ [p])) (paths @ [p])" (is "?l = ?r")
proof (rule nth_equalityI)
  note S = shapeD [OF sh]
  have len: "length paths = length nodes" using S(1) by simp
  show "length ?l = length ?r" by (simp add: len)
  fix j assume "j < length ?l"
  then have j: "j < Suc (length paths)" by (simp add: len)
  have kids: "nd_children (nodes ! j) = map of_nat (child_ids paths (paths ! j))" if "j < length paths"
    using arg_cong [OF S(8), of "\<lambda>xs. xs ! j"] that len by simp
  have empty: "child_ids paths p = []" using child_ids_fresh [OF sh] new by (simp add: p_def)
  have parent: "paths ! i = paths ! j \<longleftrightarrow> i = j" if "j < length paths"
    using that i S(2) by (simp add: nth_eq_iff_index_eq)
  show "?l ! j = ?r ! j"
  proof (cases "j = length paths")
    case True
    then have "i \<noteq> j" using i by simp
    with True n len empty show ?thesis
      by (simp add: nth_append child_ids_snoc) (simp add: p_def)
  next
    case False
    with j have j: "j < length paths" by simp
    with len have "j < length nodes" by simp
    with j kids parent show ?thesis
      by (cases "i = j") (simp_all add: nth_append child_ids_snoc p_def old_def len)
  qed
qed

lemma index_added:
  assumes sh: "shape paths (nodes, by_path)" and ok: "list_all path_comp p" and new: "p \<notin> set paths"
  defines "ids \<equiv> by_path(join_path p \<mapsto> of_nat (length paths))"
  shows "\<forall>j < length (paths @ [p]). ids (join_path ((paths @ [p]) ! j)) = Some (of_nat j)"
    and "\<forall>q. list_all path_comp q \<longrightarrow> q \<notin> set (paths @ [p]) \<longrightarrow> ids (join_path q) = None"
proof -
  note S = shapeD [OF sh]
  have ne: "join_path q \<noteq> join_path p" if "list_all path_comp q" "q \<noteq> p" for q
    using join_path_inj [OF that(1) ok] that(2) by blast
  show "\<forall>j < length (paths @ [p]). ids (join_path ((paths @ [p]) ! j)) = Some (of_nat j)"
  proof (intro allI impI)
    fix j assume "j < length (paths @ [p])"
    then consider "j = length paths" | "j < length paths" by fastforce
    then show "ids (join_path ((paths @ [p]) ! j)) = Some (of_nat j)"
    proof cases
      case 2
      then have "paths ! j \<in> set paths" by simp
      with S(4) new have "list_all path_comp (paths ! j)" "paths ! j \<noteq> p" by auto
      with ne have "join_path (paths ! j) \<noteq> join_path p" by blast
      then show ?thesis using S(5) [OF 2] 2 by (simp add: nth_append ids_def)
    qed (simp add: nth_append ids_def)
  qed
  show "\<forall>q. list_all path_comp q \<longrightarrow> q \<notin> set (paths @ [p]) \<longrightarrow> ids (join_path q) = None"
  proof (intro allI impI)
    fix q assume q: "list_all path_comp q" "q \<notin> set (paths @ [p])"
    with ne [OF q(1)] S(6) [OF q(1)] show "ids (join_path q) = None" by (simp add: ids_def)
  qed
qed

lemma parents_added:
  assumes "shape paths t" and "i < length paths" and p_def: "p = paths ! i @ [c]"
  shows "\<forall>j < length (paths @ [p]). 0 < j \<longrightarrow> (\<exists>k < j. (paths @ [p]) ! k = butlast ((paths @ [p]) ! j))"
proof (intro allI impI)
  fix j assume j: "j < length (paths @ [p])" "0 < j"
  show "\<exists>k < j. (paths @ [p]) ! k = butlast ((paths @ [p]) ! j)"
  proof (cases "j = length paths")
    case True
    then show ?thesis using assms(2) by (intro exI [of _ i]) (simp add: nth_append p_def)
  next
    case False
    with j have lt: "j < length paths" by simp
    from shapeD(7) [OF assms(1) lt j(2)] obtain k where k: "k < j" "paths ! k = butlast (paths ! j)" by blast
    then have "(paths @ [p]) ! k = butlast ((paths @ [p]) ! j)" using lt by (simp add: nth_append)
    with k(1) show ?thesis by blast
  qed
qed

lemma add_node_shape:
  assumes sh: "shape paths t" and i: "i < length paths" and c: "path_comp c"
    and new: "paths ! i @ [c] \<notin> set paths" and n: "nd_name n = as_bytes c" "nd_children n = []"
    and small: "length paths + 1 < 2 ^ 64"
  defines "p \<equiv> paths ! i @ [c]"
  defines "t' \<equiv> add_node t (of_nat i) (join_path p) n"
  shows "shape (paths @ [p]) t'" and "view (paths @ [p]) (fst t') = (view paths (fst t))(p \<mapsto> info_of n)"
    and "length (fst t') = Suc (length (fst t))"
proof -
  obtain nodes by_path where t: "t = (nodes, by_path)" by (rule prod.exhaust)
  note sh = sh [unfolded t]
  note S = shapeD [OF sh]
  have len: "length paths = length nodes" using S(1) by simp
  let ?old = "(nodes @ [n]) ! i"
  let ?nodes = "(nodes @ [n])[i := ?old\<lparr>nd_children := nd_children ?old @ [of_nat (length paths)]\<rparr>]"
  have t': "t' = (?nodes, by_path(join_path p \<mapsto> of_nat (length paths)))"
    using push_child_in [of i "nodes @ [n]"] i small len by (simp add: t'_def add_node_def t Let_def)
  have lt: "i < length (nodes @ [n])" using i len by simp
  have p_ok: "list_all path_comp p" using S(4) [of "paths ! i"] i c by (simp add: p_def)
  have p_new: "p \<notin> set paths" using new by (simp add: p_def)
  have same: "map info_of ?nodes = map info_of (nodes @ [n])" "map nd_name ?nodes = map nd_name (nodes @ [n])"
    by (rule map_update_same [OF lt], simp)+
  have "view (paths @ [p]) ?nodes = view (paths @ [p]) (nodes @ [n])" unfolding view_def same ..
  also have "\<dots> = (view paths nodes)(p \<mapsto> info_of n)" by (rule view_snoc [OF len p_new])
  finally show "view (paths @ [p]) (fst t') = (view paths (fst t))(p \<mapsto> info_of n)" by (simp add: t' t)
  show "length (fst t') = Suc (length (fst t))" by (simp add: t' t)
  have "distinct (paths @ [p])" "paths @ [p] \<noteq> []" "(paths @ [p]) ! 0 = []"
    using S(2,3,10) p_new by (simp_all add: nth_append)
  moreover have "\<forall>q \<in> set (paths @ [p]). list_all path_comp q" using S(4) p_ok by auto
  moreover have "map nd_name ?nodes = map path_name (paths @ [p])"
    unfolding same using S(9) n(1) by (simp add: path_name_def p_def)
  moreover have "length (paths @ [p]) = length ?nodes" by (simp add: len)
  ultimately show "shape (paths @ [p]) t'"
    unfolding shape_def t' fst_conv snd_conv
    by (intro conjI index_added [OF sh p_ok p_new] parents_added [OF sh i p_def [THEN meta_eq_to_obj_eq]]
        children_added [OF sh i new n(2) p_def [THEN meta_eq_to_obj_eq]])
qed

section \<open>Attaching an entry\<close>

lemma info_attach: "info_of (attach e n) = attach_info e (info_of n)"
  by (simp add: attach_def attach_info_def info_of_def with_entry_def Let_def case_prod_beta)

lemma attach_same [simp]: "nd_children (attach e n) = nd_children n" "nd_name (attach e n) = nd_name n"
  by (simp_all add: attach_def Let_def case_prod_beta)

lemma attach_shape:
  fixes e :: entry_layout
  assumes sh: "shape paths t" and i: "i < length paths" and small: "length paths < 2 ^ 64"
  defines "t' \<equiv> (modify_at (of_nat i) (attach e) (fst t), snd t)"
  shows "shape paths t'"
    and "view paths (fst t') = (view paths (fst t))(paths ! i \<mapsto> attach_info e (info_of (fst t ! i)))"
    and "length (fst t') = length (fst t)"
proof -
  note S = shapeD [OF sh]
  have t': "fst t' = (fst t)[i := attach e (fst t ! i)]" "snd t' = snd t"
    using i S(1) small by (simp_all add: t'_def modify_at_def unat_of_nat64)
  have lt: "i < length (fst t)" using i S(1) by simp
  have same: "map nd_children (fst t') = map nd_children (fst t)" "map nd_name (fst t') = map nd_name (fst t)"
    unfolding t' by (rule map_update_same [OF lt], simp)+
  show "length (fst t') = length (fst t)" by (simp add: t')
  with sh show "shape paths t'" unfolding shape_def same t'(2) by simp
  show "view paths (fst t') = (view paths (fst t))(paths ! i \<mapsto> attach_info e (info_of (fst t ! i)))"
    unfolding t'(1) view_modify [OF S(2,1) i] info_attach ..
qed

section \<open>Inserting an entry\<close>

lemma join_path_ne: "list_all path_comp q \<Longrightarrow> join_path q = [] \<longleftrightarrow> q = []"
  by (cases q rule: join_path.cases) (auto simp: path_comp_def)

lemma join_path_next:
  "list_all path_comp q \<Longrightarrow> (if join_path q = [] then join_path q else join_path q @ [slash]) @ c = join_path (q @ [c])"
  by (cases "q = []") (simp_all add: join_path_ne join_path_snoc)

lemma length_modify_at [simp]: "length (modify_at i f nodes) = length nodes"
  by (simp add: modify_at_def)

lemma length_add_node [simp]: "length (fst (add_node t parent acc n)) = Suc (length (fst t))"
  by (simp add: add_node_def push_child_def Let_def split: prod.split)

lemma length_insert_comps: "length (fst t) \<le> length (fst (insert_comps e cs parent acc t))"
proof (induction cs arbitrary: parent acc t)
  case (Cons c cs)
  have "length (fst t) \<le> length (fst (insert_comps e cs i p (add_node t parent acc n)))" for i p acc n
    by (rule order_trans [OF _ Cons.IH]) simp
  then show ?case by (auto simp: Let_def Cons.IH split: option.split)
qed simp

lemma leaf_node_simps [simp]: "nd_name (leaf_node e c) = as_bytes c" "nd_children (leaf_node e c) = []"
  "info_of (leaf_node e c) = listed_info e"
  by (simp_all add: leaf_node_def listed_info_def info_of_def Let_def case_prod_beta)

lemma dir_node_simps [simp]: "nd_name (dir_node b) = b" "nd_children (dir_node b) = []"
  "info_of (dir_node b) = implied_info" "nd_kind (dir_node b) = Dir"
  by (simp_all add: dir_node_def implied_info_def info_of_def)

lemma known_path:
  assumes "shape paths t" and "p \<in> set paths"
  obtains i where "i < length paths" "paths ! i = p" "snd t (join_path p) = Some (of_nat i)"
    "view paths (fst t) p = Some (info_of (fst t ! i))"
proof -
  from assms(2) obtain i where i: "i < length paths" "paths ! i = p" by (auto simp: in_set_conv_nth)
  with shapeD(5) [OF assms(1) i(1)] view_nth [OF shapeD(2,1) [OF assms(1)] i(1)] that show thesis by simp
qed

text \<open>The simulation: the loop on the table is the loop on the map.\<close>

lemma insert_comps_view:
  assumes "shape paths t" and "i < length paths" and "paths ! i = q" and "list_all path_comp cs"
    and "length (fst (insert_comps e cs (of_nat i) (join_path q) t)) < 2 ^ 64"
  shows "\<exists>paths'. shape paths' (insert_comps e cs (of_nat i) (join_path q) t) \<and>
    view paths' (fst (insert_comps e cs (of_nat i) (join_path q) t)) = map_comps e cs q (view paths (fst t))"
  using assms
proof (induction cs arbitrary: paths t i q)
  case Nil
  then show ?case by auto
next
  case (Cons c cs)
  note sh = Cons.prems(1) and i = Cons.prems(2,3)
  note S = shapeD [OF sh]
  let ?p = "q @ [c]" and ?v = "view paths (fst t)"
  have q: "list_all path_comp q" using S(4) i by (metis nth_mem)
  have c: "path_comp c" "list_all path_comp cs" using Cons.prems(4) by simp_all
  have p_ok: "list_all path_comp ?p" using q c by simp
  have known: "?v ?p = None \<longleftrightarrow> ?p \<notin> set paths" by (rule view_None [OF S(1)])
  have small: "length paths < 2 ^ 64"
    using Cons.prems(5) length_insert_comps [of t e "c # cs"] unfolding S(1) by (rule le_less_trans [rotated])
  let ?r = "insert_comps e (c # cs) (of_nat i) (join_path q) t"
  have step: "?r = (if cs = [] then
        (case snd t (join_path ?p) of
           Some existing \<Rightarrow> (modify_at existing (attach e) (fst t), snd t)
         | None \<Rightarrow> add_node t (of_nat i) (join_path ?p) (leaf_node e c))
      else
        (case snd t (join_path ?p) of
           Some existing \<Rightarrow> insert_comps e cs existing (join_path ?p) t
         | None \<Rightarrow> insert_comps e cs (of_nat (length paths)) (join_path ?p)
                     (add_node t (of_nat i) (join_path ?p) (dir_node (as_bytes c)))))"
    unfolding insert_comps.simps Let_def join_path_next [OF q] S(1) ..
  show ?case
  proof (cases "?p \<in> set paths")
    case True
    from known_path [OF sh this] obtain j where j: "j < length paths" "paths ! j = ?p"
      "snd t (join_path ?p) = Some (of_nat j)" "?v ?p = Some (info_of (fst t ! j))" .
    show ?thesis
    proof (cases "cs = []")
      case True
      with j(3) step have r: "?r = (modify_at (of_nat j) (attach e) (fst t), snd t)" by simp
      from attach_shape [OF sh j(1) small, where e = e] j(2,4) True show ?thesis
        unfolding r by (intro exI [of _ paths]) simp
    next
      case False
      with j(3) step have r: "?r = insert_comps e cs (of_nat j) (join_path ?p) t" by simp
      from Cons.IH [OF sh j(1,2) c(2)] Cons.prems(5) False j(4) show ?thesis unfolding r by simp
    qed
  next
    case False
    then have fresh: "snd t (join_path ?p) = None" "?v ?p = None" using S(6) [OF p_ok] known by simp_all
    have new: "paths ! i @ [c] \<notin> set paths" using False i by simp
    show ?thesis
    proof (cases "cs = []")
      case True
      with fresh step have r: "?r = add_node t (of_nat i) (join_path ?p) (leaf_node e c)" by simp
      have "length paths + 1 < 2 ^ 64" using Cons.prems(5) unfolding r by (simp add: S(1))
      from add_node_shape [OF sh i(1) c(1) new _ _ this, of "leaf_node e c"] i(2) fresh True show ?thesis
        unfolding r by (intro exI [of _ "paths @ [?p]"]) simp
    next
      case cs: False
      let ?t = "add_node t (of_nat i) (join_path ?p) (dir_node (as_bytes c))"
      from cs fresh step have r: "?r = insert_comps e cs (of_nat (length paths)) (join_path ?p) ?t" by simp
      have "length (fst ?t) \<le> length (fst ?r)" unfolding r by (rule length_insert_comps)
      then have "length paths + 1 < 2 ^ 64" using Cons.prems(5) by (simp add: S(1))
      note A = add_node_shape [OF sh i(1) c(1) new _ _ this, of "dir_node (as_bytes c)"]
      have sh': "shape (paths @ [?p]) ?t" and v': "view (paths @ [?p]) (fst ?t) = ?v(?p \<mapsto> implied_info)"
        using A(1,2) i(2) by simp_all
      from Cons.IH [OF sh' _ _ c(2), of "length paths" ?p] Cons.prems(5) cs fresh show ?thesis
        unfolding r v' by (simp add: fun_upd_def)
    qed
  qed
qed

section \<open>The whole tree\<close>

lemma insert_entry_view:
  assumes "shape paths t" and "length (fst (insert_entry e t)) < 2 ^ 64"
  shows "\<exists>paths'. shape paths' (insert_entry e t) \<and>
    view paths' (fst (insert_entry e t)) = map_comps e (entry_path e) [] (view paths (fst t))"
proof -
  have "0 < length paths" "paths ! 0 = []" using shapeD(3,10) [OF assms(1)] by simp_all
  from insert_comps_view [OF assms(1) this components_ok, of e "hf_name (el_central e)"] assms(2)
  show ?thesis by (simp add: insert_entry_def)
qed

lemma shape_start: "shape [[]] ([dir_node []], [[] \<mapsto> 0])"
proof -
  have "q \<noteq> [] \<Longrightarrow> list_all path_comp q \<Longrightarrow> join_path q \<noteq> []" for q by (simp add: join_path_ne)
  then show ?thesis by (auto simp: shape_def child_ids_def path_name_def)
qed

lemma length_insert_entry: "length (fst t) \<le> length (fst (insert_entry e t))"
  by (simp add: insert_entry_def length_insert_comps)

lemma build_tree_shape:
  assumes "length (build_tree es) < 2 ^ 64"
  obtains paths by_path where "shape paths (build_tree es, by_path)" "view paths (build_tree es) = spec_node es"
proof -
  let ?t = "\<lambda>es. fold insert_entry es ([dir_node []], [[] \<mapsto> 0])"
  have "length (fst (?t es)) < 2 ^ 64 \<Longrightarrow> \<exists>paths. shape paths (?t es) \<and> view paths (fst (?t es)) = spec_node es"
  proof (induction es rule: rev_induct)
    case Nil
    have "view [[]] [dir_node []] = spec_node []"
      by (rule ext) (simp add: view_def spec_node_def)
    with shape_start show ?case by (intro exI [of _ "[[]]"]) (simp add: fun_upd_def)
  next
    case (snoc e es)
    have fold: "?t (es @ [e]) = insert_entry e (?t es)" by simp
    from snoc.prems length_insert_entry have "length (fst (?t es)) < 2 ^ 64"
      unfolding fold by (rule le_less_trans [rotated])
    with snoc.IH obtain paths where sh: "shape paths (?t es)" "view paths (fst (?t es)) = spec_node es" by blast
    from insert_entry_view [OF sh(1)] snoc.prems have
      "\<exists>paths'. shape paths' (?t (es @ [e])) \<and>
        view paths' (fst (?t (es @ [e]))) = map_comps e (entry_path e) [] (spec_node es)"
      unfolding sh(2) [symmetric] fold by blast
    moreover have "map_comps e (entry_path e) [] (spec_node es) = spec_node (es @ [e])"
    proof (cases "entry_path e = []")
      case True
      have "spec_node (es @ [e]) p = spec_node es p" for p
        using True by (auto simp: spec_node_def find_snoc split: option.split)
      then show ?thesis using True by auto
    next
      case False
      then show ?thesis by (intro ext) (simp add: spec_node_snoc)
    qed
    ultimately show ?case by (simp only: simp_thms)
  qed
  with assms that show thesis unfolding build_tree_def by (metis prod.collapse)
qed

lemma as_bytes_inj: "list_all is_scalar s \<Longrightarrow> list_all is_scalar s' \<Longrightarrow> as_bytes s = as_bytes s' \<longleftrightarrow> s = s'"
  by (metis from_utf8_as_bytes option.inject)

definition scalar_path :: "rstring list \<Rightarrow> bool" where
  "scalar_path p \<longleftrightarrow> list_all (list_all is_scalar) p"

definition scalar_names :: "entry_layout list \<Rightarrow> bool" where
  "scalar_names es \<longleftrightarrow> list_all (\<lambda>e. list_all is_scalar (hf_name (el_central e))) es"

lemma spec_scalar:
  assumes "scalar_names es" and "spec_node es p \<noteq> None"
  shows "scalar_path p"
proof (cases "p = []")
  case False
  with assms(2) obtain e where "find (\<lambda>e. prefix p (entry_path e)) es = Some e"
    by (auto simp: spec_node_def split: option.splits)
  then have e: "e \<in> set es" "prefix p (entry_path e)" by (auto simp: find_Some_iff)
  have "set p \<subseteq> set (split_sep (hf_name (el_central e)))"
    using set_mono_prefix [OF e(2)] by (auto simp: components_def)
  then have "set c \<subseteq> set (hf_name (el_central e))" if "c \<in> set p" for c using split_sep_chars that by blast
  then show ?thesis using assms(1) e(1) by (fastforce simp: scalar_path_def scalar_names_def list_all_iff)
qed (simp add: scalar_path_def)

lemma child_of:
  "j \<in> set (child_ids paths q) \<longleftrightarrow> j < length paths \<and> paths ! j \<noteq> [] \<and> butlast (paths ! j) = q"
  by (auto simp: child_ids_def)

lemma children_nth:
  assumes "shape paths (nodes, by_path)" and "i < length nodes"
  shows "nd_children (nodes ! i) = map of_nat (child_ids paths (paths ! i))"
    and "nd_name (nodes ! i) = path_name (paths ! i)"
  using shapeD(1,8,9) [OF assms(1)] assms(2) by (auto simp: list_eq_iff_nth_eq)

lemma unat_child:
  "shape paths (nodes, by_path) \<Longrightarrow> length nodes < 2 ^ 64 \<Longrightarrow> j \<in> set (child_ids paths q) \<Longrightarrow>
     unat (of_nat j :: u64) = j \<and> j < length nodes"
  using shapeD(1) by (fastforce simp: child_of intro!: unat_of_nat64)

end
