(* ===== verification/Vfs.thy ===== *)
theory Vfs
  imports Extract VfsShape
begin

text \<open>
  The file-system view of an archive, from \<open>core/src/vfs.rs\<close>: opening (\<open>ZipVfs::open\<close>), the cached
  content of a node (\<open>content\<close>), and every operation of \<open>impl FileSystem for ZipVfs\<close>. The types of the
  \<open>forensic_vfs\<close> crate are modelled as far as this code builds or matches them: of \<open>FileId\<close> and
  \<open>StreamId\<close> one variant each is used, the others are carried whole with their \<open>{:?}\<close> print as a
  parameter. The mutex serves one call at a time, and \<open>content\<close> holds it over lookup, decoding and
  insertion, so concurrent reads are sequences of reads.
\<close>

section \<open>Identities and errors\<close>

datatype 'o file_id = Opaque u64 | OtherFileId 'o

datatype 's stream_id = DefaultStream | OtherStreamId 's

datatype vfs_error =
    VfsIo rstring io_error
  | VfsBootstrap rstring rstring
  | VfsUnsupported rstring rstring
  | VfsDecode rstring u64 rstring "u8 list"

record ('o, 's) id_debug =
  debug_file_id :: "'o \<Rightarrow> rstring"
  debug_stream_id :: "'s \<Rightarrow> rstring"

fun index_of :: "('o, 's) id_debug \<Rightarrow> 'o file_id \<Rightarrow> (u64, vfs_error) outcome" where
  "index_of D (Opaque n) = Ok n"
| "index_of D (OtherFileId other) = Err (VfsUnsupported (lit ''zip file-id'') (debug_file_id D other))"

fun require_default_stream :: "('o, 's) id_debug \<Rightarrow> 's stream_id \<Rightarrow> (unit, vfs_error) outcome" where
  "require_default_stream D DefaultStream = Ok ()"
| "require_default_stream D (OtherStreamId other) =
     Err (VfsUnsupported (lit ''zip stream'') (debug_stream_id D other))"

fun is_refusal :: "zip_core_error \<Rightarrow> bool" where
  "is_refusal (UnsupportedMethod m) = True"
| "is_refusal (UnsupportedEncryption n r) = True"
| "is_refusal (EncryptedNoPassword n) = True"
| "is_refusal (WrongPassword n) = True"
| "is_refusal (SpannedArchive n d) = True"
| "is_refusal _ = False"

definition vfs_map_err :: "zip_core_error \<Rightarrow> vfs_error" where
  "vfs_map_err e =
     (case e of
        Io source \<Rightarrow> VfsIo (lit ''zip read'') source
      | Format NoEocd \<Rightarrow> VfsBootstrap (lit ''zip mount'')
          (lit ''no End Of Central Directory record (not a ZIP archive)'')
      | _ \<Rightarrow>
          if is_refusal e then VfsUnsupported (lit ''zip'') (display_zip_error e)
          else VfsDecode (lit ''zip'') 0 (display_zip_error e) [])"

section \<open>The file system\<close>

record zip_vfs =
  vz_archive :: zip_archive
  vz_cache :: "u64 \<rightharpoonup> u8 list"
  vz_nodes :: "node list"

definition ZipVfs_open :: "cursor \<Rightarrow> (zip_vfs, vfs_error) outcome" where
  "ZipVfs_open reader =
     and_then (map_err vfs_map_err (ZipArchive_new reader)) (\<lambda>archive0.
     case structural_view archive0 of (v, archive) \<Rightarrow>
       and_then (map_err vfs_map_err v) (\<lambda>layouts.
       Ok \<lparr> vz_archive = archive, vz_cache = Map.empty, vz_nodes = build_tree layouts \<rparr>))"

definition node_of :: "('o, 's) id_debug \<Rightarrow> zip_vfs \<Rightarrow> 'o file_id \<Rightarrow> (node, vfs_error) outcome" where
  "node_of D v fid =
     and_then (index_of D fid) (\<lambda>idx.
       if unat idx < length (vz_nodes v) then Ok (vz_nodes v ! unat idx)
       else Err (VfsUnsupported (lit ''zip file-id'')
         (lit ''Opaque('' @ fmt_dec (unat idx) @ lit '') out of range'')))"

text \<open>\<open>None\<close> is a decoder that never ends.\<close>

definition content ::
  "('h, 'c, 'm, 'd, 'x) externals \<Rightarrow> zip_vfs \<Rightarrow> u64 \<Rightarrow> usize \<Rightarrow> ((u8 list, vfs_error) outcome \<times> zip_vfs) option" where
  "content E v node_id entry_idx =
     (case vz_cache v node_id of
        Some data \<Rightarrow> Some (Ok data, v)
      | None \<Rightarrow>
          (case by_index E (vz_archive v) entry_idx of
             None \<Rightarrow> None
           | Some (Err e) \<Rightarrow> Some (Err (vfs_map_err e), v)
           | Some Panic \<Rightarrow> Some (Panic, v)
           | Some (Ok f) \<Rightarrow>
               (case read_entry E f of
                  None \<Rightarrow> None
                | Some (Err source) \<Rightarrow> Some (Err (VfsIo (lit ''zip read'') source), v)
                | Some Panic \<Rightarrow> Some (Panic, v)
                | Some (Ok bytes) \<Rightarrow>
                    Some (Ok bytes, v\<lparr>vz_cache := (vz_cache v)(node_id \<mapsto> bytes)\<rparr>))))"

section \<open>The operations\<close>

datatype fs_kind = OtherFs

definition vfs_kind :: "zip_vfs \<Rightarrow> fs_kind" where
  "vfs_kind v = OtherFs"

definition vfs_root :: "zip_vfs \<Rightarrow> 'o file_id" where
  "vfs_root v = Opaque 0"

definition ARCHIVE_BLOCK :: u32 where
  "ARCHIVE_BLOCK = 512"

record sectors =
  logical_size :: u32
  physical_size :: u32
  cluster_or_block :: u32

definition sector_sizes :: "zip_vfs \<Rightarrow> sectors" where
  "sector_sizes v =
     \<lparr> logical_size = ARCHIVE_BLOCK, physical_size = ARCHIVE_BLOCK, cluster_or_block = ARCHIVE_BLOCK \<rparr>"

datatype time_zone_policy = Utc

definition timestamp_zone :: "zip_vfs \<Rightarrow> time_zone_policy" where
  "timestamp_zone v = Utc"

definition not_a_directory :: "u64 \<Rightarrow> vfs_error" where
  "not_a_directory idx =
     VfsDecode (lit ''zip'') 0 (lit ''node '' @ fmt_dec (unat idx) @ lit '' is not a directory'') []"

record 'o dir_entry =
  de_name :: "u8 list"
  de_id :: "'o file_id"
  de_kind :: node_kind

fun list_children :: "node list \<Rightarrow> u64 list \<Rightarrow> 'o dir_entry list" where
  "list_children nodes [] = []"
| "list_children nodes (child # rest) =
     (if unat child < length nodes
      then \<lparr> de_name = nd_name (nodes ! unat child), de_id = Opaque child, de_kind = nd_kind (nodes ! unat child) \<rparr>
        # list_children nodes rest
      else list_children nodes rest)"

definition read_dir ::
  "('o, 's) id_debug \<Rightarrow> zip_vfs \<Rightarrow> 'o file_id \<Rightarrow> ('o dir_entry list, vfs_error) outcome" where
  "read_dir D v ino =
     and_then (node_of D v ino) (\<lambda>n.
     if nd_kind n \<noteq> Dir then and_then (index_of D ino) (\<lambda>idx. Err (not_a_directory idx))
     else Ok (list_children (vz_nodes v) (nd_children n)))"

record run_info =
  ri_image_offset :: u64
  ri_len :: u64

definition extents ::
  "('o, 's) id_debug \<Rightarrow> zip_vfs \<Rightarrow> 'o file_id \<Rightarrow> 's stream_id \<Rightarrow> (run_info list, vfs_error) outcome" where
  "extents D v ino stream =
     and_then (node_of D v ino) (\<lambda>n.
     and_then (require_default_stream D stream) (\<lambda>_.
     if nd_size n = 0 then Ok [] else Ok [\<lparr> ri_image_offset = 0, ri_len = nd_size n \<rparr>]))"

fun find_child :: "node list \<Rightarrow> u64 list \<Rightarrow> u8 list \<Rightarrow> u64 option" where
  "find_child nodes [] name = None"
| "find_child nodes (child # rest) name =
     (if unat child < length nodes \<and> nd_name (nodes ! unat child) = name then Some child
      else find_child nodes rest name)"

definition vfs_lookup ::
  "('o, 's) id_debug \<Rightarrow> zip_vfs \<Rightarrow> 'o file_id \<Rightarrow> u8 list \<Rightarrow> ('o file_id option, vfs_error) outcome" where
  "vfs_lookup D v parent name =
     and_then (node_of D v parent) (\<lambda>n.
     if nd_kind n \<noteq> Dir then and_then (index_of D parent) (\<lambda>idx. Err (not_a_directory idx))
     else Ok (map_option Opaque (find_child (vz_nodes v) (nd_children n) name)))"

text \<open>The constant fields are \<open>allocated\<close>, \<open>nlink\<close> 1, no owner, mode, streams or link target.\<close>

record fs_meta =
  fm_ino :: u64
  fm_kind :: node_kind
  fm_size :: u64
  fm_modified :: "time_stamp option"
  fm_accessed :: "time_stamp option"
  fm_changed :: "time_stamp option"
  fm_born :: "time_stamp option"

definition meta :: "('o, 's) id_debug \<Rightarrow> zip_vfs \<Rightarrow> 'o file_id \<Rightarrow> (fs_meta, vfs_error) outcome" where
  "meta D v ino =
     and_then (index_of D ino) (\<lambda>idx.
     and_then (node_of D v ino) (\<lambda>n.
     Ok \<lparr> fm_ino = idx, fm_kind = nd_kind n, fm_size = nd_size n, fm_modified = nd_modified n,
          fm_accessed = nd_accessed n, fm_changed = None, fm_born = nd_born n \<rparr>))"

text \<open>The bytes written to the caller's buffer of \<open>buf_len\<close> bytes; their number is the result.\<close>

definition vfs_read_at ::
  "('h, 'c, 'm, 'd, 'x) externals \<Rightarrow> ('o, 's) id_debug \<Rightarrow> zip_vfs \<Rightarrow> 'o file_id \<Rightarrow> 's stream_id \<Rightarrow> u64 \<Rightarrow> usize
     \<Rightarrow> ((u8 list, vfs_error) outcome \<times> zip_vfs) option" where
  "vfs_read_at E D v ino stream off buf_len =
     (case and_then (index_of D ino) (\<lambda>idx.
           and_then (require_default_stream D stream) (\<lambda>_.
           and_then (node_of D v ino) (\<lambda>n. Ok (idx, nd_kind n, nd_entry_idx n)))) of
        Err e \<Rightarrow> Some (Err e, v)
      | Panic \<Rightarrow> Some (Panic, v)
      | Ok (idx, kind, entry) \<Rightarrow>
          if kind \<noteq> RegularFile then Some (Ok [], v)
          else
            (case entry of
               None \<Rightarrow> Some (Ok [], v)
             | Some entry_idx \<Rightarrow>
                 (case content E v idx entry_idx of
                    None \<Rightarrow> None
                  | Some (Err e, v') \<Rightarrow> Some (Err e, v')
                  | Some (Panic, v') \<Rightarrow> Some (Panic, v')
                  | Some (Ok data, v') \<Rightarrow>
                      (let start = unat off in
                       if length data \<le> start then Some (Ok [], v')
                       else let n = min (length data - start) buf_len in
                         Some (Ok (take n (drop start data)), v')))))"

definition read_link :: "('o, 's) id_debug \<Rightarrow> zip_vfs \<Rightarrow> 'o file_id \<Rightarrow> usize \<Rightarrow> (u8 list, vfs_error) outcome" where
  "read_link D v ino cap = and_then (node_of D v ino) (\<lambda>_. Ok [])"

definition deleted :: "zip_vfs \<Rightarrow> (unit list, vfs_error) outcome" where
  "deleted v = Ok []"

definition unallocated :: "zip_vfs \<Rightarrow> (run_info list, vfs_error) outcome" where
  "unallocated v = Ok []"

end
