(* ===== verification/VfsProps.thy ===== *)
theory VfsProps
  imports Vfs
begin

text \<open>
  What the file-system view shows of a listing: its tree is the prefix tree of the entry names, and
  looking a path up component by component finds what the specification says of the path, as long as
  node ids do not wrap and the names are valid. \<open>VfsSize\<close> shows that they always are.
\<close>

section \<open>The tree\<close>

lemma child_paths:
  assumes sh: "shape paths (nodes, by_path)" and j: "j \<in> set (child_ids paths q)"
  shows "paths ! j = q @ [last (paths ! j)]" and "0 < j"
proof -
  have ne: "paths ! j \<noteq> []" "butlast (paths ! j) = q" using j by (simp_all add: child_of)
  from append_butlast_last_id [OF ne(1)] show "paths ! j = q @ [last (paths ! j)]" unfolding ne(2) by simp
  show "0 < j" using ne(1) shapeD(3) [OF sh] by (cases j) simp_all
qed

lemma scalar_last: "scalar_path p \<Longrightarrow> p \<noteq> [] \<Longrightarrow> list_all is_scalar (last p)"
  using last_in_set [of p] by (simp add: scalar_path_def list_all_iff del: last_in_set)

lemma children_distinct_names:
  assumes sh: "shape paths (nodes, by_path)" and sc: "\<forall>p \<in> set paths. scalar_path p"
    and j: "j \<in> set (child_ids paths q)" "k \<in> set (child_ids paths q)"
    and eq: "nd_name (nodes ! j) = nd_name (nodes ! k)"
  shows "j = k"
proof -
  have lt: "j < length paths" "k < length paths" using j by (simp_all add: child_of)
  have ne: "paths ! j \<noteq> []" "paths ! k \<noteq> []" using j by (simp_all add: child_of)
  have "list_all is_scalar (last (paths ! j))" "list_all is_scalar (last (paths ! k))"
    using sc lt ne by (simp_all add: scalar_last)
  moreover have "as_bytes (last (paths ! j)) = as_bytes (last (paths ! k))"
    using eq lt ne children_nth(2) [OF sh] shapeD(1) [OF sh] by (simp add: path_name_def)
  ultimately have "last (paths ! j) = last (paths ! k)" by (simp add: as_bytes_inj)
  with child_paths [OF sh j(1)] child_paths [OF sh j(2)] have "paths ! j = paths ! k" by metis
  with lt shapeD(2) [OF sh] show ?thesis by (simp add: nth_eq_iff_index_eq)
qed

lemma view_paths_scalar:
  assumes "shape paths (nodes, by_path)" and "view paths nodes = spec_node es" and "scalar_names es"
  shows "\<forall>p \<in> set paths. scalar_path p"
proof
  fix p assume "p \<in> set paths"
  then have "view paths nodes p \<noteq> None" using view_None shapeD(1) [OF assms(1)] by fastforce
  with assms(2,3) show "scalar_path p" by (simp add: spec_scalar)
qed

text \<open>The children of a node come later, in order, under distinct names.\<close>

lemma node_children:
  assumes sh: "shape paths (nodes, by_path)" and vw: "view paths nodes = spec_node es"
    and sc: "scalar_names es" and small: "length nodes < 2 ^ 64" and i: "i < length nodes"
  shows "sorted_wrt (<) (map unat (nd_children (nodes ! i))) \<and>
    (\<forall>c \<in> set (nd_children (nodes ! i)). i < unat c \<and> unat c < length nodes) \<and>
    distinct (map (\<lambda>c. nd_name (nodes ! unat c)) (nd_children (nodes ! i)))"
proof -
  note S = shapeD [OF sh]
  have len: "length paths = length nodes" using S(1) by simp
  let ?ids = "child_ids paths (paths ! i)"
  note kids = children_nth(1) [OF sh i]
  note un = unat_child [OF sh small, of _ "paths ! i"]
  have ids: "map unat (nd_children (nodes ! i)) = ?ids"
    unfolding kids map_map by (rule map_idI) (simp add: un)
  have below: "i < j" if j: "j \<in> set ?ids" for j
  proof -
    have jl: "j < length paths" using j by (simp add: child_of)
    from S(7) [OF jl child_paths(2) [OF sh j]] obtain k where "k < j" "paths ! k = paths ! i"
      using j by (auto simp: child_of)
    moreover from this have "k = i" using jl i len S(2) by (simp add: nth_eq_iff_index_eq)
    ultimately show ?thesis by simp
  qed
  have "inj_on (\<lambda>j. nd_name (nodes ! j)) (set ?ids)"
    using children_distinct_names [OF sh view_paths_scalar [OF sh vw sc]] by (auto intro: inj_onI)
  then have "distinct (map (\<lambda>j. nd_name (nodes ! j)) ?ids)" by (simp add: distinct_map child_ids_def)
  then have names: "distinct (map (\<lambda>c. nd_name (nodes ! unat c)) (nd_children (nodes ! i)))"
    unfolding ids [symmetric] by (simp add: comp_def)
  have "\<forall>c \<in> set (nd_children (nodes ! i)). i < unat c \<and> unat c < length nodes"
    unfolding kids using below un by auto
  moreover have "sorted_wrt (<) ?ids" unfolding child_ids_def by (rule sorted_wrt_filter) simp
  ultimately show ?thesis using names unfolding ids by blast
qed

text \<open>Every node but the root is the child of exactly one.\<close>

lemma node_parent:
  assumes sh: "shape paths (nodes, by_path)" and small: "length nodes < 2 ^ 64"
    and j: "0 < j" "j < length nodes"
  shows "\<exists>!i. i < length nodes \<and> of_nat j \<in> set (nd_children (nodes ! i))"
proof -
  note S = shapeD [OF sh]
  have len: "length paths = length nodes" "0 < length paths" using S(1,10) by auto
  have child: "of_nat j \<in> set (nd_children (nodes ! i)) \<longleftrightarrow> butlast (paths ! j) = paths ! i" if i: "i < length nodes" for i
  proof -
    have "of_nat j \<in> set (nd_children (nodes ! i)) \<longleftrightarrow> j \<in> set (child_ids paths (paths ! i))"
    proof
      assume "of_nat j \<in> set (nd_children (nodes ! i))"
      then obtain k where k: "k \<in> set (child_ids paths (paths ! i))" "(of_nat j :: u64) = of_nat k"
        unfolding children_nth(1) [OF sh i] by auto
      have "unat (of_nat j :: u64) = j" by (rule unat_of_nat64) (use j(2) small in simp)
      with k unat_child [OF sh small k(1)] show "j \<in> set (child_ids paths (paths ! i))" by simp
    qed (simp add: children_nth(1) [OF sh i])
    moreover have "paths ! j \<noteq> []"
      using S(2,3) j len by (metis nth_eq_iff_index_eq not_less_zero)
    ultimately show ?thesis using j(2) len by (simp add: child_of)
  qed
  from S(7) j len obtain i where "i < j" "paths ! i = butlast (paths ! j)" by auto
  with j child len S(2) show ?thesis
    by (intro ex1I [of _ i]) (auto simp: nth_eq_iff_index_eq)
qed

lemma tree_invariant:
  assumes "length (build_tree es) < 2 ^ 64" and "scalar_names es"
  defines "nodes \<equiv> build_tree es"
  shows "nodes \<noteq> [] \<and> nd_kind (nodes ! 0) = Dir \<and>
    (\<forall>i < length nodes. sorted_wrt (<) (map unat (nd_children (nodes ! i))) \<and>
      (\<forall>c \<in> set (nd_children (nodes ! i)). i < unat c \<and> unat c < length nodes) \<and>
      distinct (map (\<lambda>c. nd_name (nodes ! unat c)) (nd_children (nodes ! i)))) \<and>
    (\<forall>j. 0 < j \<and> j < length nodes \<longrightarrow> (\<exists>!i. i < length nodes \<and> of_nat j \<in> set (nd_children (nodes ! i))))"
proof -
  from build_tree_shape [OF assms(1)] obtain paths by_path where
    sh: "shape paths (nodes, by_path)" and vw: "view paths nodes = spec_node es" unfolding nodes_def .
  note S = shapeD [OF sh]
  have len: "length paths = length nodes" using S(1) by simp
  have small: "length nodes < 2 ^ 64" using assms(1) by (simp add: nodes_def)
  have ne: "nodes \<noteq> []" "0 < length paths" using S(10) len by auto
  have "view paths nodes (paths ! 0) = Some (info_of (nodes ! 0))" by (rule view_nth [OF S(2) len ne(2)])
  then have root: "nd_kind (nodes ! 0) = Dir"
    unfolding S(3) vw by (simp add: spec_node_def implied_info_def info_of_def)
  from ne(1) root node_children [OF sh vw assms(2) small] node_parent [OF sh small] show ?thesis by blast
qed

section \<open>Looking up paths\<close>

lemma find_child_Some:
  assumes "k \<in> set ks" and "unat k < length nodes" and "nd_name (nodes ! unat k) = name"
    and "\<forall>k' \<in> set ks. k' \<noteq> k \<longrightarrow> unat k' < length nodes \<longrightarrow> nd_name (nodes ! unat k') \<noteq> name"
  shows "find_child nodes ks name = Some k"
  using assms(1,4)
proof (induction ks)
  case (Cons a ks)
  show ?case
  proof (cases "unat a < length nodes \<and> nd_name (nodes ! unat a) = name")
    case True
    have "a = k"
    proof (rule ccontr)
      assume "a \<noteq> k"
      with Cons.prems(2) True show False by simp
    qed
    with True show ?thesis by simp
  next
    case False
    then have "k \<in> set ks" using Cons.prems(1) assms(2,3) by auto
    with Cons.IH Cons.prems(2) have "find_child nodes ks name = Some k" by simp
    with False show ?thesis by auto
  qed
qed simp

lemma find_child_None:
  "(\<forall>k \<in> set ks. unat k < length nodes \<longrightarrow> nd_name (nodes ! unat k) \<noteq> name) \<Longrightarrow> find_child nodes ks name = None"
  by (induction ks) auto

lemma find_child_path:
  assumes sh: "shape paths (nodes, by_path)" and small: "length nodes < 2 ^ 64" and i: "i < length nodes"
    and sc: "\<forall>p \<in> set paths. scalar_path p" and c: "list_all is_scalar c"
  shows "j < length nodes \<Longrightarrow> paths ! j = paths ! i @ [c] \<Longrightarrow>
      find_child nodes (nd_children (nodes ! i)) (as_bytes c) = Some (of_nat j)"
    and "paths ! i @ [c] \<notin> set paths \<Longrightarrow> find_child nodes (nd_children (nodes ! i)) (as_bytes c) = None"
proof -
  note S = shapeD [OF sh]
  have len: "length paths = length nodes" using S(1) by simp
  let ?ids = "child_ids paths (paths ! i)"
  note kids = children_nth(1) [OF sh i] and un = unat_child [OF sh small, of _ "paths ! i"]
  have name: "nd_name (nodes ! k) = as_bytes c \<longleftrightarrow> paths ! k = paths ! i @ [c]" if k: "k \<in> set ?ids" for k
  proof -
    have kl: "k < length paths" "paths ! k \<noteq> []" using k by (simp_all add: child_of)
    have "nd_name (nodes ! k) = as_bytes (last (paths ! k))"
      using children_nth(2) [OF sh, of k] kl len by (simp add: path_name_def)
    moreover have "list_all is_scalar (last (paths ! k))" using sc kl by (simp add: scalar_last)
    ultimately have "nd_name (nodes ! k) = as_bytes c \<longleftrightarrow> last (paths ! k) = c" using c by (simp add: as_bytes_inj)
    also have "\<dots> \<longleftrightarrow> paths ! k = paths ! i @ [c]" using child_paths(1) [OF sh k] by (metis last_snoc)
    finally show ?thesis .
  qed
  show "find_child nodes (nd_children (nodes ! i)) (as_bytes c) = Some (of_nat j)"
    if j: "j < length nodes" "paths ! j = paths ! i @ [c]"
  proof (rule find_child_Some)
    have jc: "j \<in> set ?ids" using j len by (simp add: child_of)
    then show "of_nat j \<in> set (nd_children (nodes ! i))" unfolding kids by simp
    show "unat (of_nat j :: u64) < length nodes" "nd_name (nodes ! unat (of_nat j :: u64)) = as_bytes c"
      using un [OF jc] name [OF jc] j by simp_all
    show "\<forall>k' \<in> set (nd_children (nodes ! i)). k' \<noteq> of_nat j \<longrightarrow> unat k' < length nodes \<longrightarrow>
        nd_name (nodes ! unat k') \<noteq> as_bytes c"
    proof (intro ballI impI notI)
      fix k' assume "k' \<in> set (nd_children (nodes ! i))" and ne: "k' \<noteq> of_nat j"
        and n: "nd_name (nodes ! unat k') = as_bytes c"
      then obtain k where k: "k \<in> set ?ids" "k' = of_nat k" unfolding kids by auto
      with n un [OF k(1)] name [OF k(1)] have "paths ! k = paths ! j" "k < length paths" using j(2) len by simp_all
      then have "k = j" using S(2) j(1) len by (simp add: nth_eq_iff_index_eq)
      with k(2) ne show False by simp
    qed
  qed
  show "find_child nodes (nd_children (nodes ! i)) (as_bytes c) = None" if new: "paths ! i @ [c] \<notin> set paths"
  proof (rule find_child_None, intro ballI impI)
    fix k' assume "k' \<in> set (nd_children (nodes ! i))"
    then obtain k where k: "k \<in> set ?ids" "k' = of_nat k" unfolding kids by auto
    then have "paths ! k \<in> set paths" by (simp add: child_of)
    with new name [OF k(1)] un [OF k(1)] k(2) show "nd_name (nodes ! unat k') \<noteq> as_bytes c" by force
  qed
qed

fun resolve ::
  "('o, 's) id_debug \<Rightarrow> zip_vfs \<Rightarrow> 'o file_id \<Rightarrow> rstring list \<Rightarrow> ('o file_id option, vfs_error) outcome" where
  "resolve D v fid [] = Ok (Some fid)"
| "resolve D v fid (c # cs) =
     and_then (vfs_lookup D v fid (as_bytes c)) (\<lambda>r.
       case r of None \<Rightarrow> Ok None | Some child \<Rightarrow> resolve D v child cs)"

definition is_file_path :: "entry_layout list \<Rightarrow> rstring list \<Rightarrow> bool" where
  "is_file_path es p \<longleftrightarrow> (case spec_node es p of None \<Rightarrow> False | Some i \<Rightarrow> ni_kind i = RegularFile)"

lemma lookup_at:
  assumes "i < length (vz_nodes v)" and "length (vz_nodes v) < 2 ^ 64"
  shows "vfs_lookup D v (Opaque (of_nat i)) name =
    (if nd_kind (vz_nodes v ! i) \<noteq> Dir then Err (not_a_directory (of_nat i))
     else Ok (map_option Opaque (find_child (vz_nodes v) (nd_children (vz_nodes v ! i)) name)))"
proof -
  have "unat (of_nat i :: u64) = i" by (rule unat_of_nat64) (use assms in simp)
  then show ?thesis using assms(1) by (simp add: vfs_lookup_def node_of_def)
qed

lemma strict_prefix_Cons_cases:
  "(\<exists>r. strict_prefix r (c # cs) \<and> P r) \<longleftrightarrow> P [] \<or> (\<exists>r. strict_prefix r cs \<and> P (c # r))"
proof
  assume "\<exists>r. strict_prefix r (c # cs) \<and> P r"
  then obtain r where r: "strict_prefix r (c # cs)" "P r" by blast
  then show "P [] \<or> (\<exists>r. strict_prefix r cs \<and> P (c # r))" by (cases r) auto
next
  assume "P [] \<or> (\<exists>r. strict_prefix r cs \<and> P (c # r))"
  then show "\<exists>r. strict_prefix r (c # cs) \<and> P r"
  proof
    assume "\<exists>r. strict_prefix r cs \<and> P (c # r)"
    then obtain r where "strict_prefix (c # r) (c # cs)" "P (c # r)" by auto
    then show ?thesis by blast
  qed (auto intro: exI [of _ "[]"])
qed

lemma spec_None_iff: "spec_node es p = None \<longleftrightarrow> p \<noteq> [] \<and> (\<forall>e \<in> set es. \<not> prefix p (entry_path e))"
proof -
  have "spec_node es p = None \<longleftrightarrow> p \<noteq> [] \<and> find (\<lambda>e. prefix p (entry_path e)) es = None"
    by (simp add: spec_node_def split: option.split)
  then show ?thesis by (auto simp: find_None_iff)
qed

lemma spec_None_append: "spec_node es p = None \<Longrightarrow> spec_node es (p @ r) = None"
  unfolding spec_None_iff by (auto dest: append_prefixD)

text \<open>From the node of a path on: the walk fails at the first file on the way, else finds the path.\<close>

lemma resolve_from:
  assumes sh: "shape paths (vz_nodes v, by_path)" and small: "length (vz_nodes v) < 2 ^ 64"
    and sc: "\<forall>p \<in> set paths. scalar_path p" and vw: "view paths (vz_nodes v) = spec_node es"
    and i: "i < length (vz_nodes v)" and cs: "scalar_path cs"
  shows "((\<exists>r. strict_prefix r cs \<and> is_file_path es (paths ! i @ r)) \<longrightarrow>
      (\<exists>e. resolve D v (Opaque (of_nat i)) cs = Err e)) \<and>
    ((\<nexists>r. strict_prefix r cs \<and> is_file_path es (paths ! i @ r)) \<longrightarrow>
      (paths ! i @ cs \<notin> set paths \<longrightarrow> resolve D v (Opaque (of_nat i)) cs = Ok None) \<and>
      (\<forall>j < length (vz_nodes v). paths ! j = paths ! i @ cs \<longrightarrow>
         resolve D v (Opaque (of_nat i)) cs = Ok (Some (Opaque (of_nat j)))))"
  using i cs
proof (induction cs arbitrary: i)
  case Nil
  note S = shapeD [OF sh]
  have "paths ! i \<in> set paths" using Nil(1) S(1) by simp
  moreover have "j = i" if "j < length (vz_nodes v)" "paths ! j = paths ! i" for j
    using that Nil(1) S(1,2) by (simp add: nth_eq_iff_index_eq)
  ultimately show ?case by auto
next
  case (Cons c cs)
  note S = shapeD [OF sh] and i = Cons.prems(1)
  have len: "length paths = length (vz_nodes v)" using S(1) by simp
  have c: "list_all is_scalar c" "scalar_path cs" using Cons.prems(2) by (simp_all add: scalar_path_def)
  let ?p = "paths ! i @ [c]"
  have here: "is_file_path es (paths ! i) \<longleftrightarrow> nd_kind (vz_nodes v ! i) \<noteq> Dir"
    using view_nth [OF S(2) len, of i] i len
    by (cases "nd_kind (vz_nodes v ! i)") (simp_all add: is_file_path_def vw info_of_def)
  have split: "(\<exists>r. strict_prefix r (c # cs) \<and> is_file_path es (paths ! i @ r)) \<longleftrightarrow>
      is_file_path es (paths ! i) \<or> (\<exists>r. strict_prefix r cs \<and> is_file_path es (?p @ r))"
    by (simp add: strict_prefix_Cons_cases [where P = "\<lambda>r. is_file_path es (paths ! i @ r)"])
  note lookup = lookup_at [OF i small, of D "as_bytes c"]
  note found = find_child_path [OF sh small i sc c(1)]
  show ?case
  proof (cases "is_file_path es (paths ! i)")
    case True
    with here lookup show ?thesis unfolding split by simp
  next
    case dir: False
    show ?thesis
    proof (cases "?p \<in> set paths")
      case True
      then obtain j where j: "j < length (vz_nodes v)" "paths ! j = ?p" using len by (auto simp: in_set_conv_nth)
      have "resolve D v (Opaque (of_nat i)) (c # cs) = resolve D v (Opaque (of_nat j)) cs"
        using lookup here dir found(1) [OF j] by simp
      with Cons.IH [OF j(1) c(2)] dir show ?thesis unfolding split j(2) by simp
    next
      case False
      have none: "resolve D v (Opaque (of_nat i)) (c # cs) = Ok None"
        using lookup here dir found(2) [OF False] by simp
      have below: "?p @ r \<notin> set paths" for r
        using False spec_None_append view_None [OF len] unfolding vw by blast
      then have "\<not> is_file_path es (?p @ r)" for r
        using view_None [OF len, of "?p @ r"] vw by (simp add: is_file_path_def)
      moreover have "paths ! i @ c # cs \<notin> set paths" using below [of cs] by simp
      ultimately show ?thesis unfolding split using none dir len by (metis nth_mem)
    qed
  qed
qed

lemma paths_resolved:
  assumes "vz_nodes v = build_tree es" and "length (build_tree es) < 2 ^ 64"
    and "scalar_names es" and "scalar_path p"
  shows "if \<exists>q. strict_prefix q p \<and> is_file_path es q then \<exists>e. resolve D v (vfs_root v) p = Err e
    else case spec_node es p of
      None \<Rightarrow> resolve D v (vfs_root v) p = Ok None
    | Some info \<Rightarrow> \<exists>i. resolve D v (vfs_root v) p = Ok (Some (Opaque i)) \<and>
        unat i < length (vz_nodes v) \<and> info_of (vz_nodes v ! unat i) = info"
proof -
  from build_tree_shape [OF assms(2)] obtain paths by_path where
    sh: "shape paths (vz_nodes v, by_path)" and vw: "view paths (vz_nodes v) = spec_node es"
    unfolding assms(1) .
  note S = shapeD [OF sh]
  have len: "length paths = length (vz_nodes v)" using S(1) by simp
  have small: "length (vz_nodes v) < 2 ^ 64" using assms(1,2) by simp
  have zero: "0 < length (vz_nodes v)" using S(10) len by (cases paths) auto
  have root: "vfs_root v = Opaque (of_nat 0)" by (simp add: vfs_root_def)
  note walk = resolve_from [OF sh small view_paths_scalar [OF sh vw assms(3)] vw zero assms(4), of D,
      unfolded S(3) append_Nil, folded root]
  show ?thesis
  proof (cases "\<exists>q. strict_prefix q p \<and> is_file_path es q")
    case True
    with walk show ?thesis by simp
  next
    case False
    show ?thesis
    proof (cases "spec_node es p")
      case None
      then have "p \<notin> set paths" using view_None [OF len, of p] vw by simp
      with walk False None show ?thesis by simp
    next
      case (Some info)
      then have "p \<in> set paths" using view_None [OF len, of p] vw by simp
      then obtain j where j: "j < length (vz_nodes v)" "paths ! j = p" using len by (auto simp: in_set_conv_nth)
      have un: "unat (of_nat j :: u64) = j" by (rule unat_of_nat64) (use j(1) small in simp)
      from view_nth [OF S(2) len, of j] j len vw Some have "info_of (vz_nodes v ! j) = info" by simp
      moreover from walk False j have "resolve D v (vfs_root v) p = Ok (Some (Opaque (of_nat j)))" by blast
      ultimately show ?thesis using False Some j(1) un by (auto intro: exI [of _ "of_nat j"])
    qed
  qed
qed

end
