(* ===== verification/VfsSize.thy ===== *)
theory VfsSize
  imports VfsProps SampleArchive
begin

text \<open>
  The node table of an opened archive: the entry names are bounded by the 16-bit length field of the
  directory and the entry cap bounds their number, so node ids never wrap; with that and the validity of
  the names the properties of the tree hold of every view without a side condition.
\<close>

section \<open>Short names\<close>

lemma length_from_utf8_lossy: "length (from_utf8_lossy bs) \<le> length bs"
proof (induction bs rule: from_utf8_lossy.induct)
  case (1 bs)
  show ?case
  proof (cases "bs = []")
    case False
    obtain r k where n: "utf8_next bs = (r, k)" by (rule prod.exhaust)
    have "length (from_utf8_lossy (drop k bs)) \<le> length bs - k" using 1 [OF False n [symmetric]] by simp
    moreover have "0 < length bs" "0 < k" using False utf8_next_pos [of bs] n by simp_all
    ultimately have "Suc (length (from_utf8_lossy (drop k bs))) \<le> length bs" by linarith
    then show ?thesis using False n by (subst from_utf8_lossy.simps) simp
  qed simp
qed

definition short_name :: "central_entry \<Rightarrow> bool" where
  "short_name m \<longleftrightarrow> length (ce_name m) < 65536"

lemma make_entry_short: "make_entry f name extra = Ok e \<Longrightarrow> length name < 65536 \<Longrightarrow> short_name e"
  using length_from_utf8_lossy [of name] by (auto simp: make_entry_def short_name_def decode_name_def)

lemma parse_cd_fixed_short: "yields (\<lambda>f. fx_name_len f < 65536) (parse_cd_fixed :: (reader, cd_fixed, format_error) act)"
proof -
  have "unat (w :: u16) < 65536" for w by simp
  then show ?thesis unfolding parse_cd_fixed_def by (intro yields_seq yields_ret) simp
qed

lemma parse_cd_header_short: "yields short_name (parse_cd_header n)"
proof -
  have "short_name e" if "parse_cd_header n r = (Ok e, r')" for r r' e
  proof -
    from that obtain f name extra r1 r2 r3 r4 where
      f: "parse_cd_fixed r1 = (Ok f, r2)" and name: "Reader_take (fx_name_len f) r3 = (Ok name, r4)"
      and e: "make_entry f name extra = Ok e"
      by (auto simp: parse_cd_header_def seq_eq_Ok split: if_splits)
    from yieldsD [OF parse_cd_fixed_short f] Reader_take_progress [OF name] show ?thesis
      by (intro make_entry_short [OF e]) simp
  qed
  then show ?thesis by (auto simp: yields_def)
qed

lemma parse_cd_loop_short:
  "parse_cd_loop n k r = (Ok es, r') \<Longrightarrow> list_all short_name es \<and> length es = k"
proof (induction k arbitrary: r es r')
  case (Suc k)
  then show ?case using yieldsD [OF parse_cd_header_short] by (fastforce simp: seq_eq_Ok)
qed simp

lemma shift_entries_short:
  "shift_entries p es = Ok es' \<Longrightarrow> list_all short_name es \<Longrightarrow> list_all short_name es' \<and> length es' = length es"
  by (auto simp: shift_entries_Ok list_all_iff short_name_def)

lemma archive_names_short:
  assumes "ZipArchive_new c = Ok a"
  shows "list_all short_name (za_entries a)" and "length (za_entries a) \<le> 16000000"
proof -
  from assms obtain r flen c1 where "parse_central_directory flen c1 = (Ok (za_entries a, za_summary a), r)"
    by (auto simp: ZipArchive_new_def seq_eq_Ok split: prod.splits outcome.splits)
  then obtain loc c2 where l: "locate_central_directory flen c1 = (Ok loc, c2)"
    and rd: "read_central_directory flen loc c2 = (Ok (za_entries a, za_summary a), r)"
    by (auto simp: parse_central_directory_def seq_eq_Ok)
  from rd obtain cd es k where "parse_cd_entries cd (lo_total_entries loc) = Ok (es, k)"
    "(if 0 < lo_prefix loc then shift_entries (lo_prefix loc) es else Ok es) = Ok (za_entries a)"
    by (auto simp: read_central_directory_def seq_eq_Ok simp del: shift_entries.simps)
  then have "list_all short_name (za_entries a) \<and> length (za_entries a) = lo_total_entries loc"
    using parse_cd_loop_short shift_entries_short
    by (fastforce simp: parse_cd_entries_def split: if_splits prod.splits)
  with locate_bounds(2) [OF l] show "list_all short_name (za_entries a)" and "length (za_entries a) \<le> 16000000"
    by simp_all
qed

section \<open>The number of nodes\<close>

lemma insert_comps_at_most: "length (fst (insert_comps e cs parent acc t)) \<le> length (fst t) + length cs"
proof (induction cs arbitrary: parent acc t)
  case (Cons c cs)
  let ?acc = "(if acc = [] then acc else acc @ [slash]) @ c"
  show ?case
  proof (cases "cs = []")
    case True
    then show ?thesis by (simp add: Let_def split: option.split)
  next
    case False
    show ?thesis
    proof (cases "snd t ?acc")
      case None
      with False Cons.IH [of "of_nat (length (fst t))" ?acc "add_node t parent ?acc (dir_node (as_bytes c))"]
      show ?thesis by (simp add: Let_def)
    next
      case (Some i)
      with False Cons.IH [of i ?acc t] show ?thesis by (simp add: Let_def)
    qed
  qed
qed simp

lemma length_split_sep: "length (filter (\<lambda>c. c \<noteq> []) (split_sep s)) \<le> length s"
proof (induction s)
  case (Cons c s)
  then show ?case by (cases "split_sep s") (auto split: if_splits)
qed simp

lemma length_components: "length (components s) \<le> length s"
proof -
  have "length (filter (\<lambda>c. c \<noteq> [] \<and> P c) cs) \<le> length (filter (\<lambda>c. c \<noteq> []) cs)" for P and cs :: "rstring list"
    by (induction cs) auto
  from this [of "\<lambda>c. c \<noteq> lit ''.''" "split_sep s"] length_split_sep [of s]
  show ?thesis unfolding components_def by linarith
qed

lemma length_build_tree:
  assumes "\<forall>e \<in> set es. length (entry_path e) \<le> k"
  shows "length (build_tree es) \<le> Suc (length es * k)"
proof -
  have "length (fst (fold insert_entry es t)) \<le> length (fst t) + length es * k" for t
    using assms
  proof (induction es arbitrary: t)
    case (Cons e es)
    have "length (fst (insert_entry e t)) \<le> length (fst t) + k"
      using insert_comps_at_most [of e "entry_path e" 0 "[]" t] Cons.prems by (simp add: insert_entry_def)
    with Cons.IH [of "insert_entry e t"] Cons.prems show ?case by simp
  qed simp
  from this [of "([dir_node []], [[] \<mapsto> 0])"] show ?thesis by (simp add: build_tree_def)
qed

section \<open>Every view\<close>

lemma central_name: "hf_name (central_fields m) = ce_name m"
  by (simp add: central_fields_def)

lemma ZipVfs_open_Ok:
  assumes "ZipVfs_open c = Ok v"
  obtains a0 layouts a where "ZipArchive_new c = Ok a0" "structural_view a0 = (Ok layouts, a)"
    "v = \<lparr> vz_archive = a, vz_cache = Map.empty, vz_nodes = build_tree layouts \<rparr>"
proof -
  from assms obtain a0 where a0: "ZipArchive_new c = Ok a0" by (auto simp: ZipVfs_open_def)
  obtain r a where r: "structural_view a0 = (r, a)" by (rule prod.exhaust)
  with assms a0 that show thesis by (cases r) (auto simp: ZipVfs_open_def)
qed

lemma opened_view:
  assumes "ZipVfs_open c = Ok v"
  obtains a es a' where "ZipArchive_new c = Ok a" "structural_view a = (Ok es, a')"
    "v = \<lparr> vz_archive = a', vz_cache = Map.empty, vz_nodes = build_tree es \<rparr>"
    "scalar_names es" "length (build_tree es) < 2 ^ 41"
proof -
  from assms obtain a es a' where a: "ZipArchive_new c = Ok a" and sv: "structural_view a = (Ok es, a')"
    and v: "v = \<lparr> vz_archive = a', vz_cache = Map.empty, vz_nodes = build_tree es \<rparr>"
    by (rule ZipVfs_open_Ok)
  note rows = structural_view_rows [OF sv]
  have name: "\<exists>m \<in> set (za_entries a). hf_name (el_central e) = ce_name m" if "e \<in> set es" for e
  proof -
    from that obtain j where j: "j < length es" "e = es ! j" by (auto simp: in_set_conv_nth)
    with rows show ?thesis by (intro bexI [of _ "za_entries a ! j"]) (simp_all add: central_fields_def)
  qed
  have "length (entry_path e) \<le> 65535" if "e \<in> set es" for e
  proof -
    from name [OF that] archive_names_short(1) [OF a] have "length (hf_name (el_central e)) < 65536"
      by (auto simp: list_all_iff short_name_def)
    with length_components [of "hf_name (el_central e)"] show ?thesis by simp
  qed
  then have "length (build_tree es) \<le> Suc (length es * 65535)" by (intro length_build_tree) simp
  also have "length es * 65535 \<le> 16000000 * 65535" using archive_names_short(2) [OF a] rows(1) by simp
  finally have "length (build_tree es) < 2 ^ 41" by simp
  moreover have "scalar_names es"
    using name archive_string_entry [OF a] by (fastforce simp: scalar_names_def list_all_iff string_entry_def)
  ultimately show thesis using that a sv v by blast
qed

text \<open>
  C13: The node table of every archive that opens is a tree rooted at node 0: the children of a node are listed once each, in
  increasing order, and come after it in the table, every other node is the child of exactly one node,
  no two
  children of a node have the same name, and there are fewer than \<open>2 ^ 41\<close> nodes, so that ids do not wrap.
\<close>

theorem vfs_tree_invariant:
  assumes "ZipVfs_open c = Ok v"
  defines "nodes \<equiv> vz_nodes v"
  shows "length nodes < 2 ^ 41 \<and> nodes \<noteq> [] \<and> nd_kind (nodes ! 0) = Dir \<and>
    (\<forall>i < length nodes. sorted_wrt (<) (map unat (nd_children (nodes ! i))) \<and>
      (\<forall>c \<in> set (nd_children (nodes ! i)). i < unat c \<and> unat c < length nodes) \<and>
      distinct (map (\<lambda>c. nd_name (nodes ! unat c)) (nd_children (nodes ! i)))) \<and>
    (\<forall>j. 0 < j \<and> j < length nodes \<longrightarrow> (\<exists>!i. i < length nodes \<and> of_nat j \<in> set (nd_children (nodes ! i))))"
proof -
  from assms(1) obtain a es a' where
    v: "v = \<lparr> vz_archive = a', vz_cache = Map.empty, vz_nodes = build_tree es \<rparr>"
    and es: "scalar_names es" "length (build_tree es) < 2 ^ 41" by (rule opened_view)
  have "nodes = build_tree es" by (simp add: nodes_def v)
  with tree_invariant [OF _ es(1)] es(2) show ?thesis by simp
qed

text \<open>
  C12: In the view of every archive that opens, looking a path up from the root, component by component, fails when an ancestor of it is listed as
  a file, and otherwise finds exactly the paths that start some entry's path, each with the kind and
  size settled by the first such entry and the backing entry and times of the first entry of that path.
  So of two entries with the same path only the first is reachable, and nothing below a path first
  listed as a file is.
\<close>

theorem vfs_paths_resolved:
  assumes "ZipVfs_open c = Ok v" and "ZipArchive_new c = Ok a" and "structural_view a = (Ok es, a')"
    and "scalar_path p"
  shows "if \<exists>q. strict_prefix q p \<and> is_file_path es q then \<exists>e. resolve D v (vfs_root v) p = Err e
    else case spec_node es p of
      None \<Rightarrow> resolve D v (vfs_root v) p = Ok None
    | Some info \<Rightarrow> \<exists>i. resolve D v (vfs_root v) p = Ok (Some (Opaque i)) \<and>
        unat i < length (vz_nodes v) \<and> info_of (vz_nodes v ! unat i) = info"
proof -
  from assms(1) obtain b fs b' where "ZipArchive_new c = Ok b" "structural_view b = (Ok fs, b')"
    "v = \<lparr> vz_archive = b', vz_cache = Map.empty, vz_nodes = build_tree fs \<rparr>"
    "scalar_names fs" "length (build_tree fs) < 2 ^ 41" by (rule opened_view)
  with assms(2,3) have "vz_nodes v = build_tree es" "length (build_tree es) < 2 ^ 64" "scalar_names es" by simp_all
  then show ?thesis using assms(4) by (rule paths_resolved)
qed

section \<open>A concrete view\<close>

lemma components_sample: "components [97, 46, 98] = [[97, 46, 98]]"
  by (simp add: components_def lit_def is_sep_def)

lemma sample_vfs:
  "\<exists>a m v. ZipArchive_new (cursor_new (crc_archive 0xFF000000)) = Ok a \<and> za_entries a = [m] \<and>
    placed (za_reader a) m [0xFF] \<and> on_one_disk a m \<and> ce_flags m = 0 \<and> ce_method m = Stored \<and>
    ce_crc32 m = 0xFF000000 \<and> ce_name m = [97, 46, 98] \<and>
    ZipVfs_open (cursor_new (crc_archive 0xFF000000)) = Ok v \<and> length (vz_nodes v) = 2"
proof -
  from crc_archive_opens [of "0xFF000000"] obtain a m row a' where
    a: "ZipArchive_new (cursor_new (crc_archive 0xFF000000)) = Ok a" "za_entries a = [m]"
    "placed (za_reader a) m [0xFF]" "on_one_disk a m" "ce_flags m = 0" "ce_method m = Stored"
    "ce_crc32 m = 0xFF000000" "ce_name m = [97, 46, 98]" "structural_view a = (Ok [row], a')" by blast
  have "hf_name (el_central row) = [97, 46, 98]"
    using structural_view_rows(1) [OF a(9)] structural_view_rows(2) [OF a(9), where j = 0] a(2,8)
    by (simp add: central_name)
  then have "length (build_tree [row]) = 2"
    by (simp add: build_tree_def insert_entry_def components_sample Let_def)
  with a show ?thesis by (simp add: ZipVfs_open_def)
qed

definition no_debug :: "(unit, unit) id_debug" where
  "no_debug = \<lparr> debug_file_id = \<lambda>_. [], debug_stream_id = \<lambda>_. [] \<rparr>"

theorem vfs_tree_invariant_witness:
  "\<exists>v. ZipVfs_open (cursor_new (crc_archive 0xFF000000)) = Ok v \<and>
    (\<exists>!i. i < 2 \<and> 1 \<in> set (nd_children (vz_nodes v ! i)))"
proof -
  from sample_vfs obtain v where v: "ZipVfs_open (cursor_new (crc_archive 0xFF000000)) = Ok v" "length (vz_nodes v) = 2"
    by blast
  from vfs_tree_invariant [OF v(1), THEN conjunct2, THEN conjunct2, THEN conjunct2, THEN conjunct2, THEN spec, of 1] v
  show ?thesis by (intro exI [of _ v]) simp
qed

theorem vfs_paths_resolved_witness:
  "\<exists>v i. ZipVfs_open (cursor_new (crc_archive 0xFF000000)) = Ok v \<and>
    resolve no_debug v (Opaque 0) [[97, 46, 98]] = Ok (Some (Opaque i)) \<and>
    nd_entry_idx (vz_nodes v ! unat i) = Some 0"
proof -
  from sample_vfs obtain a m v es a' where v: "ZipArchive_new (cursor_new (crc_archive 0xFF000000)) = Ok a"
    "za_entries a = [m]" "ce_name m = [97, 46, 98]" "ZipVfs_open (cursor_new (crc_archive 0xFF000000)) = Ok v"
    "structural_view a = (Ok es, a')" by (metis ZipVfs_open_Ok outcome.inject(1))
  from structural_view_rows [OF v(5)] v(2) obtain row where row: "es = [row]" "el_index row = 0"
    "el_central row = central_fields m" by (cases es) force+
  have p: "scalar_path [[97, 46, 98]]" by (simp add: scalar_path_def is_scalar_def)
  have e: "entry_path row = [[97, 46, 98]]" by (simp add: row(3) central_name v(3) components_sample)
  have "strict_prefix q [[97, 46, 98]] \<Longrightarrow> q = []" for q :: "rstring list"
    by (cases q) (auto simp: strict_prefix_def prefix_def)
  then have no_file: "\<not> (\<exists>q. strict_prefix q [[97, 46, 98]] \<and> is_file_path es q)"
    by (auto simp: is_file_path_def spec_node_def implied_info_def)
  have spec: "spec_node es [[97, 46, 98]] = Some (listed_info row)" by (simp add: spec_node_def row(1) e)
  have "ni_entry_idx (listed_info row) = Some 0"
    by (simp add: listed_info_def info_of_def leaf_node_def Let_def case_prod_beta row(2))
  moreover from vfs_paths_resolved [OF v(4,1,5) p, of no_debug, unfolded if_not_P [OF no_file] spec option.case]
  obtain i where "resolve no_debug v (vfs_root v) [[97, 46, 98]] = Ok (Some (Opaque i))"
    "info_of (vz_nodes v ! unat i) = listed_info row" by blast
  moreover have "ni_entry_idx (info_of (vz_nodes v ! unat i)) = nd_entry_idx (vz_nodes v ! unat i)"
    by (simp add: info_of_def)
  ultimately show ?thesis using v(4)
    by (intro exI [of _ v] exI [of _ i]) (simp add: vfs_root_def del: resolve.simps)
qed

end
