(* ===== verification/VfsReads.thy ===== *)
theory VfsReads
  imports VfsSize Decoded
begin

text \<open>
  Reading through the file-system view: the states that sequences of reads reach, the cache invariant
  they keep, and what a read of an archive's entry returns.
\<close>

section \<open>What a read returns, without the cache\<close>

definition decoded ::
  "('h, 'c, 'm, 'd, 'x) externals \<Rightarrow> zip_archive \<Rightarrow> usize \<Rightarrow> (u8 list, vfs_error) outcome option" where
  "decoded E a idx =
     (case by_index E a idx of
        None \<Rightarrow> None
      | Some opened \<Rightarrow> bind_opt (map_err vfs_map_err opened) (\<lambda>f.
          map_option (map_err (VfsIo (lit ''zip read''))) (read_entry E f)))"

definition window_of :: "u64 \<Rightarrow> usize \<Rightarrow> u8 list \<Rightarrow> u8 list" where
  "window_of off n data = take n (drop (unat off) data)"

definition read_spec ::
  "('h, 'c, 'm, 'd, 'x) externals \<Rightarrow> ('o, 's) id_debug \<Rightarrow> zip_vfs \<Rightarrow> 'o file_id \<Rightarrow> 's stream_id \<Rightarrow> u64 \<Rightarrow> usize
     \<Rightarrow> (u8 list, vfs_error) outcome option" where
  "read_spec E D v ino stream off n =
     bind_opt (index_of D ino) (\<lambda>idx.
     bind_opt (require_default_stream D stream) (\<lambda>_.
     bind_opt (node_of D v ino) (\<lambda>nd.
       case (nd_kind nd, nd_entry_idx nd) of
         (RegularFile, Some entry_idx) \<Rightarrow>
           map_option (\<lambda>r. and_then r (\<lambda>data. Ok (window_of off n data))) (decoded E (vz_archive v) entry_idx)
       | _ \<Rightarrow> Some (Ok []))))"

section \<open>The cache\<close>

text \<open>Every cached content is that of a node with a backing entry, and is what decoding it gives.\<close>

definition coherent :: "('h, 'c, 'm, 'd, 'x) externals \<Rightarrow> zip_vfs \<Rightarrow> bool" where
  "coherent E v \<longleftrightarrow> (\<forall>i data. vz_cache v i = Some data \<longrightarrow> unat i < length (vz_nodes v) \<and>
     (\<exists>idx. nd_entry_idx (vz_nodes v ! unat i) = Some idx \<and> decoded E (vz_archive v) idx = Some (Ok data)))"

lemma content_decoded:
  assumes "coherent E v" and "unat i < length (vz_nodes v)" and "nd_entry_idx (vz_nodes v ! unat i) = Some idx"
  shows "map_option fst (content E v i idx) = decoded E (vz_archive v) idx"
proof (cases "vz_cache v i")
  case None
  show ?thesis
    by (cases "by_index E (vz_archive v) idx")
      (auto simp: content_def decoded_def None split: outcome.split option.split)
next
  case (Some data)
  with assms show ?thesis by (fastforce simp: content_def coherent_def)
qed

lemma content_keeps:
  assumes "content E v i idx = Some (r, v')" and "coherent E v" and "unat i < length (vz_nodes v)"
    and "nd_entry_idx (vz_nodes v ! unat i) = Some idx"
  shows "coherent E v' \<and> vz_archive v' = vz_archive v \<and> vz_nodes v' = vz_nodes v"
proof (cases "v' = v")
  case False
  from assms(1) have "\<exists>data. r = Ok data \<and> v' = v\<lparr>vz_cache := (vz_cache v)(i \<mapsto> data)\<rparr>"
    using False by (auto simp: content_def split: option.splits outcome.splits)
  then obtain data where v': "r = Ok data" "v' = v\<lparr>vz_cache := (vz_cache v)(i \<mapsto> data)\<rparr>" by blast
  have "decoded E (vz_archive v) idx = Some (Ok data)"
    using content_decoded [OF assms(2-4)] assms(1) v'(1) by simp
  then show ?thesis using assms(2-4) by (auto simp: coherent_def v'(2))
qed (use assms in simp)

lemma read_at_spec:
  assumes "coherent E v"
  shows "map_option fst (vfs_read_at E D v ino stream off n) = read_spec E D v ino stream off n"
    and "vfs_read_at E D v ino stream off n = Some (r, v') \<Longrightarrow>
      coherent E v' \<and> vz_archive v' = vz_archive v \<and> vz_nodes v' = vz_nodes v"
proof -
  have "map_option fst (vfs_read_at E D v ino stream off n) = read_spec E D v ino stream off n \<and>
    (vfs_read_at E D v ino stream off n = Some (r, v') \<longrightarrow>
      coherent E v' \<and> vz_archive v' = vz_archive v \<and> vz_nodes v' = vz_nodes v)"
  proof (cases "\<exists>i nd idx. ino = Opaque i \<and> stream = DefaultStream \<and> node_of D v ino = Ok nd \<and>
      nd_kind nd = RegularFile \<and> nd_entry_idx nd = Some idx")
    case False
    then show ?thesis
      using assms
      by (cases ino; cases stream; cases "node_of D v ino")
        (auto simp: vfs_read_at_def read_spec_def split: node_kind.splits option.splits)
  next
    case True
    then obtain i nd idx where f: "ino = Opaque i" "stream = DefaultStream" "node_of D v ino = Ok nd"
      "nd_kind nd = RegularFile" "nd_entry_idx nd = Some idx" by blast
    then have nd: "unat i < length (vz_nodes v)" "nd = vz_nodes v ! unat i"
      by (auto simp: node_of_def split: if_splits)
    note d = content_decoded [OF assms nd(1)] and k = content_keeps [OF _ assms nd(1)]
    show ?thesis
    proof (cases "content E v i idx")
      case None
      with d f nd show ?thesis by (simp add: vfs_read_at_def read_spec_def)
    next
      case (Some rv)
      obtain r1 v1 where rv: "rv = (r1, v1)" by (rule prod.exhaust)
      have dec: "decoded E (vz_archive v) idx = Some r1" using d f nd Some rv by simp
      have keep: "coherent E v1 \<and> vz_archive v1 = vz_archive v \<and> vz_nodes v1 = vz_nodes v"
        using k [of idx r1 v1] f nd Some rv by simp
      show ?thesis
        using f Some rv dec keep
        by (cases r1) (auto simp: vfs_read_at_def read_spec_def Let_def window_of_def min_def)
    qed
  qed
  then show "map_option fst (vfs_read_at E D v ino stream off n) = read_spec E D v ino stream off n"
    and "vfs_read_at E D v ino stream off n = Some (r, v') \<Longrightarrow>
      coherent E v' \<and> vz_archive v' = vz_archive v \<and> vz_nodes v' = vz_nodes v" by blast+
qed

section \<open>Sequences of reads\<close>

inductive vfs_reads ::
  "('h, 'c, 'm, 'd, 'x) externals \<Rightarrow> ('o, 's) id_debug \<Rightarrow> zip_vfs \<Rightarrow> zip_vfs \<Rightarrow> bool"
  for E D v0 where
  start: "vfs_reads E D v0 v0"
| read: "vfs_reads E D v0 v \<Longrightarrow> vfs_read_at E D v ino stream off n = Some (r, v') \<Longrightarrow> vfs_reads E D v0 v'"

inductive_cases vfs_readsE: "vfs_reads E D v0 v"

lemma open_coherent: "ZipVfs_open c = Ok v \<Longrightarrow> coherent E v"
  by (erule ZipVfs_open_Ok) (simp add: coherent_def)

lemma reads_keep:
  assumes "vfs_reads E D v0 v" and "coherent E v0"
  shows "coherent E v \<and> vz_archive v = vz_archive v0 \<and> vz_nodes v = vz_nodes v0"
  using assms
proof (induction rule: vfs_reads.induct)
  case (read v ino stream off n r v')
  with read_at_spec(2) [of E v D ino stream off n r v'] show ?case by simp
qed simp

lemma read_spec_cong:
  assumes "vz_archive v = vz_archive v0" and "vz_nodes v = vz_nodes v0"
  shows "read_spec E D v = read_spec E D v0"
  unfolding read_spec_def node_of_def assms ..

text \<open>
  C14: After any sequence of reads of an opened archive, whatever their order, offsets and outcome, every
  read returns what it would have returned first: the cache of decoded contents cannot be observed.
\<close>

theorem vfs_cache_transparent:
  assumes "ZipVfs_open c = Ok v0" and "vfs_reads E D v0 v"
  shows "map_option fst (vfs_read_at E D v ino stream off n) = map_option fst (vfs_read_at E D v0 ino stream off n)"
proof -
  have v0: "coherent E v0" by (rule open_coherent [OF assms(1)])
  from reads_keep [OF assms(2) v0] have v: "coherent E v" and same: "read_spec E D v = read_spec E D v0"
    by (auto intro!: read_spec_cong)
  show ?thesis unfolding read_at_spec(1) [OF v0] read_at_spec(1) [OF v] same ..
qed

section \<open>Reading an entry by its path\<close>

lemma spec_first_file:
  assumes "i < length es" and "entry_path (es ! i) = p" and "p \<noteq> []" and "\<forall>j < i. \<not> prefix p (entry_path (es ! j))"
  shows "spec_node es p = Some (listed_info (es ! i))"
proof -
  have "find (\<lambda>e. prefix p (entry_path e)) es = Some (es ! i)"
    using assms by (auto simp: find_Some_iff intro!: exI [of _ i])
  with assms(2,3) show ?thesis by (simp add: spec_node_def)
qed

lemma ancestor_file:
  assumes "is_file_path es q"
  obtains e where "e \<in> set es" "entry_path e = q" "q \<noteq> []" "\<not> is_dir_name (hf_name (el_central e))"
proof -
  from assms have q: "q \<noteq> []" by (auto simp: is_file_path_def spec_node_def implied_info_def)
  then obtain e where e: "find (\<lambda>e. prefix q (entry_path e)) es = Some e" and k: "entry_path e = q"
      "ni_kind (listed_info e) = RegularFile"
    using assms by (auto simp: is_file_path_def spec_node_def implied_info_def with_entry_def split: option.splits if_splits)
  from e have "e \<in> set es" by (auto simp: find_Some_iff)
  moreover have "\<not> is_dir_name (hf_name (el_central e))"
    using k(2) by (auto simp: listed_info_def info_of_def leaf_node_def Let_def case_prod_beta split: if_splits)
  ultimately show thesis using that k(1) q by blast
qed

text \<open>What makes an entry reachable by its own path: it is no directory, and no other entry takes the path.\<close>

definition reachable_file :: "central_entry list \<Rightarrow> usize \<Rightarrow> bool" where
  "reachable_file ms i \<longleftrightarrow>
     (let p = components (ce_name (ms ! i)) in
      i < length ms \<and> p \<noteq> [] \<and> \<not> is_dir_name (ce_name (ms ! i)) \<and>
      (\<forall>j < i. \<not> prefix p (components (ce_name (ms ! j)))) \<and>
      (\<forall>m \<in> set ms. strict_prefix (components (ce_name m)) p \<longrightarrow> components (ce_name m) = [] \<or> is_dir_name (ce_name m)))"

lemma reachable_resolved:
  assumes "ZipVfs_open c = Ok v0" and "ZipArchive_new c = Ok a" and "reachable_file (za_entries a) i"
  shows "\<exists>k. resolve D v0 (vfs_root v0) (components (ce_name (za_entries a ! i))) = Ok (Some (Opaque k)) \<and>
    unat k < length (vz_nodes v0) \<and> nd_kind (vz_nodes v0 ! unat k) = RegularFile \<and>
    nd_entry_idx (vz_nodes v0 ! unat k) = Some i"
proof -
  let ?p = "components (ce_name (za_entries a ! i))"
  from assms(1,2) obtain es a' where sv: "structural_view a = (Ok es, a')"
    and v0: "v0 = \<lparr> vz_archive = a', vz_cache = Map.empty, vz_nodes = build_tree es \<rparr>"
    and sc: "scalar_names es" and small: "length (build_tree es) < 2 ^ 41"
    by (auto elim: opened_view)
  note rows = structural_view_rows [OF sv]
  have name: "hf_name (el_central (es ! j)) = ce_name (za_entries a ! j)" if "j < length es" for j
    using rows(2) [OF that] by (simp add: central_name)
  have i: "i < length es" "?p \<noteq> []" "\<not> is_dir_name (ce_name (za_entries a ! i))"
    "\<forall>j < i. \<not> prefix ?p (components (ce_name (za_entries a ! j)))"
    and anc: "\<forall>m \<in> set (za_entries a). strict_prefix (components (ce_name m)) ?p \<longrightarrow>
      components (ce_name m) = [] \<or> is_dir_name (ce_name m)"
    using assms(3) rows(1) by (simp_all add: reachable_file_def Let_def)
  have entry: "\<exists>m \<in> set (za_entries a). hf_name (el_central e) = ce_name m" if "e \<in> set es" for e
    using that name rows(1) by (metis in_set_conv_nth)
  have spec: "spec_node es ?p = Some (listed_info (es ! i))"
    using i name by (intro spec_first_file) simp_all
  have path: "scalar_path ?p" by (rule spec_scalar [OF sc]) (simp add: spec)
  have "\<nexists>q. strict_prefix q ?p \<and> is_file_path es q"
  proof
    assume "\<exists>q. strict_prefix q ?p \<and> is_file_path es q"
    then obtain q where q: "strict_prefix q ?p" "is_file_path es q" by blast
    from ancestor_file [OF q(2)] obtain e where e: "e \<in> set es" "entry_path e = q" "q \<noteq> []"
      "\<not> is_dir_name (hf_name (el_central e))" .
    with entry anc q(1) show False by metis
  qed
  with paths_resolved [of v0 es ?p D, OF _ _ sc path] spec small obtain k where
    "resolve D v0 (vfs_root v0) ?p = Ok (Some (Opaque k))" "unat k < length (vz_nodes v0)"
    "info_of (vz_nodes v0 ! unat k) = listed_info (es ! i)"
    by (auto simp: v0)
  moreover have "ni_kind (listed_info (es ! i)) = RegularFile" "ni_entry_idx (listed_info (es ! i)) = Some i"
    using i(1,3) name [OF i(1)] rows(2) [OF i(1)]
    by (simp_all add: listed_info_def info_of_def leaf_node_def Let_def case_prod_beta)
  ultimately show ?thesis by (metis info_of_def node_info.select_convs(1,2))
qed

lemma entry_read:
  assumes "ZipVfs_open c = Ok v0" and "ZipArchive_new c = Ok a" and "reachable_file (za_entries a) i"
    and "za_entries a ! i = m" and "placed (za_reader a) m data" and "on_one_disk a m"
    and "\<not> has_bits (ce_flags m) 1" and "codec_decodes (x_codec E) K"
    and "entry_plain K (ce_method m) (ce_uncompressed_size m) data = Some p" and "crc_chunked (x_crc E)"
    and "\<And>j. 0 < x_sizes E j" and "length p < 2 ^ 64" and "crc_of (x_crc E) p = ce_crc32 m" and "vfs_reads E D v0 v"
  shows "\<exists>k v'. resolve D v (vfs_root v) (components (ce_name m)) = Ok (Some (Opaque k)) \<and>
    vfs_read_at E D v (Opaque k) DefaultStream off n = Some (Ok (take n (drop (unat off) p)), v')"
proof -
  from assms(1,2) obtain es a' where sv: "structural_view a = (Ok es, a')"
    and v0: "v0 = \<lparr> vz_archive = a', vz_cache = Map.empty, vz_nodes = build_tree es \<rparr>"
    by (auto elim: ZipVfs_open_Ok)
  note same = structural_view_data [OF sv]
  note coh = open_coherent [OF assms(1), of E]
  from reads_keep [OF assms(14) coh] have v: "coherent E v" "vz_archive v = vz_archive v0" "vz_nodes v = vz_nodes v0"
    by simp_all
  from reachable_resolved [OF assms(1-3), of D] obtain k where
    k: "resolve D v0 (vfs_root v0) (components (ce_name m)) = Ok (Some (Opaque k))" "unat k < length (vz_nodes v0)"
    "nd_kind (vz_nodes v0 ! unat k) = RegularFile" "nd_entry_idx (vz_nodes v0 ! unat k) = Some i"
    unfolding assms(4) by blast
  have lookup: "vfs_lookup D v fid name = vfs_lookup D v0 fid name" for fid name
    unfolding vfs_lookup_def node_of_def v(3) ..
  have "resolve D v fid p = resolve D v0 fid p" for fid p
    by (induction p arbitrary: fid) (simp_all add: lookup)
  then have path: "resolve D v (vfs_root v) (components (ce_name m)) = Ok (Some (Opaque k))"
    using k(1) by (simp add: vfs_root_def)
  have "placed (za_reader a') m data" "on_one_disk a' m"
    using assms(5,6) same by (simp_all add: placed_def on_one_disk_def)
  from archive_open_compressed [OF this assms(7-12)] obtain f where
    "archive_open E a' m = Some (Ok f)" "read_entry E f = Some (crc_verdict E m True p)" by blast
  then have "decoded E a' i = Some (Ok p)"
    using assms(3,4,13) same(1) by (simp add: decoded_def by_index_def entry_at_def crc_verdict_def reachable_file_def Let_def)
  then have "read_spec E D v (Opaque k) DefaultStream off n = Some (Ok (window_of off n p))"
    using k(2-4) by (simp add: read_spec_def node_of_def v(2,3)) (simp add: v0)
  with read_at_spec(1) [OF v(1), of D "Opaque k" DefaultStream off n]
  have "\<exists>v'. vfs_read_at E D v (Opaque k) DefaultStream off n = Some (Ok (take n (drop (unat off) p)), v')"
    by (auto simp: window_of_def)
  with path show ?thesis by blast
qed

text \<open>
  C11: In the view of an archive, the path of an unencrypted entry of any supported method that no other
  entry takes leads to a node, and after any reads a read of that node at any offset returns the slice of
  the entry's decoded data there, as long as the data has the recorded CRC-32.
\<close>

theorem vfs_reads_entry:
  assumes "ZipVfs_open c = Ok v0" and "ZipArchive_new c = Ok a" and "reachable_file (za_entries a) i"
    and "za_entries a ! i = m" and "placed (za_reader a) m data" and "on_one_disk a m"
    and "\<not> has_bits (ce_flags m) 1" and "codec_decodes (x_codec E) K"
    and "entry_plain K (ce_method m) (ce_uncompressed_size m) data = Some p" and "crc_chunked (x_crc E)"
    and "\<And>j. 0 < x_sizes E j" and "length p < 2 ^ 64" and "crc_of (x_crc E) p = ce_crc32 m" and "vfs_reads E D v0 v"
  shows "\<exists>k v'. resolve D v (vfs_root v) (components (ce_name m)) = Ok (Some (Opaque k)) \<and>
    vfs_read_at E D v (Opaque k) DefaultStream off n = Some (Ok (take n (drop (unat off) p)), v')"
  using assms by (rule entry_read)

section \<open>A concrete view\<close>

lemma sample_reachable:
  assumes "za_entries a = [m]" and "ce_name m = [97, 46, 98]"
  shows "reachable_file (za_entries a) 0"
  by (simp add: reachable_file_def assms components_sample is_dir_name_def ends_with_char_def)

lemma sample_crc: "crc_chunked (x_crc sample_externals)" "crc_of (x_crc sample_externals) [0xFF] = 0xFF000000"
  by (simp_all add: crc_chunked_bytewise crc_sample)

text \<open>One read, after which the entry is cached; then the same read again.\<close>

theorem vfs_cache_transparent_witness:
  "\<exists>v0 k v. ZipVfs_open (cursor_new (crc_archive 0xFF000000)) = Ok v0 \<and>
    vfs_read_at sample_externals no_debug v0 (Opaque k) DefaultStream 0 4 = Some (Ok [0xFF], v) \<and>
    map_option fst (vfs_read_at sample_externals no_debug v (Opaque k) DefaultStream 0 4) = Some (Ok [0xFF])"
proof -
  from sample_vfs obtain a m v0 where a: "ZipArchive_new (cursor_new (crc_archive 0xFF000000)) = Ok a"
    "za_entries a = [m]" "placed (za_reader a) m [0xFF]" "on_one_disk a m" "ce_flags m = 0" "ce_method m = Stored"
    "ce_crc32 m = 0xFF000000" "ce_name m = [97, 46, 98]"
    "ZipVfs_open (cursor_new (crc_archive 0xFF000000)) = Ok v0" "length (vz_nodes v0) = 2" by blast
  note at = entry_read [where D = no_debug and off = 0 and n = 4 and v = v0 and p = "[0xFF]",
      OF a(9,1) sample_reachable [OF a(2,8)] _ a(3,4) _ codec_decodes_sample _ sample_crc(1) _ _ _ vfs_reads.start]
  from at a(2,5,6,7,10) sample_crc(2) obtain k v where
    k: "vfs_read_at sample_externals no_debug v0 (Opaque k) DefaultStream 0 4 = Some (Ok [0xFF], v)"
    by (auto simp: has_bits_def)
  from vfs_cache_transparent [OF a(9) vfs_reads.read [OF vfs_reads.start k],
      where ino = "Opaque k" and stream = DefaultStream and off = 0 and n = 4]
  show ?thesis using a(9) k by auto
qed

theorem vfs_reads_entry_witness:
  "\<exists>v k v'. ZipVfs_open (cursor_new (crc_archive 0xFF000000)) = Ok v \<and>
    resolve no_debug v (Opaque 0) [[97, 46, 98]] = Ok (Some (Opaque k)) \<and>
    vfs_read_at sample_externals no_debug v (Opaque k) DefaultStream 0 4 = Some (Ok [0xFF], v')"
proof -
  from sample_vfs obtain a m v where a: "ZipArchive_new (cursor_new (crc_archive 0xFF000000)) = Ok a"
    "za_entries a = [m]" "placed (za_reader a) m [0xFF]" "on_one_disk a m" "ce_flags m = 0" "ce_method m = Stored"
    "ce_crc32 m = 0xFF000000" "ce_name m = [97, 46, 98]"
    "ZipVfs_open (cursor_new (crc_archive 0xFF000000)) = Ok v" "length (vz_nodes v) = 2" by blast
  note at = vfs_reads_entry [where D = no_debug and off = 0 and n = 4 and v = v and p = "[0xFF]",
      OF a(9,1) sample_reachable [OF a(2,8)] _ a(3,4) _ codec_decodes_sample _ sample_crc(1) _ _ _ vfs_reads.start]
  from at a(2,5,6,7,8,10) sample_crc(2) obtain k v' where "resolve no_debug v (vfs_root v) [[97, 46, 98]] = Ok (Some (Opaque k))"
    "vfs_read_at sample_externals no_debug v (Opaque k) DefaultStream 0 4 = Some (Ok [0xFF], v')"
    by (auto simp: has_bits_def components_sample)
  with a(9) show ?thesis by (auto simp: vfs_root_def)
qed

end
