(* ===== verification/WholeReads.thy ===== *)
theory WholeReads
  imports WholeArchive RandomAccess VfsReads StoredStream
begin

text \<open>
  The three ways to a member's data: extraction by name, random access to the opened entry, and reads
  through the file-system view. Over an archive written member by member they agree.
\<close>

section \<open>Extraction by name\<close>

abbreviation entry_rows :: "u8 list \<Rightarrow> member list \<Rightarrow> central_entry list" where
  "entry_rows pre ms \<equiv> map (plain_entry pre \<circ> m_header) ms"

lemma ce_name_plain [simp]: "ce_name (plain_entry pre (m_header m)) = member_name m"
  by (simp add: plain_entry_def member_name_def)

text \<open>A member reachable by its path is the first of its name.\<close>

lemma reachable_named:
  assumes "reachable_file (entry_rows pre ms) j" and "za_entries a = entry_rows pre ms"
  shows "entry_named a (member_name (ms ! j)) = Ok (plain_entry pre (m_header (ms ! j)))" and "j < length ms"
proof -
  from assms(1) show j: "j < length ms" by (simp add: reachable_file_def Let_def)
  have "member_name (ms ! i) \<noteq> member_name (ms ! j)" if "i < j" for i
    using assms(1) that j by (auto simp: reachable_file_def Let_def)
  with j have "List.find (\<lambda>e. ce_name e = member_name (ms ! j)) (entry_rows pre ms) =
      Some (plain_entry pre (m_header (ms ! j)))"
    by (auto simp: find_Some_iff intro!: exI [of _ j])
  then show "entry_named a (member_name (ms ! j)) = Ok (plain_entry pre (m_header (ms ! j)))"
    by (simp add: entry_named_def assms(2))
qed

text \<open>What an opened file keeps of its entry.\<close>

lemma archive_open_meta:
  assumes "archive_open E a m = Some (Ok f)"
  shows "zf_meta f = m \<and> (\<exists>t. entry_data m (za_reader a) = Ok (zf_data_start f, t))"
proof -
  from assms obtain ds t where
    "entry_data m (za_reader a) = Ok (ds, t)" "make_zip_file E m ds (ce_method m) True (BoxTake t) = Some (Ok f)"
    by (cases "entry_data m (za_reader a)")
      (auto simp: archive_open_def split: if_splits elim!: bind_opt.elims)
  then show ?thesis by (auto simp: make_zip_file_def and_then_eq_Ok)
qed


text \<open>Where the data of a member stands in the file.\<close>

lemma member_data_at:
  assumes "archive_ok pre (members_body ms) (map m_header ms) comment" and "well_written K ms" and "j < length ms"
    and "cu_data c = written pre ms comment"
    and "entry_data (plain_entry pre (m_header (ms ! j))) c = Ok (ds, t)"
  shows "unat ds + length (m_data (ms ! j)) \<le> length (written pre ms comment)"
    and "take (length (m_data (ms ! j))) (drop (unat ds) (written pre ms comment)) = m_data (ms ! j)"
proof -
  let ?e = "plain_entry pre (m_header (ms ! j))" and ?file = "written pre ms comment"
  let ?before = "pre @ members_body (take j ms) @ encode_local (m_local (ms ! j))"
  let ?post = "members_body (drop (Suc j) ms) @ directory (map m_header ms) @
    archive_eocd (members_body ms) (map m_header ms) comment"
  from assms(5) have "\<exists>lf. fst (read_lfh_fields (ce_lfh_offset ?e) c) = Ok (lf, ds)"
    by (cases "read_lfh_fields (ce_lfh_offset ?e) c"; cases "fst (read_lfh_fields (ce_lfh_offset ?e) c)")
      (auto simp: entry_data_def seek_start_def)
  then have "\<exists>lf. fst (read_lfh_fields (ce_lfh_offset ?e) (cursor_new ?file)) = Ok (lf, ds)"
    by (simp add: read_lfh_fields_pos [OF assms(4)])
  with member_placed(2) [OF assms(1-4)] have "ds = el_data_start (member_row pre ms j)"
    by (auto simp: layout_of_def assms(4)) (metis entry_layout.select_convs(3))
  then have ds: "unat ds = length ?before"
    using row_span(2) [OF assms(1-3)] by (simp add: member_row_def Let_def unat_of_nat64 del: of_nat_add)
  have whole: "?file = ?before @ m_data (ms ! j) @ ?post"
    using members_body_split [OF assms(3)] by (simp add: written_def encode_archive_def)
  show "unat ds + length (m_data (ms ! j)) \<le> length ?file" unfolding ds whole by simp
  show "take (length (m_data (ms ! j))) (drop (unat ds) ?file) = m_data (ms ! j)" unfolding ds whole by simp
qed

text \<open>Opening a member by its name, and what the opened file declares.\<close>

lemma member_by_name:
  assumes "archive_ok pre (members_body ms) (map m_header ms) comment" and "well_written K ms"
    and "reachable_file (entry_rows pre ms) j"
    and "codec_decodes (x_codec E) K" and "crc_chunked (x_crc E)" and "\<And>i. 0 < x_sizes E i"
    and "crc_of (x_crc E) (m_plain (ms ! j)) = h_crc32 (m_header (ms ! j))"
    and "ZipArchive_new (cursor_new (written pre ms comment)) = Ok a"
  shows "\<exists>f. by_name E a (member_name (ms ! j)) = Some (Ok f) \<and> read_entry E f = Some (Ok (m_plain (ms ! j))) \<and>
    zf_meta f = plain_entry pre (m_header (ms ! j)) \<and>
    unat (zf_data_start f) + length (m_data (ms ! j)) \<le> length (written pre ms comment) \<and>
    take (length (m_data (ms ! j))) (drop (unat (zf_data_start f)) (written pre ms comment)) = m_data (ms ! j)"
proof -
  from written_opens [OF assms(1,2)] assms(8) have a: "cu_data (za_reader a) = written pre ms comment"
    "za_entries a = entry_rows pre ms" "za_summary a = summary_of pre (members_body ms) (map m_header ms) comment"
    by auto
  note named = reachable_named [OF assms(3) a(2)]
  from member_opens [OF assms(1,2) named(2) assms(4-6) a] obtain f where
    f: "archive_open E a (plain_entry pre (m_header (ms ! j))) = Some (Ok f)"
    "read_entry E f = Some (crc_verdict E (plain_entry pre (m_header (ms ! j))) True (m_plain (ms ! j)))"
    using named(2) a(2) by (auto simp: by_index_def entry_at_def)
  from f(2) assms(7) have "read_entry E f = Some (Ok (m_plain (ms ! j)))"
    by (simp add: crc_verdict_def plain_entry_def)
  moreover from archive_open_meta [OF f(1)] obtain t where
    "zf_meta f = plain_entry pre (m_header (ms ! j))"
    "entry_data (plain_entry pre (m_header (ms ! j))) (za_reader a) = Ok (zf_data_start f, t)" by blast
  moreover note member_data_at [OF assms(1,2) named(2) a(1) this(2)]
  ultimately show ?thesis using f(1) by (auto simp: by_name_def named(1))
qed

section \<open>Random access\<close>

text \<open>
  DEFLATE and Deflate64 as RFC 1951 has them on stored blocks: a stream of nothing else stands for the
  bytes of its blocks.
\<close>

definition deflate_stored :: "decodes \<Rightarrow> bool" where
  "deflate_stored K \<longleftrightarrow> (\<forall>meth k data p q. meth \<in> {Deflated, Deflate64} \<longrightarrow>
     K meth k data = Some p \<longrightarrow> stored_decode data = Some q \<longrightarrow> p = q)"

lemma deflate_storedD:
  "deflate_stored K \<Longrightarrow> meth = Deflated \<or> meth = Deflate64 \<Longrightarrow> K meth k data = Some p \<Longrightarrow>
     stored_decode data = Some q \<Longrightarrow> p = q"
  unfolding deflate_stored_def by blast

lemma indexed_methods:
  "choose_layout I contents path name meth ds cs sz = Some (Ok (StoredBlocks blocks)) \<Longrightarrow> meth \<noteq> Stored \<Longrightarrow>
     meth = Deflated \<or> meth = Deflate64"
  by (simp add: choose_layout_def split: if_splits)

text \<open>Whichever layout \<open>open_entry\<close> chooses for a member, the opened entry stands for the member's data.\<close>

lemma member_served:
  assumes "archive_ok pre (members_body ms) (map m_header ms) comment" and "well_written K ms"
    and "reachable_file (entry_rows pre ms) j"
    and "codec_decodes (x_codec E) K" and "crc_chunked (x_crc E)" and "\<And>i. 0 < x_sizes E i"
    and "crc_of (x_crc E) (m_plain (ms ! j)) = h_crc32 (m_header (ms ! j))"
    and "deflate_stored K"
    and "method_from_u16 (h_method (m_header (ms ! j))) = Deflate64 \<Longrightarrow> inflater_ok I (m_data (ms ! j)) (m_plain (ms ! j)) R"
    and "fs path = Ok (written pre ms comment)" and "open_entry E I fs path (member_name (ms ! j)) = Some (Ok e)"
  shows "serves E I fs e (m_plain (ms ! j))"
proof -
  let ?m = "ms ! j" and ?file = "written pre ms comment"
  from written_opens [OF assms(1,2)] obtain a where a: "ZipArchive_new (cursor_new ?file) = Ok a"
    "za_entries a = entry_rows pre ms" by auto
  from member_by_name [OF assms(1-7) a(1)] obtain f where f: "by_name E a (member_name ?m) = Some (Ok f)"
    "read_entry E f = Some (Ok (m_plain ?m))" "zf_meta f = plain_entry pre (m_header ?m)"
    "unat (zf_data_start f) + length (m_data ?m) \<le> length ?file"
    "take (length (m_data ?m)) (drop (unat (zf_data_start f)) ?file) = m_data ?m" by blast
  note opened = open_entry_layout [OF assms(10) a(1) f(1) assms(11)]
  have j: "j < length ms" by (rule reachable_named(2) [OF assms(3) a(2)])
  have agree: "copies_agree K ?m" by (rule well_writtenD(1) [OF assms(2) j])
  let ?meth = "method_from_u16 (h_method (m_header ?m))"
  have small: "length (m_plain ?m) < 4294967295" using agree by (simp add: copies_agree_def Let_def)
  have sizes: "zf_compression f = ?meth" "unat (zf_size f) = length (m_plain ?m)"
    "unat (zf_compressed_size f) = length (m_data ?m)"
    using agree small member_fields(4) [OF assms(1,2) j]
    by (simp_all add: zf_compression_def zf_size_def zf_compressed_size_def f(3) plain_entry_def copies_agree_def
        Let_def unat_ucast32 unat_of_nat32)
  have len: "length ?file < 2 ^ 63" by (rule length_written(1) [OF assms(1)])
  have plain: "\<exists>k. entry_plain K ?meth k (m_data ?m) = Some (m_plain ?m)"
    using agree by (auto simp: copies_agree_def Let_def)
  note data = f(4,5) [folded sizes(3)]
  from opened(3) [unfolded sizes(1)] show ?thesis
  proof (cases rule: choose_layout_cases)
    case stored
    let ?b = "\<lparr> sb_uncomp_start = 0, sb_len = zf_size f, sb_file_offset = zf_data_start f \<rparr>"
    have same: "m_plain ?m = m_data ?m" using plain stored(1) by simp
    have "blocks_hold (se_file e, se_uncompressed_size e, [?b]) (m_plain ?m)"
      using len f(4,5) by (simp add: opened(1,2) blocks_content_def block_bytes_def sizes(2) same)
    from by_blocks [OF stored(2) this] show ?thesis .
  next
    case (indexed blocks)
    have "unat (zf_data_start f) + unat (zf_compressed_size f) \<le> length ?file" by (rule data(1))
    note ix = index_decodes [OF len this, where name = "member_name ?m" and sz = "zf_size f"]
    from ix(1) [of blocks] indexed(2) obtain out where out: "stored_decode (m_data ?m) = Some out"
      unfolding data(2) by fastforce
    from ix(2) [of out] out indexed(2) have content: "blocks_content ?file blocks = out"
      unfolding data(2) by (auto split: if_splits)
    have "?meth = Deflated \<or> ?meth = Deflate64"
      using indexed_methods opened(3) indexed(1,3) by (simp add: sizes(1))
    with plain out have "m_plain ?m = out" by (elim exE disjE) (auto intro: deflate_storedD [OF assms(8)])
    with content blocks_from_longer [OF built_blocks(1) [OF indexed(2)] data(1)] len
    have "blocks_hold (se_file e, se_uncompressed_size e, blocks) (m_plain ?m)"
      by (simp add: opened(1,2))
    from by_blocks [OF indexed(3) this] show ?thesis .
  next
    case (checkpoints ix)
    have st: "stream_at ?file (zf_data_start f) (m_data ?m)"
      using f(4,5) len unfolding stream_at_def by (metis append_take_drop_id)
    from built [OF assms(9) [OF checkpoints(1)] st sizes(3) checkpoints(3)]
    have "index_holds I (se_file e, ix) (m_plain ?m)" by (simp add: opened(1))
    from by_checkpoints [OF checkpoints(2) this] show ?thesis by (simp add: opened(2) sizes(2))
  next
    case fallback
    from by_decoding [where fs = fs, OF fallback(2) assms(10) a(1) f(1,2)] small show ?thesis
      by (simp add: opened(2) sizes(2))
  qed
qed


section \<open>The file-system view\<close>

lemma member_viewed:
  assumes "archive_ok pre (members_body ms) (map m_header ms) comment" and "well_written K ms"
    and "reachable_file (entry_rows pre ms) j"
    and "codec_decodes (x_codec E) K" and "crc_chunked (x_crc E)" and "\<And>i. 0 < x_sizes E i"
    and "crc_of (x_crc E) (m_plain (ms ! j)) = h_crc32 (m_header (ms ! j))"
  shows "\<exists>v0. ZipVfs_open (cursor_new (written pre ms comment)) = Ok v0 \<and>
    (\<forall>v off n. vfs_reads E D v0 v \<longrightarrow> (\<exists>k v'.
      resolve D v (vfs_root v) (components (member_name (ms ! j))) = Ok (Some (Opaque k)) \<and>
      vfs_read_at E D v (Opaque k) DefaultStream off n = Some (Ok (take n (drop (unat off) (m_plain (ms ! j)))), v')))"
proof -
  let ?file = "written pre ms comment" and ?e = "plain_entry pre (m_header (ms ! j))"
  from written_opens [OF assms(1,2)] obtain c where c: "cu_data c = ?file"
    "ZipArchive_new (cursor_new ?file) = Ok \<lparr> za_reader = c, za_entries = entry_rows pre ms,
       za_summary = summary_of pre (members_body ms) (map m_header ms) comment \<rparr>" (is "_ = Ok ?a") by blast
  have j: "j < length ms" by (rule reachable_named(2) [OF assms(3), of ?a]) simp
  from written_view [OF assms(1,2), of ?a] c(1) obtain v0 where v0: "ZipVfs_open (cursor_new ?file) = Ok v0"
    by (auto simp: ZipVfs_open_def c(2))
  have agree: "copies_agree K (ms ! j)" by (rule well_writtenD(1) [OF assms(2) j])
  have at: "za_entries ?a ! j = ?e" "reachable_file (za_entries ?a) j" using j assms(3) by simp_all
  have placed: "placed (za_reader ?a) ?e (m_data (ms ! j))"
    using member_placed(1) [OF assms(1,2) j] c(1) by simp
  have flags: "on_one_disk ?a ?e" "\<not> has_bits (ce_flags ?e) 1" "length (m_plain (ms ! j)) < 2 ^ 64"
    "entry_plain K (ce_method ?e) (ce_uncompressed_size ?e) (m_data (ms ! j)) = Some (m_plain (ms ! j))"
    "crc_of (x_crc E) (m_plain (ms ! j)) = ce_crc32 ?e"
    using agree assms(7) by (simp_all add: on_one_disk_def summary_of_def plain_entry_def copies_agree_def Let_def)
  note read = entry_read [where D = D, OF v0 c(2) at(2,1) placed flags(1,2) assms(4) flags(4) assms(5,6) flags(3,5)]
  with v0 show ?thesis by simp
qed

section \<open>The three agree\<close>

text \<open>
  C4: In an archive written member by member, with any data before it and any comment, an unencrypted
  member of any supported method whose path no other member takes and whose data has the recorded checksum
  gives the same data whichever way it is read: extracted by its name; by positioned reads of the entry
  \<open>open_entry\<close> returns, whatever layout it chose; and through the file-system view, after any reads.
  Each positioned read returns the slice of that data at its offset.
\<close>

theorem member_reads_agree:
  assumes "archive_ok pre (members_body ms) (map m_header ms) comment" and "well_written K ms"
    and "reachable_file (entry_rows pre ms) j"
    and "codec_decodes (x_codec E) K" and "deflate_stored K"
    and "crc_chunked (x_crc E)" and "\<And>i. 0 < x_sizes E i"
    and "crc_of (x_crc E) (m_plain (ms ! j)) = h_crc32 (m_header (ms ! j))"
    and "method_from_u16 (h_method (m_header (ms ! j))) = Deflate64 \<Longrightarrow> inflater_ok I (m_data (ms ! j)) (m_plain (ms ! j)) R"
    and "fs path = Ok (written pre ms comment)"
  shows "\<exists>a f v0.
    ZipArchive_new (cursor_new (written pre ms comment)) = Ok a \<and>
    by_name E a (member_name (ms ! j)) = Some (Ok f) \<and> read_entry E f = Some (Ok (m_plain (ms ! j))) \<and>
    (\<forall>e off n. open_entry E I fs path (member_name (ms ! j)) = Some (Ok e) \<longrightarrow> unat off + n < 2 ^ 64 \<longrightarrow>
      entry_read_at E I fs e n off = Some (Ok (take n (drop (unat off) (m_plain (ms ! j)))))) \<and>
    ZipVfs_open (cursor_new (written pre ms comment)) = Ok v0 \<and>
    (\<forall>v off n. vfs_reads E D v0 v \<longrightarrow> (\<exists>k v'.
      resolve D v (vfs_root v) (components (member_name (ms ! j))) = Ok (Some (Opaque k)) \<and>
      vfs_read_at E D v (Opaque k) DefaultStream off n = Some (Ok (take n (drop (unat off) (m_plain (ms ! j)))), v')))"
proof -
  from written_opens [OF assms(1,2)] obtain a where a: "ZipArchive_new (cursor_new (written pre ms comment)) = Ok a"
    by blast
  from member_by_name [OF assms(1-4,6-8) a] obtain f where f: "by_name E a (member_name (ms ! j)) = Some (Ok f)"
    "read_entry E f = Some (Ok (m_plain (ms ! j)))" by blast
  have "entry_read_at E I fs e n off = Some (Ok (take n (drop (unat off) (m_plain (ms ! j)))))"
    if "open_entry E I fs path (member_name (ms ! j)) = Some (Ok e)" "unat off + n < 2 ^ 64" for e off n
    using entry.slice [OF member_served [OF assms(1-4,6-8,5,9,10) that(1)] that(2)] .
  moreover from member_viewed [where D = D, OF assms(1-4,6-8)] obtain v0 where
    "ZipVfs_open (cursor_new (written pre ms comment)) = Ok v0 \<and>
    (\<forall>v off n. vfs_reads E D v0 v \<longrightarrow> (\<exists>k v'.
      resolve D v (vfs_root v) (components (member_name (ms ! j))) = Ok (Some (Opaque k)) \<and>
      vfs_read_at E D v (Opaque k) DefaultStream off n = Some (Ok (take n (drop (unat off) (m_plain (ms ! j)))), v')))"
    by blast
  ultimately show ?thesis using a f by blast
qed

section \<open>A concrete member\<close>

text \<open>
  Decoders that decode streams of stored blocks, and copy for the one-shot methods: the first read of
  such a decoder takes its whole input.
\<close>

definition blocks_step ::
  "(nat \<Rightarrow> ('s, u8 list, io_error) act) \<Rightarrow> nat \<Rightarrow> ('s \<times> u8 list option, u8 list, io_error) act" where
  "blocks_step rd n x =
     (case snd x of
        Some out \<Rightarrow> (Ok (take n out), (fst x, Some (drop n out)))
      | None \<Rightarrow>
          (case read_to_end rd (\<lambda>_. 1) 0 [] (fst x) of
             Some (Ok bs, s) \<Rightarrow>
               (case stored_decode bs of
                  Some out \<Rightarrow> (Ok (take n out), (s, Some (drop n out)))
                | None \<Rightarrow> (Panic, (s, None)))
           | _ \<Rightarrow> (Panic, x)))"

definition blocks_lib :: "('s, 's \<times> u8 list option) codec_lib" where
  "blocks_lib = \<lparr> deflate_new = (\<lambda>s. (s, None)), deflate_read = blocks_step,
     deflate64_new = (\<lambda>s. (s, None)), deflate64_read = blocks_step,
     bzip2_new = (\<lambda>s. (s, None)), bzip2_read = blocks_step,
     zstd_new = (\<lambda>rd s. Ok (s, None)), zstd_read = blocks_step, lzma_run = (\<lambda>d n. ([d], None)),
     xz_run = (\<lambda>d. ([d], None)), lzma_io_text = (\<lambda>t. t) \<rparr>"

definition blocks_plain :: decodes where
  "blocks_plain meth k data = (if meth \<in> {Lzma, Xz} then Some data else stored_decode data)"

lemma blocks_decode:
  assumes "read_stream rd held good" and "good s" and "stored_decode (held s) = Some p"
  shows "decodes_as blocks_step rd (s, None) p"
proof -
  let ?C = "\<lambda>x. case snd x of Some out \<Rightarrow> out | None \<Rightarrow> the (stored_decode (held (fst x)))"
  let ?J = "\<lambda>x. snd x = None \<longrightarrow> good (fst x) \<and> stored_decode (held (fst x)) \<noteq> None"
  have step: "\<exists>s'. blocks_step rd n x = (Ok (take n (?C x)), (s', Some (drop n (?C x))))" if "?J x" for n x
  proof (cases "snd x")
    case None
    with that obtain out where g: "good (fst x)" "stored_decode (held (fst x)) = Some out" by auto
    from read_stream.read_to_end_content [OF assms(1) g(1), of "\<lambda>_. 1" 0 "[]"] g(2) None show ?thesis
      by (auto simp: blocks_step_def)
  qed (simp add: blocks_step_def)
  have "read_stream (blocks_step rd) ?C ?J"
  proof (unfold_locales, goal_cases)
    case (1 x n)
    with step [of x n] show ?case
      by (intro exI [of _ "min n (length (?C x))"]) (auto simp: min_def)
  next
    case (2 x n)
    with step [of x n] show ?case by auto
  qed
  from decodes_asI [where dr = blocks_step, OF this, of "(s, None)"] assms(2,3) show ?thesis by simp
qed

lemma codec_decodes_blocks: "codec_decodes blocks_lib blocks_plain"
  by (auto simp: codec_decodes_def blocks_lib_def blocks_plain_def intro: blocks_decode)

lemma deflate_stored_blocks: "deflate_stored blocks_plain"
  by (simp add: deflate_stored_def blocks_plain_def)


definition blocks_externals :: "(u32, u8, u8, u8 list, (u8, u8, u8 list) boxed \<times> u8 list option) externals" where
  "blocks_externals = \<lparr> x_crc = bytewise_crc, x_aes = counter_lib, x_strong = chain_lib,
     x_codec = blocks_lib, x_sizes = (\<lambda>_. 1) \<rparr>"

lemma blocks_externals_simps [simp]:
  "x_crc blocks_externals = bytewise_crc" "x_codec blocks_externals = blocks_lib" "x_sizes blocks_externals i = 1"
  by (simp_all add: blocks_externals_def)

text \<open>One deflated member, a stored block of the byte \<open>0xFF\<close>.\<close>

definition block_member :: member where
  "block_member = \<lparr> m_header = extract_header\<lparr>h_method := 8, h_compressed32 := 6\<rparr>,
     m_local = extract_local\<lparr>l_method := 8, l_compressed32 := 6\<rparr>,
     m_data = [1, 1, 0, 0xFE, 0xFF, 0xFF], m_plain = [0xFF] \<rparr>"

abbreviation block_archive :: "u8 list" where
  "block_archive \<equiv> written [1] [block_member] []"

lemmas block_member_defs = block_member_def extract_header_def extract_local_def sample_header_def

lemma block_stream_decoded: "stored_decode [1, 1, 0, 0xFE, 0xFF, 0xFF] = Some [0xFF]"
  by (subst stored_decode.simps) simp

lemma block_member_ok: "archive_ok [1] (members_body [block_member]) (map m_header [block_member]) []"
  by (simp add: archive_ok_def comment_ok_def header_ok_def encode_archive_def directory_def members_body_def
      archive_eocd_def encode_eocd_def encode_header_def encode_fixed_def encode_local_def le_eval block_member_defs)

lemma method_eight: "method_from_u16 8 = Deflated"
  by (simp add: method_from_u16_def)

lemma block_member_written: "well_written blocks_plain [block_member]"
  by (simp add: well_written_def members_body_def copies_agree_def Let_def local_ok_def has_bits_def block_member_defs
      method_eight blocks_plain_def block_stream_decoded)

lemma block_member_name: "member_name block_member = [97, 46, 98]"
  by (simp add: member_name_def block_member_defs decode_name_ascii is_ascii_def)

lemma block_member_reachable: "reachable_file (entry_rows [1] [block_member]) 0"
  by (simp add: reachable_file_def block_member_name components_sample is_dir_name_def ends_with_char_def)

lemma blocks_externals_ok: "codec_decodes (x_codec blocks_externals) blocks_plain" "crc_chunked (x_crc blocks_externals)"
  by (simp_all add: codec_decodes_blocks crc_chunked_bytewise)

lemmas block_member_facts = block_member_ok block_member_written block_member_reachable
  blocks_externals_ok(1) deflate_stored_blocks blocks_externals_ok(2)

lemma block_member_at:
  "m_plain ([block_member] ! 0) = [0xFF]" "member_name ([block_member] ! 0) = [97, 46, 98]"
  "m_data ([block_member] ! 0) = [1, 1, 0, 0xFE, 0xFF, 0xFF]" "length [1, 1, 0, 0xFE, 0xFF, 0xFF :: u8] = 6"
  "crc_of (x_crc blocks_externals) (m_plain ([block_member] ! 0)) = h_crc32 (m_header ([block_member] ! 0))"
  "m_header ([block_member] ! 0) = m_header block_member"
  by (simp_all add: block_member_name) (simp_all add: block_member_defs crc_sample)

text \<open>Opening it for random access chooses the block index.\<close>

lemma block_member_opened:
  assumes "fs path = Ok block_archive"
  shows "\<exists>e. open_entry blocks_externals I fs path [97, 46, 98] = Some (Ok e)"
proof -
  from written_opens [OF block_member_ok block_member_written] obtain a where
    a: "ZipArchive_new (cursor_new block_archive) = Ok a" by blast
  from member_by_name [where E = blocks_externals, OF block_member_facts(1-4,6) _ block_member_at(5) a,
      unfolded block_member_at(1-4,6)] obtain f where
    f: "by_name blocks_externals a [97, 46, 98] = Some (Ok f)" "zf_meta f = plain_entry [1] (m_header block_member)"
    "unat (zf_data_start f) + 6 \<le> length block_archive"
    "take 6 (drop (unat (zf_data_start f)) block_archive) = [1, 1, 0, 0xFE, 0xFF, 0xFF]"
    by (auto simp del: take_Suc_Cons)
  have sizes: "zf_compression f = Deflated" "zf_compressed_size f = 6" "zf_size f = 1"
    by (simp_all add: zf_compression_def zf_compressed_size_def zf_size_def f(2) plain_entry_def block_member_defs method_eight)
  from index_decodes(2) [OF length_written(1) [OF block_member_ok], of "zf_data_start f" 6 "[0xFF]" "[97, 46, 98]" 1] f(3,4)
  obtain blocks where "index_stored_blocks block_archive [97, 46, 98] (zf_data_start f) 6 1 = Ok (Some blocks)"
    by (auto simp: block_stream_decoded)
  then show ?thesis by (simp add: open_entry_def assms a f(1) sizes choose_layout_def)
qed

theorem member_reads_agree_witness:
  "\<exists>a f e v0 k v'. by_name blocks_externals a [97, 46, 98] = Some (Ok f) \<and>
    read_entry blocks_externals f = Some (Ok [0xFF]) \<and>
    open_entry blocks_externals copy_inflater (\<lambda>_. Ok block_archive) [] [97, 46, 98] = Some (Ok e) \<and>
    entry_read_at blocks_externals copy_inflater (\<lambda>_. Ok block_archive) e 4 0 = Some (Ok [0xFF]) \<and>
    ZipVfs_open (cursor_new block_archive) = Ok v0 \<and>
    resolve no_debug v0 (Opaque 0) [[97, 46, 98]] = Ok (Some (Opaque k)) \<and>
    vfs_read_at blocks_externals no_debug v0 (Opaque k) DefaultStream 0 4 = Some (Ok [0xFF], v')"
proof -
  let ?fs = "\<lambda>_. Ok block_archive"
  obtain e where e: "open_entry blocks_externals copy_inflater ?fs [] [97, 46, 98] = Some (Ok e)"
    using block_member_opened [where fs = ?fs] by blast
  have deflated: "method_from_u16 (h_method (m_header ([block_member] ! 0))) \<noteq> Deflate64"
    by (simp add: block_member_defs method_eight)
  from member_reads_agree [where E = blocks_externals and I = copy_inflater and fs = ?fs and path = "[]" and
      D = no_debug, OF block_member_facts(1-6) _ block_member_at(5) _ refl,
      unfolded block_member_at(1,2) components_sample] deflated
  obtain a f v0 where "by_name blocks_externals a [97, 46, 98] = Some (Ok f)"
    "read_entry blocks_externals f = Some (Ok [0xFF])"
    and at: "\<And>e off n. open_entry blocks_externals copy_inflater ?fs [] [97, 46, 98] = Some (Ok e) \<Longrightarrow>
      unat off + n < 2 ^ 64 \<Longrightarrow> entry_read_at blocks_externals copy_inflater ?fs e n off =
        Some (Ok (take n (drop (unat off) [0xFF])))"
    and "ZipVfs_open (cursor_new block_archive) = Ok v0"
    and vfs: "\<And>v off n. vfs_reads blocks_externals no_debug v0 v \<Longrightarrow> \<exists>k v'.
      resolve no_debug v (vfs_root v) [[97, 46, 98]] = Ok (Some (Opaque k)) \<and>
      vfs_read_at blocks_externals no_debug v (Opaque k) DefaultStream off n =
        Some (Ok (take n (drop (unat off) [0xFF])), v')" by auto
  moreover from vfs [OF vfs_reads.start, of 0 4] obtain k v' where
    "resolve no_debug v0 (Opaque 0) [[97, 46, 98]] = Ok (Some (Opaque k))"
    "vfs_read_at blocks_externals no_debug v0 (Opaque k) DefaultStream 0 4 = Some (Ok [0xFF], v')"
    by (auto simp: vfs_root_def simp del: resolve.simps)
  ultimately show ?thesis using e at [OF e, of 0 4] by auto
qed

end
