(* ===== verification/AesDecoded.thy ===== *)
theory AesDecoded
  imports Decoded
begin

text \<open>
  Compressed entries under WinZip AES. Over an authentic ciphertext \<open>AesReader\<close> is a reader of the
  plaintext, so an entry under any supported method is read to its data. The authentication code is
  checked only by the read that finds the ciphertext used up, though: a streaming decoder that stops at
  the end of its own stream, with ciphertext left over, never makes that read.
\<close>

section \<open>An authentic ciphertext as a stream\<close>

context read_stream
begin

definition aes_left :: "('c, 'm, 'z) aes_lib_scheme \<Rightarrow> ('s, 'c, 'm) aes_reader \<Rightarrow> u8 list" where
  "aes_left L r = (if ar_done r then []
     else fst (ctr_apply L (ar_cipher r) (take (unat (ar_remaining r)) (content (ar_inner r)))))"

definition aes_authentic :: "('c, 'm, 'z) aes_lib_scheme \<Rightarrow> ('s, 'c, 'm) aes_reader \<Rightarrow> bool" where
  "aes_authentic L r \<longleftrightarrow> (if ar_done r then ar_remaining r = 0
     else inv (ar_inner r) \<and> aes_outcome L r (content (ar_inner r)) = Ok (aes_left L r))"

lemma aes_authentic_length:
  assumes "aes_authentic L r" and "\<not> ar_done r"
  shows "unat (ar_remaining r) + 10 \<le> length (content (ar_inner r))"
  using assms by (auto simp: aes_authentic_def aes_outcome_def Let_def split: if_splits)

lemma length_aes_left:
  assumes "aes_lib_ok L" and "aes_authentic L r" and "\<not> ar_done r"
  shows "length (aes_left L r) = unat (ar_remaining r)"
  using aes_authentic_length [OF assms(2,3)] assms(3) by (simp add: aes_left_def aes_lib_okD(2) [OF assms(1)])

lemma aes_read_some:
  assumes L: "aes_lib_ok L" and r: "aes_authentic L r" and n: "0 < n" and c: "aes_left L r \<noteq> []"
  shows "\<exists>k r'. 0 < k \<and> k \<le> n \<and> k \<le> length (aes_left L r) \<and> aes_read L rd n r = (Ok (take k (aes_left L r)), r') \<and>
    aes_left L r' = drop k (aes_left L r) \<and> aes_authentic L r'"
proof -
  let ?c = "content (ar_inner r)" and ?m = "min n (unat (ar_remaining r))"
  from c have nd: "\<not> ar_done r" by (auto simp: aes_left_def)
  note len = length_aes_left [OF L r nd] and enough = aes_authentic_length [OF r nd]
  with c have rem: "0 < unat (ar_remaining r)" "ar_remaining r \<noteq> 0" by (auto simp: unat_gt_0)
  from r nd have i: "inv (ar_inner r)" and out: "aes_outcome L r ?c = Ok (aes_left L r)" by (auto simp: aes_authentic_def)
  have "0 < ?m" "?c \<noteq> []" using n rem enough by auto
  from rd_some [OF i this] obtain k s' where k: "0 < k" "k \<le> ?m" "k \<le> length ?c"
    and rd: "rd ?m (ar_inner r) = (Ok (take k ?c), s')" and s': "content s' = drop k ?c" "inv s'" by blast
  have "k < 18446744073709551616" by (rule le_less_trans [OF _ unat_lt64 [of "ar_remaining r"]]) (use k(2) in simp)
  then have uk: "unat (of_nat k :: u64) = k" by (rule unat_of_nat64)
  let ?rem = "ar_remaining r - of_nat k" and ?p = "ctr_apply L (ar_cipher r) (take k ?c)"
  have le: "of_nat k \<le> ar_remaining r" using k(2) uk by (simp add: word_le_nat_alt)
  then have urem: "unat ?rem = unat (ar_remaining r) - k" using uk by (simp add: unat_sub)
  define r1 where "r1 = r\<lparr>ar_inner := s', ar_hmac := hmac_update L (ar_hmac r) (take k ?c),
      ar_cipher := snd ?p, ar_remaining := ?rem\<rparr>"
  have tl: "length (take k ?c) = k" using k(3) by simp
  with k(1) have tne: "take k ?c \<noteq> []" by auto
  have "sub64 (ar_remaining r) (of_nat (length (take k ?c))) = (Ok ?rem :: (u64, io_error) outcome)"
    unfolding tl using le by (simp add: sub64_def)
  then have step: "aes_read L rd n r = (Ok (fst ?p), r1)"
    using rem(2) rd tne by (simp add: aes_read_def case_prod_beta r1_def)
  have pl: "length (fst ?p) = k" using tl by (simp add: aes_lib_okD(2) [OF L])
  have "prepend_ok (fst ?p) (aes_outcome L r1 (content (ar_inner r1))) = Ok (aes_left L r)"
    using aes_outcome_step [OF L k(3), of r r1] k(2) urem s'(1) out by (simp add: r1_def)
  then obtain q where q: "aes_outcome L r1 (content (ar_inner r1)) = Ok q" "aes_left L r = fst ?p @ q"
    by (auto simp: prepend_ok_def)
  have nd1: "\<not> ar_done r1" using nd by (simp add: r1_def)
  with q(1) have "q = aes_left L r1" by (auto simp: aes_left_def aes_outcome_def Let_def split: if_splits)
  with q nd1 s'(2) have "aes_authentic L r1" by (simp add: aes_authentic_def r1_def)
  with step q(2) pl k \<open>q = aes_left L r1\<close> show ?thesis by (intro exI [of _ k] exI [of _ r1]) auto
qed

lemma aes_read_eof:
  assumes L: "aes_lib_ok L" and r: "aes_authentic L r" and c: "aes_left L r = []"
  shows "\<exists>r'. aes_read L rd n r = (Ok [], r') \<and> aes_left L r' = [] \<and> aes_authentic L r'"
proof (cases "ar_done r")
  case True
  with r show ?thesis by (simp add: aes_read_def aes_authentic_def aes_left_def)
next
  case False
  from length_aes_left [OF L r False] c have rem: "ar_remaining r = 0" by (simp add: unat_eq_0)
  from r False have i: "inv (ar_inner r)" and out: "aes_outcome L r (content (ar_inner r)) = Ok []"
    using c by (auto simp: aes_authentic_def)
  from aes_finish_outcome [OF L i rem] obtain r' where
    "aes_read L rd n r = (aes_outcome L r (content (ar_inner r)), r')" "ar_done r'" "ar_remaining r' = 0"
    using rem False by (auto simp: aes_read_def)
  with out show ?thesis by (simp add: aes_left_def aes_authentic_def)
qed

lemma aes_stream: "aes_lib_ok L \<Longrightarrow> read_stream (aes_read L rd) (aes_left L) (aes_authentic L)"
  by unfold_locales (rule aes_read_some aes_read_eof, assumption+)+

end

section \<open>Extraction\<close>

text \<open>
  C22: An AES entry whose verifier and authentication code are those of the password, compressed with any
  supported method, opens with that password by its index and reads to the data the decrypted bytes stand
  for, with its CRC-32 compared for AE-1 and not for AE-2.
\<close>

theorem aes_compressed_extracted:
  assumes "placed (za_reader a) m (salt @ aes_verifier (x_aes E) password aes salt @ ct @ aes_code (x_aes E) password aes salt ct)"
    and "i < length (za_entries a)" and "za_entries a ! i = m" and "on_one_disk a m"
    and "ce_aes m = Some aes" and "\<not> has_bits (ce_flags m) 0x2000" and "length salt = salt_len (strength aes)"
    and "aes_lib_ok (x_aes E)" and "codec_decodes (x_codec E) D"
    and "entry_plain D (method_from_u16 (actual_method aes)) (ce_uncompressed_size m)
      (aes_plain (x_aes E) password aes salt ct) = Some p"
    and "length p < 2 ^ 64" and "crc_chunked (x_crc E)" and "\<And>j. 0 < x_sizes E j"
  shows "\<exists>f. by_index_decrypt E a i password = Some (Ok f) \<and>
    read_entry E f = Some (crc_verdict E m (\<not> is_ae2 aes) p)"
proof -
  let ?L = "x_aes E" and ?pv = "aes_verifier (x_aes E) password aes salt" and ?code = "aes_code (x_aes E) password aes salt ct"
  from entry_data_placed [OF assms(1)] obtain ds t where t: "entry_data m (za_reader a) = Ok (ds, t)"
    "window t = salt @ ?pv @ (ct @ ?code)" by blast
  have len: "length ?pv = 2" "length ?code = 10"
    by (simp_all add: aes_verifier_def aes_derived_def aes_code_def Let_def aes_lib_okD(1,6) [OF assms(8)])
  have sz: "unat (ce_compressed_size m) = length (salt @ ?pv @ ct @ ?code)" using assms(1) by (auto simp: placed_def)
  with len assms(7) have "salt_len (strength aes) + 12 \<le> unat (ce_compressed_size m)" by simp
  from AesReader_new_window [OF assms(8) t(2) assms(7) len(1) this, of password "ce_name m"] obtain j r where
    j: "window j = ct @ ?code" and r: "AesReader_new ?L file_read t password aes (ce_compressed_size m) (ce_name m) = Ok r"
    "r = \<lparr> ar_inner = j, ar_cipher = ctr_new ?L (take (key_len (strength aes)) (aes_derived ?L password aes salt)) ctr_iv,
       ar_hmac = hmac_new ?L (take (key_len (strength aes)) (drop (key_len (strength aes)) (aes_derived ?L password aes salt))),
       ar_remaining = ce_compressed_size m - aes_overhead aes, ar_entry = ce_name m, ar_done = False \<rparr>" by auto
  have rem: "unat (ar_remaining r) = length ct"
    using sz len assms(7) by (simp add: r(2) unat_sub word_le_nat_alt unat_aes_overhead)
  have left: "win.aes_left ?L r = aes_plain ?L password aes salt ct"
    using rem j by (simp add: win.aes_left_def r(2) aes_plain_def)
  have auth: "win.aes_authentic ?L r"
    using rem j len left
    by (simp add: win.aes_authentic_def aes_outcome_def win.aes_left_def r(2) aes_code_def Let_def)
  have plain: "entry_plain D (method_from_u16 (actual_method aes)) (ce_uncompressed_size m) (win.aes_left ?L r) = Some p"
    unfolding left by (rule assms(10))
  from make_zip_file_yields [where F = BoxAes, OF win.aes_stream [OF assms(8)] auth boxed_read_simps(3) _ assms(9) plain
      assms(12,13,11)]
  obtain f where f: "make_zip_file E m ds (method_from_u16 (actual_method aes)) (\<not> is_ae2 aes) (BoxAes r) = Some (Ok f)"
    "read_entry E f = Some (crc_verdict E m (\<not> is_ae2 aes) p)" by auto
  have "by_index_decrypt E a i password = Some (Ok f)"
    unfolding by_index_decrypt_at [OF assms(2)] assms(3) open_decrypt_aes [OF assms(4-6) t(1)] r(1) bind_opt.simps
    by (rule f(1))
  with f(2) show ?thesis by blast
qed

theorem aes_compressed_extracted_witness:
  "\<exists>f. by_index_decrypt sample_externals
      (one_archive (one_entry 1 0 (Some \<lparr> strength = 1, actual_method = 14, is_ae2 = True \<rparr>) 25)
        (replicate 8 0 @ [3, 3] @ [12, 18, 2, 8, 0xF6] @ replicate 10 0x1E)) 0 [9] = Some (Ok f) \<and>
    read_entry sample_externals f = Some (Ok [0xFF])"
proof -
  let ?aes = "\<lparr> strength = 1, actual_method = 14, is_ae2 = True \<rparr>" and ?ct = "[12, 18, 2, 8, 0xF6] :: u8 list"
  have "placed (za_reader (one_archive (one_entry 1 0 (Some ?aes) 25)
        (replicate 8 0 @ [3, 3] @ ?ct @ replicate 10 0x1E))) (one_entry 1 0 (Some ?aes) 25)
      (replicate 8 0 @ [3, 3] @ ?ct @ replicate 10 0x1E)"
    using one_placed [where data = "replicate 8 0 @ [3, 3] @ ?ct @ replicate 10 0x1E" and flags = 1 and crc = 0
        and aes = "Some ?aes"] by simp
  moreover have "aes_verifier counter_lib [9] ?aes (replicate 8 0) = [3, 3]"
    "aes_code counter_lib [9] ?aes (replicate 8 0) ?ct = replicate 10 0x1E"
    "aes_plain counter_lib [9] ?aes (replicate 8 0) ?ct = lzma_data"
    by code_simp+
  ultimately show ?thesis
    using aes_compressed_extracted [where E = sample_externals and i = 0 and password = "[9]" and aes = ?aes and p = "[0xFF]"
        and salt = "replicate 8 0" and ct = ?ct and m = "one_entry 1 0 (Some ?aes) 25" and a = "one_archive (one_entry 1 0 (Some ?aes) 25)
          (replicate 8 0 @ [3, 3] @ ?ct @ replicate 10 0x1E)", OF _ _ _ _ _ _ _ _ codec_decodes_sample] lzma_plain
    by (simp add: method_from_u16_def salt_len_def counter_lib_ok crc_chunked_bytewise has_bits_def crc_verdict_def)
qed


section \<open>A decoder that ends before its input\<close>

text \<open>
  What a decoder may count on when its stream ends before the reader below does: each read while there is
  content gives some of it. Nothing is said of a read past the content, whatever the reader does there.
\<close>

locale read_some =
  fixes rd :: "nat \<Rightarrow> ('s, u8 list, io_error) act"
    and held :: "'s \<Rightarrow> u8 list"
    and good :: "'s \<Rightarrow> bool"
  assumes some: "good s \<Longrightarrow> 0 < n \<Longrightarrow> held s \<noteq> [] \<Longrightarrow>
      \<exists>k s'. 0 < k \<and> k \<le> n \<and> k \<le> length (held s) \<and>
        rd n s = (Ok (take k (held s)), s') \<and> held s' = drop k (held s) \<and> good s'"

text \<open>
  A decoder of a self-terminating format, as DEFLATE is: where the content is a well-formed stream and more
  after it, the decoder returns the data of the stream and stays at its end.
\<close>

definition stops_early :: "('s, 'x, 'z) codec_lib_scheme \<Rightarrow> decodes \<Rightarrow> bool" where
  "stops_early L D \<longleftrightarrow>
     (\<forall>rd held good s k w rest p. read_some rd held good \<longrightarrow> good s \<longrightarrow> held s = w @ rest \<longrightarrow> rest \<noteq> [] \<longrightarrow>
        D Deflated k w = Some p \<longrightarrow> decodes_as (deflate_read L) rd (deflate_new L s) p)"

text \<open>\<open>AesReader\<close> gives its plaintext so, whatever follows the ciphertext.\<close>

definition aes_unread :: "('c, 'm, 'z) aes_lib_scheme \<Rightarrow> (cursor take_reader, 'c, 'm) aes_reader \<Rightarrow> u8 list" where
  "aes_unread L r = fst (ctr_apply L (ar_cipher r) (take (unat (ar_remaining r)) (window (ar_inner r))))"

definition aes_unread_ok :: "('c, 'm, 'z) aes_lib_scheme \<Rightarrow> (cursor take_reader, 'c, 'm) aes_reader \<Rightarrow> bool" where
  "aes_unread_ok L r \<longleftrightarrow> aes_lib_ok L \<and> unat (ar_remaining r) \<le> length (window (ar_inner r))"

lemma take_split: "k \<le> n \<Longrightarrow> take n xs = take k xs @ take (n - k) (drop k xs)"
  using take_add [of k "n - k" xs] by simp

lemma aes_unread_some:
  assumes "aes_unread_ok L r" and "0 < n" and "aes_unread L r \<noteq> []"
  shows "\<exists>k r'. 0 < k \<and> k \<le> n \<and> k \<le> length (aes_unread L r) \<and> aes_read L file_read n r = (Ok (take k (aes_unread L r)), r') \<and>
    aes_unread L r' = drop k (aes_unread L r) \<and> aes_unread_ok L r'"
proof -
  let ?c = "window (ar_inner r)" and ?rem = "unat (ar_remaining r)" and ?m = "min n (unat (ar_remaining r))"
  have L: "aes_lib_ok L" and enough: "?rem \<le> length ?c" using assms(1) by (simp_all add: aes_unread_ok_def)
  have len: "length (aes_unread L r) = ?rem" using enough by (simp add: aes_unread_def aes_lib_okD(2) [OF L])
  with assms(3) have rem: "0 < ?rem" "ar_remaining r \<noteq> 0" by (auto simp: unat_gt_0)
  then have "0 < ?m" "?c \<noteq> []" using assms(2) enough by auto
  from win.rd_some [OF TrueI this] obtain k j where k: "0 < k" "k \<le> ?m" "k \<le> length ?c"
    and rd: "file_read ?m (ar_inner r) = (Ok (take k ?c), j)" and j: "window j = drop k ?c" by blast
  have "k < 18446744073709551616" by (rule le_less_trans [OF _ unat_lt64 [of "ar_remaining r"]]) (use k(2) in simp)
  then have uk: "unat (of_nat k :: u64) = k" by (rule unat_of_nat64)
  have le: "of_nat k \<le> ar_remaining r" using k(2) uk by (simp add: word_le_nat_alt)
  then have urem: "unat (ar_remaining r - of_nat k) = ?rem - k" using uk by (simp add: unat_sub)
  let ?p = "ctr_apply L (ar_cipher r) (take k ?c)"
  define r1 where "r1 = r\<lparr>ar_inner := j, ar_hmac := hmac_update L (ar_hmac r) (take k ?c),
      ar_cipher := snd ?p, ar_remaining := ar_remaining r - of_nat k\<rparr>"
  have tl: "length (take k ?c) = k" "take k ?c \<noteq> []" using k(1,3) by auto
  have "sub64 (ar_remaining r) (of_nat (length (take k ?c))) = (Ok (ar_remaining r - of_nat k) :: (u64, io_error) outcome)"
    unfolding tl(1) using le by (simp add: sub64_def)
  then have step: "aes_read L file_read n r = (Ok (fst ?p), r1)"
    using rem(2) rd tl(2) by (simp add: aes_read_def case_prod_beta r1_def)
  have "take ?rem ?c = take k ?c @ take (?rem - k) (drop k ?c)" by (rule take_split) (use k(2) in simp)
  then have "aes_unread L r = fst ?p @ aes_unread L r1"
    by (simp add: aes_unread_def r1_def urem j aes_lib_okD(3) [OF L])
  moreover have "length (fst ?p) = k" using tl(1) by (simp add: aes_lib_okD(2) [OF L])
  moreover have "?rem - k \<le> length (window j)" unfolding j length_drop using enough by (rule diff_le_mono)
  then have "aes_unread_ok L r1" using L by (simp add: aes_unread_ok_def r1_def urem)
  ultimately show ?thesis using step k by (intro exI [of _ k] exI [of _ r1]) (auto simp: len)
qed

interpretation unread: read_some "aes_read L file_read" "aes_unread L" "aes_unread_ok L" for L
  by unfold_locales (rule aes_unread_some)

text \<open>Such a reader in its box.\<close>

lemma lifted_some:
  assumes "read_some rd held good" and "\<And>n s. rd' n (F s) = lift_read F (rd n s)" and "\<And>s. G (F s) = s"
  shows "read_some rd' (\<lambda>b. held (G b)) (\<lambda>b. \<exists>s. b = F s \<and> good s)"
proof (unfold_locales, goal_cases)
  case (1 b n)
  then obtain s where s: "b = F s" "good s" by blast
  with read_some.some [OF assms(1) s(2) 1(2)] 1(3) show ?case
    by (auto simp: assms(2,3) lift_read_def) (metis assms(3))
qed

fun unbox_aes :: "('c, 'm, 'd) boxed \<Rightarrow> (cursor take_reader, 'c, 'm) aes_reader" where
  "unbox_aes (BoxAes r) = r"

text \<open>
  C23: The authentication code of a compressed AES entry need not be checked at all. Over any decoder that
  keeps the promise above for DEFLATE, any AE-2 entry under method 8 with a right password verifier, whose
  ciphertext decrypts to a DEFLATE stream and at least one byte more, opens with the password and is read to
  its end as sound, whatever the ten bytes of its authentication code: the code is compared only by the read
  that finds the ciphertext used up, which the decoder does not make, and the CRC-32 is not compared for AE-2.
\<close>

theorem aes_code_unchecked:
  assumes "placed (za_reader a) m (salt @ aes_verifier (x_aes E) password aes salt @ ct @ code)" and "length code = 10"
    and "i < length (za_entries a)" and "za_entries a ! i = m" and "on_one_disk a m"
    and "ce_aes m = Some aes" and "\<not> has_bits (ce_flags m) 0x2000" and "length salt = salt_len (strength aes)"
    and "is_ae2 aes" and "actual_method aes = 8"
    and "aes_lib_ok (x_aes E)" and "stops_early (x_codec E) D"
    and "aes_plain (x_aes E) password aes salt ct = w @ rest" and "rest \<noteq> []"
    and "D Deflated (ce_uncompressed_size m) w = Some p" and "length p < 2 ^ 64"
    and "crc_chunked (x_crc E)" and "\<And>j. 0 < x_sizes E j"
  shows "\<exists>f. by_index_decrypt E a i password = Some (Ok f) \<and> read_entry E f = Some (Ok p)"
proof -
  let ?L = "x_aes E" and ?pv = "aes_verifier (x_aes E) password aes salt"
  from entry_data_placed [OF assms(1)] obtain ds t where t: "entry_data m (za_reader a) = Ok (ds, t)"
    "window t = salt @ ?pv @ (ct @ code)" by blast
  have len: "length ?pv = 2"
    by (simp add: aes_verifier_def aes_derived_def Let_def aes_lib_okD(1) [OF assms(11)])
  have sz: "unat (ce_compressed_size m) = length (salt @ ?pv @ ct @ code)" using assms(1) by (auto simp: placed_def)
  with len assms(2,8) have "salt_len (strength aes) + 12 \<le> unat (ce_compressed_size m)" by simp
  from AesReader_new_window [OF assms(11) t(2) assms(8) len this, of password "ce_name m"] obtain j r where
    j: "window j = ct @ code" and r: "AesReader_new ?L file_read t password aes (ce_compressed_size m) (ce_name m) = Ok r"
    "r = \<lparr> ar_inner = j, ar_cipher = ctr_new ?L (take (key_len (strength aes)) (aes_derived ?L password aes salt)) ctr_iv,
       ar_hmac = hmac_new ?L (take (key_len (strength aes)) (drop (key_len (strength aes)) (aes_derived ?L password aes salt))),
       ar_remaining = ce_compressed_size m - aes_overhead aes, ar_entry = ce_name m, ar_done = False \<rparr>" by auto
  have rem: "unat (ar_remaining r) = length ct"
    using sz len assms(2,8) by (simp add: r(2) unat_sub word_le_nat_alt unat_aes_overhead)
  have left: "aes_unread ?L r = w @ rest"
    using rem j assms(13) by (simp add: aes_unread_def r(2) aes_plain_def)
  have good: "\<exists>s. BoxAes r = BoxAes s \<and> aes_unread_ok ?L s"
    using rem j assms(11) by (auto simp: aes_unread_ok_def r(2) simp del: length_take)
  from lifted_some [OF unread.read_some_axioms, where F = BoxAes and G = unbox_aes, OF boxed_read_simps(3) unbox_aes.simps]
  have box: "read_some (boxed_read E) (\<lambda>b. aes_unread ?L (unbox_aes b)) (\<lambda>b. \<exists>s. b = BoxAes s \<and> aes_unread_ok ?L s)" .
  have "aes_unread ?L (unbox_aes (BoxAes r)) = w @ rest" using left by simp
  from assms(12) [unfolded stops_early_def, rule_format, OF box good this assms(14,15)]
  have "decodes_as (deflate_read (x_codec E)) (boxed_read E) (deflate_new (x_codec E) (BoxAes r)) p" .
  from streamed_reads [OF this, where F = DeflateDecoder and L = "x_codec E" and sizes = "x_sizes E"] assms(18) obtain d where
    d: "read_to_end (decoder_read (x_codec E) (boxed_read E)) (x_sizes E) 0 []
      (DeflateDecoder (deflate_new (x_codec E) (BoxAes r))) = Some (Ok p, d)"
    by (auto simp: decoder_read_def)
  let ?f = "fresh_file E m ds False (DeflateDecoder (deflate_new (x_codec E) (BoxAes r)))"
  have "make_zip_file E m ds (method_from_u16 (actual_method aes)) (\<not> is_ae2 aes) (BoxAes r) = Some (Ok ?f)"
    using assms(9,10) by (simp add: make_zip_file_Ok Decoder_new_def method_from_u16_def)
  then have "by_index_decrypt E a i password = Some (Ok ?f)"
    unfolding by_index_decrypt_at [OF assms(3)] assms(4) open_decrypt_aes [OF assms(5-7) t(1)] r(1) bind_opt.simps .
  moreover have "read_entry E ?f = Some (Ok p)"
    using read_fresh_file [OF d assms(17,16), of m ds False] by (simp add: crc_verdict_def)
  ultimately show ?thesis by blast
qed

section \<open>A framed format\<close>

text \<open>The first byte says how many bytes follow, and what comes after them is not looked at.\<close>

type_synonym 's framed = "'s \<times> nat option"

definition framed_body :: "(nat \<Rightarrow> ('s, u8 list, io_error) act) \<Rightarrow> nat \<Rightarrow> 's \<Rightarrow> nat
    \<Rightarrow> (u8 list, io_error) outcome \<times> 's framed" where
  "framed_body rd n s k =
     (if k = 0 then (Ok [], s, Some 0)
      else case rd (min n k) s of
        (Ok bs, s') \<Rightarrow> (Ok bs, s', Some (k - length bs))
      | (v, s') \<Rightarrow> (v, s', Some k))"

definition framed_read :: "(nat \<Rightarrow> ('s, u8 list, io_error) act) \<Rightarrow> nat \<Rightarrow> ('s framed, u8 list, io_error) act" where
  "framed_read rd n x =
     (case snd x of
        Some k \<Rightarrow> framed_body rd n (fst x) k
      | None \<Rightarrow>
          (case rd 1 (fst x) of
             (Ok bs, s) \<Rightarrow> framed_body rd n s (unat (hd bs))
           | (v, s) \<Rightarrow> (v, s, None)))"

lemma framed_body_eof: "framed_body rd n s 0 = (Ok [], s, Some 0)"
  by (simp add: framed_body_def)

definition framed_decodes :: decodes where
  "framed_decodes meth k data =
     (case data of
        [] \<Rightarrow> None
      | b # rest \<Rightarrow> if meth = Deflated \<and> unat b \<le> length rest then Some (take (unat b) rest) else None)"

definition framed_lib :: "('s, 's framed) codec_lib" where
  "framed_lib = \<lparr> deflate_new = (\<lambda>s. (s, None)), deflate_read = framed_read, deflate64_new = (\<lambda>s. (s, None)),
     deflate64_read = framed_read, bzip2_new = (\<lambda>s. (s, None)), bzip2_read = framed_read,
     zstd_new = (\<lambda>rd s. Ok (s, None)), zstd_read = framed_read, lzma_run = (\<lambda>d n. ([d], None)),
     xz_run = (\<lambda>d. ([d], None)), lzma_io_text = (\<lambda>t. t) \<rparr>"

context read_some
begin

fun framed_content :: "'s framed \<Rightarrow> u8 list" where
  "framed_content (s, Some k) = take k (held s)"
| "framed_content (s, None) = take (unat (hd (held s))) (tl (held s))"

fun framed_good :: "'s framed \<Rightarrow> bool" where
  "framed_good (s, Some k) \<longleftrightarrow> good s \<and> k \<le> length (held s)"
| "framed_good (s, None) \<longleftrightarrow> good s \<and> held s \<noteq> [] \<and> unat (hd (held s)) \<le> length (tl (held s))"

lemma framed_body_some:
  assumes "good s" and "k \<le> length (held s)" and "0 < n" and "0 < k"
  shows "\<exists>j x. 0 < j \<and> j \<le> n \<and> j \<le> length (take k (held s)) \<and>
    framed_body rd n s k = (Ok (take j (take k (held s))), x) \<and>
    framed_content x = drop j (take k (held s)) \<and> framed_good x"
proof -
  have "0 < min n k" "held s \<noteq> []" using assms by auto
  from some [OF assms(1) this] obtain j s' where j: "0 < j" "j \<le> min n k" "j \<le> length (held s)"
    "rd (min n k) s = (Ok (take j (held s)), s')" "held s' = drop j (held s)" "good s'" by blast
  then show ?thesis using assms
    by (intro exI [of _ j] exI [of _ "(s', Some (k - j))"]) (auto simp: framed_body_def drop_take min_absorb2)
qed

text \<open>Reading the length byte first makes no difference to what is left.\<close>

lemma framed_start:
  assumes "framed_good (s, None)"
  shows "\<exists>s'. framed_read rd n (s, None) = framed_body rd n s' (unat (hd (held s))) \<and> good s' \<and>
    held s' = tl (held s)"
proof -
  from assms have "good s" "held s \<noteq> []" by auto
  from some [OF this(1) zero_less_one this(2)] obtain k s' where "0 < k" "k \<le> 1"
    "rd 1 s = (Ok (take k (held s)), s')" "held s' = drop k (held s)" "good s'" by blast
  moreover from this(1,2) have "k = 1" by simp
  moreover have "hd (take 1 (held s)) = hd (held s)" using assms by (cases "held s") auto
  ultimately show ?thesis by (auto simp: framed_read_def drop_Suc)
qed

lemma framed_stream: "read_stream (framed_read rd) framed_content framed_good"
proof (unfold_locales, goal_cases)
  case (1 x n)
  obtain s v where x: "x = (s, v)" by (rule prod.exhaust)
  show ?case
  proof (cases v)
    case (Some k)
    with 1 x framed_body_some [of s k n] show ?thesis by (auto simp: framed_read_def)
  next
    case None
    with 1(1) x framed_start [of s n] obtain s' where
      s': "framed_read rd n x = framed_body rd n s' (unat (hd (held s)))" "good s'" "held s' = tl (held s)" by auto
    with 1 x None framed_body_some [of s' "unat (hd (held s))" n] show ?thesis by auto
  qed
next
  case (2 x n)
  obtain s v where x: "x = (s, v)" by (rule prod.exhaust)
  show ?case
  proof (cases v)
    case (Some k)
    with 2 x have "k = 0" by auto
    with 2 x Some show ?thesis by (simp add: framed_read_def framed_body_eof)
  next
    case None
    with 2(1) x framed_start [of s n] obtain s' where
      s': "framed_read rd n x = framed_body rd n s' (unat (hd (held s)))" "good s'" "held s' = tl (held s)" by auto
    from 2 x None have "unat (hd (held s)) \<le> length (tl (held s))"
      "take (unat (hd (held s))) (tl (held s)) = []" by (simp_all del: length_tl)
    then have "unat (hd (held s)) = 0" by (auto simp del: length_tl)
    with s' show ?thesis by (simp add: framed_body_eof)
  qed
qed

end

lemma framed_stops_early: "stops_early framed_lib framed_decodes"
proof -
  have "decodes_as framed_read rd (s, None) p"
    if rd: "read_some rd held good" "good s" and w: "held s = w @ rest"
      and p: "framed_decodes Deflated k w = Some p" for rd held good s k w rest p
  proof -
    from p obtain b ws where c: "w = b # ws" "unat b \<le> length ws" "p = take (unat b) ws"
      by (auto simp: framed_decodes_def split: list.splits if_splits)
    then have "read_some.framed_good held good (s, None)" "read_some.framed_content held (s, None) = p"
      using rd(2) w by (simp_all add: read_some.framed_good.simps [OF rd(1)] read_some.framed_content.simps [OF rd(1)])
    with read_some.framed_stream [OF rd(1)] show ?thesis unfolding decodes_as_def by blast
  qed
  then show ?thesis unfolding stops_early_def by (auto simp: framed_lib_def)
qed

definition framed_externals :: "(u32, u8, u8, u8 list, (u8, u8, u8 list) boxed framed) externals" where
  "framed_externals = \<lparr> x_crc = bytewise_crc, x_aes = counter_lib, x_strong = chain_lib,
     x_codec = framed_lib, x_sizes = (\<lambda>_. 1) \<rparr>"

text \<open>An AE-2 entry under method 8 whose ciphertext is a frame of one byte and one byte behind it.\<close>

abbreviation framed_aes :: aes_info where
  "framed_aes \<equiv> \<lparr> strength = 1, actual_method = 8, is_ae2 = True \<rparr>"

definition framed_archive :: "u8 list \<Rightarrow> zip_archive" where
  "framed_archive code = one_archive (one_entry 1 0 (Some framed_aes) 23) (replicate 8 0 @ [3, 3] @ [4, 71, 7] @ code)"

theorem aes_code_unchecked_witness:
  "\<exists>f g. by_index_decrypt framed_externals (framed_archive (replicate 10 1)) 0 [9] = Some (Ok f) \<and>
    read_entry framed_externals f = Some (Ok [65]) \<and>
    by_index_decrypt framed_externals (framed_archive (replicate 10 2)) 0 [9] = Some (Ok g) \<and>
    read_entry framed_externals g = Some (Ok [65])"
proof -
  have "\<exists>f. by_index_decrypt framed_externals (framed_archive code) 0 [9] = Some (Ok f) \<and>
      read_entry framed_externals f = Some (Ok [65])" if "length code = 10" for code
  proof -
    let ?m = "one_entry 1 0 (Some framed_aes) 23" and ?data = "replicate 8 0 @ [3, 3] @ [4, 71, 7] @ code"
    have "placed (za_reader (framed_archive code)) ?m ?data"
      using one_placed [where data = ?data and flags = 1 and crc = 0 and aes = "Some framed_aes"] that
      by (simp add: framed_archive_def)
    moreover have "aes_verifier counter_lib [9] framed_aes (replicate 8 0) = [3, 3]"
      "aes_plain counter_lib [9] framed_aes (replicate 8 0) [4, 71, 7] = [1, 65] @ [0]" by code_simp+
    moreover have E: "x_aes framed_externals = counter_lib" "x_codec framed_externals = framed_lib"
      "x_crc framed_externals = bytewise_crc" "x_sizes framed_externals j = 1" for j
      by (simp_all add: framed_externals_def)
    moreover have "framed_decodes Deflated k [1, 65] = Some [65]" for k by (simp add: framed_decodes_def)
    ultimately show ?thesis
      using aes_code_unchecked [where a = "framed_archive code" and m = ?m and salt = "replicate 8 0" and E = framed_externals
          and password = "[9]" and aes = framed_aes and ct = "[4, 71, 7]" and code = code and i = 0 and D = framed_decodes
          and w = "[1, 65]" and rest = "[0]" and p = "[65]"] that framed_stops_early
      by (simp add: framed_archive_def has_bits_def salt_len_def counter_lib_ok crc_chunked_bytewise)
  qed
  from this [of "replicate 10 1"] this [of "replicate 10 2"] show ?thesis by auto
qed

end
