(* ===== verification/NoPanic.thy ===== *)
theory NoPanic
  imports Extract
begin

text \<open>
  Reading untrusted entries ends without a panic. \<open>quiet_reader\<close> is a reader that never panics, never
  returns more than it was asked for, and has a bound on what it can still return; the interface is met
  by the file, by \<open>take\<close>, by the boxed reader of an entry opened without a password, by the
  decoder over it and by \<open>ZipFile\<close>, whose byte counter the bound keeps below 64 bits.
\<close>

section \<open>The interface\<close>

locale quiet_reader =
  fixes rd :: "nat \<Rightarrow> ('s, u8 list, io_error) act"
    and inv :: "'s \<Rightarrow> bool"
    and budget :: "'s \<Rightarrow> nat"
  assumes quiet: "inv s \<Longrightarrow> (\<exists>e s'. rd n s = (Err e, s')) \<or>
      (\<exists>bs s'. rd n s = (Ok bs, s') \<and> length bs \<le> n \<and> length bs + budget s' \<le> budget s \<and> inv s')"
begin

lemma quiet_cases [consumes 1, case_names err data]:
  assumes "inv s"
  obtains (err) e s' where "rd n s = (Err e, s')"
    | (data) bs s' where "rd n s = (Ok bs, s')" "length bs \<le> n" "length bs + budget s' \<le> budget s" "inv s'"
  using quiet [OF assms, of n] by blast

text \<open>Whatever buffers are offered, reading to the end returns, without a panic and within the bound.\<close>

lemma read_to_end_quiet:
  assumes "inv s"
  shows "\<exists>v s'. read_to_end rd sizes i acc s = Some (v, s') \<and> v \<noteq> Panic \<and>
    (\<forall>out. v = Ok out \<longrightarrow> length out \<le> length acc + budget s)"
  using assms
proof (induction "budget s" arbitrary: s i acc rule: less_induct)
  case less
  from less.prems show ?case
  proof (cases rule: quiet_cases [where n = "sizes i"])
    case (err e s')
    then show ?thesis by (subst read_to_end.simps) simp
  next
    case (data bs s')
    show ?thesis
    proof (cases "bs = []")
      case True
      with data show ?thesis by (subst read_to_end.simps) simp
    next
      case False
      with data(3) have "budget s' < budget s" by (cases bs) auto
      from less.hyps [OF this data(4), of "Suc i" "acc @ bs"] data False show ?thesis
        by (subst read_to_end.simps) fastforce
    qed
  qed
qed

text \<open>\<open>read_exact\<close> delivers all it was asked for, or fails.\<close>

lemma read_exact_quiet:
  assumes "inv s"
  shows "(\<exists>e s'. read_exact rd n s = (Err e, s')) \<or>
    (\<exists>bs s'. read_exact rd n s = (Ok bs, s') \<and> length bs = n \<and> n + budget s' \<le> budget s \<and> inv s')"
  using assms
proof (induction n arbitrary: s rule: less_induct)
  case (less n)
  show ?case
  proof (cases "n = 0")
    case True
    with less.prems show ?thesis by (subst read_exact.simps) simp
  next
    case False
    from less.prems show ?thesis
    proof (cases rule: quiet_cases [where n = n])
      case (err e s')
      with False show ?thesis by (subst read_exact.simps) simp
    next
      case (data bs s')
      show ?thesis
      proof (cases "bs = []")
        case True
        with data False show ?thesis by (subst read_exact.simps) simp
      next
        case ne: False
        with data(2) have "n - length bs < n" using False by (cases bs) auto
        from less.IH [OF this data(4)] show ?thesis
        proof (elim disjE exE conjE)
          fix e t assume "read_exact rd (n - length bs) s' = (Err e, t)"
          with data(1,2) False ne show ?thesis by (subst read_exact.simps) auto
        next
          fix cs t assume "read_exact rd (n - length bs) s' = (Ok cs, t)" "length cs = n - length bs"
            "n - length bs + budget t \<le> budget s'" "inv t"
          moreover from this have "read_exact rd n s = (Ok (bs @ cs), t)"
            using data(1,2) False ne by (subst read_exact.simps) auto
          ultimately show ?thesis using data(2,3) by auto
        qed
      qed
    qed
  qed
qed

lemma take_quiet:
  "quiet_reader (take_read rd) (\<lambda>t. inv (tk_inner t)) (\<lambda>t. min (unat (tk_limit t)) (budget (tk_inner t)))"
proof
  fix t :: "'s take_reader" and n
  let ?n = "min n (unat (tk_limit t))"
  have limit: "unat (tk_limit t - of_nat k) = unat (tk_limit t) - k" if "k \<le> unat (tk_limit t)" for k
  proof -
    have "k < 18446744073709551616" using that by (rule le_less_trans) simp
    then have "unat (of_nat k :: u64) = k" by (rule unat_of_nat64)
    with that show ?thesis by (simp add: unat_sub word_le_nat_alt)
  qed
  assume i: "inv (tk_inner t)"
  then show "(\<exists>e t'. take_read rd n t = (Err e, t')) \<or>
      (\<exists>bs t'. take_read rd n t = (Ok bs, t') \<and> length bs \<le> n \<and>
        length bs + min (unat (tk_limit t')) (budget (tk_inner t')) \<le> min (unat (tk_limit t)) (budget (tk_inner t)) \<and>
        inv (tk_inner t'))"
    by (cases rule: quiet_cases [where n = ?n]) (use i in \<open>auto simp: take_read_def limit\<close>)
qed

lemma read_capped_quiet:
  assumes "inv s"
  shows "\<exists>v. read_capped rd sizes s cap = Some v \<and> v \<noteq> Panic"
proof -
  from assms have "inv (tk_inner (take_new s (saturating_add64 cap 1)))" by (simp add: take_new_def)
  from quiet_reader.read_to_end_quiet [OF take_quiet this, of sizes 0 "[]"] show ?thesis
    by (auto simp: read_capped_def and_then_eq_Panic)
qed

end

interpretation quiet_file: quiet_reader cursor_read "\<lambda>c. True" "\<lambda>c. length (ahead c)"
proof
  fix c :: cursor and n
  show "(\<exists>e s'. cursor_read n c = (Err e, s')) \<or> (\<exists>bs s'. cursor_read n c = (Ok bs, s') \<and> length bs \<le> n \<and>
      length bs + length (ahead s') \<le> length (ahead c) \<and> True)"
    by (simp add: cursor_read_def)
qed

interpretation quiet_take: quiet_reader file_read "\<lambda>t. True" "\<lambda>t. length (window t)"
  using quiet_file.take_quiet by (simp add: min.commute)

text \<open>Without a password the boxed reader is the limited file.\<close>

definition from_file :: "('c, 'm, 'd) boxed \<Rightarrow> bool" where
  "from_file b \<longleftrightarrow> (case b of BoxTake t \<Rightarrow> True | _ \<Rightarrow> False)"

definition box_budget :: "('c, 'm, 'd) boxed \<Rightarrow> nat" where
  "box_budget b = (case b of BoxTake t \<Rightarrow> length (window t) | _ \<Rightarrow> 0)"

lemma boxed_read_quiet:
  fixes E :: "('h, 'c, 'm, 'd, 'x) externals"
  shows "quiet_reader (boxed_read E) from_file box_budget"
proof
  fix b :: "('c, 'm, 'd) boxed" and n assume "from_file b"
  then obtain t where b: "b = BoxTake t" by (auto simp: from_file_def split: boxed.splits)
  from quiet_take.quiet [OF TrueI, where n = n and s = t]
  show "(\<exists>e s'. boxed_read E n b = (Err e, s')) \<or> (\<exists>bs s'. boxed_read E n b = (Ok bs, s') \<and> length bs \<le> n \<and>
      length bs + box_budget s' \<le> box_budget b \<and> from_file s')"
    by (auto simp: b boxed_read_def lift_read_def from_file_def box_budget_def)
qed

interpretation quiet_box: quiet_reader "boxed_read E" from_file box_budget for E
  by (rule boxed_read_quiet)

section \<open>The decoders\<close>

text \<open>
  What is asked of the decoder crates: over a quiet reader a streaming decoder is again one, and
  DEFLATE and Deflate64, whose output nothing caps, expand at most \<open>2 ^ 16\<close>-fold (the formats
  give less than 1,033 and 29,128); the constructor of the Zstandard decoder does not panic.
\<close>

definition codec_quiet :: "('s, 'x, 'z) codec_lib_scheme \<Rightarrow> bool" where
  "codec_quiet L \<longleftrightarrow> (\<forall>rd inv budget. quiet_reader rd inv budget \<longrightarrow>
     (\<exists>J B. quiet_reader (deflate_read L rd) J B \<and>
        (\<forall>s. inv s \<longrightarrow> J (deflate_new L s) \<and> B (deflate_new L s) \<le> 2 ^ 16 * (budget s + 1))) \<and>
     (\<exists>J B. quiet_reader (deflate64_read L rd) J B \<and>
        (\<forall>s. inv s \<longrightarrow> J (deflate64_new L s) \<and> B (deflate64_new L s) \<le> 2 ^ 16 * (budget s + 1))) \<and>
     (\<exists>J B. quiet_reader (bzip2_read L rd) J B \<and> (\<forall>s. inv s \<longrightarrow> J (bzip2_new L s))) \<and>
     (\<exists>J B. quiet_reader (zstd_read L rd) J B \<and>
        (\<forall>s. inv s \<longrightarrow> zstd_new L rd s \<noteq> Panic \<and> (\<forall>x. zstd_new L rd s = Ok x \<longrightarrow> J x))))"

lemmas codec_quietD = codec_quiet_def [THEN iffD1, rule_format]

lemma codec_quiet_raw: "codec_quiet raw_lib"
  unfolding codec_quiet_def
proof (intro allI impI conjI, goal_cases)
  case (1 rd inv budget)
  then show ?case by (intro exI [of _ inv] exI [of _ budget]) (simp add: raw_lib_def)
next
  case (2 rd inv budget)
  then show ?case by (intro exI [of _ inv] exI [of _ budget]) (simp add: raw_lib_def)
next
  case (3 rd inv budget)
  then show ?case by (intro exI [of _ inv] exI [of _ budget]) (simp add: raw_lib_def)
next
  case (4 rd inv budget)
  then show ?case by (intro exI [of _ inv] exI [of _ budget]) (simp add: raw_lib_def)
qed

lemma run_one_shot_no_panic: "run_one_shot t r cap \<noteq> Panic"
proof (cases r)
  case (Pair chunks verdict)
  show ?thesis
    using write_chunks_cases [of "CappedWriter_new cap" chunks]
    by (cases "length (concat chunks) \<le> unat cap")
      (auto simp: Pair run_one_shot_def CappedWriter_new_def split: option.splits prod.splits outcome.splits)
qed

lemma decode_zip_lzma_no_panic: "decode_zip_lzma L data n \<noteq> Panic"
  by (auto simp: decode_zip_lzma_def and_then_eq_Panic run_one_shot_no_panic slice_from_def u16_at_def slice_Panic_iff)

lemma buffered_Panic: "buffered v = Panic \<longleftrightarrow> v = Panic"
  by (simp add: buffered_def and_then_eq_Panic)

lemma map_err_not_Panic: "v \<noteq> Panic \<Longrightarrow> map_err g v \<noteq> Panic"
  by simp

text \<open>A decoder is a quiet reader when what it wraps is, whether the entry's reader or a streaming decoder.\<close>

definition decoder_good :: "('s \<Rightarrow> bool) \<Rightarrow> ('x \<Rightarrow> bool) \<Rightarrow> ('x \<Rightarrow> bool) \<Rightarrow> ('s, 'x) decoder \<Rightarrow> bool" where
  "decoder_good good J1 J2 d = (case d of StoredDecoder r \<Rightarrow> good r | DeflateDecoder x \<Rightarrow> J1 x
     | Deflate64Decoder x \<Rightarrow> J2 x | BufferedDecoder c \<Rightarrow> True)"

definition decoder_budget :: "('s \<Rightarrow> nat) \<Rightarrow> ('x \<Rightarrow> nat) \<Rightarrow> ('x \<Rightarrow> nat) \<Rightarrow> ('s, 'x) decoder \<Rightarrow> nat" where
  "decoder_budget budget B1 B2 d = (case d of StoredDecoder r \<Rightarrow> budget r | DeflateDecoder x \<Rightarrow> B1 x
     | Deflate64Decoder x \<Rightarrow> B2 x | BufferedDecoder c \<Rightarrow> length (ahead c))"

lemmas decoder_quiet_defs = decoder_good_def decoder_budget_def decoder_read_def lift_read_def

lemma decoder_read_quiet:
  assumes "quiet_reader rd good budget" and "quiet_reader (deflate_read L rd) J1 B1"
    and "quiet_reader (deflate64_read L rd) J2 B2"
  shows "quiet_reader (decoder_read L rd) (decoder_good good J1 J2) (decoder_budget budget B1 B2)"
proof
  fix d n assume d: "decoder_good good J1 J2 d"
  show "(\<exists>e d'. decoder_read L rd n d = (Err e, d')) \<or> (\<exists>bs d'. decoder_read L rd n d = (Ok bs, d') \<and>
      length bs \<le> n \<and> length bs + decoder_budget budget B1 B2 d' \<le> decoder_budget budget B1 B2 d \<and>
      decoder_good good J1 J2 d')"
  proof (cases d)
    case (StoredDecoder r)
    with d show ?thesis using quiet_reader.quiet [OF assms(1), of r n] by (auto simp: decoder_quiet_defs)
  next
    case (DeflateDecoder r)
    with d show ?thesis using quiet_reader.quiet [OF assms(2), of r n] by (auto simp: decoder_quiet_defs)
  next
    case (Deflate64Decoder r)
    with d show ?thesis using quiet_reader.quiet [OF assms(3), of r n] by (auto simp: decoder_quiet_defs)
  next
    case (BufferedDecoder c)
    then show ?thesis using quiet_file.quiet [OF TrueI, where n = n and s = c] by (auto simp: decoder_quiet_defs)
  qed
qed

text \<open>Starting the decoder of any method ends, without a panic.\<close>

lemma Decoder_new_returns:
  assumes rd: "quiet_reader rd good budget" and L: "codec_quiet L" and s: "good s"
  shows "\<exists>v. Decoder_new L rd sizes meth n s = Some v \<and> v \<noteq> Panic"
proof -
  from codec_quietD [OF L rd] s obtain J3 B3 J4 B4 where
    q3: "quiet_reader (bzip2_read L rd) J3 B3" "J3 (bzip2_new L s)"
    and q4: "quiet_reader (zstd_read L rd) J4 B4" "zstd_new L rd s \<noteq> Panic"
      "\<And>x. zstd_new L rd s = Ok x \<Longrightarrow> J4 x"
    by metis
  have rte: "\<exists>v s'. read_to_end rd sizes 0 [] s = Some (v, s') \<and> v \<noteq> Panic"
    using quiet_reader.read_to_end_quiet [OF rd s, of sizes 0 "[]"] by blast
  show ?thesis
  proof (cases meth)
    case Bzip2
    with quiet_reader.read_capped_quiet [OF q3, of sizes MAX_BUFFERED_DECODE] show ?thesis
      by (auto simp: Decoder_new_def buffered_Panic)
  next
    case Zstd
    show ?thesis
    proof (cases "zstd_new L rd s")
      case (Ok x)
      from quiet_reader.read_capped_quiet [OF q4(1) q4(3) [OF Ok], of sizes MAX_BUFFERED_DECODE] Ok Zstd
      show ?thesis by (auto simp: Decoder_new_def buffered_Panic)
    qed (use q4(2) Zstd in \<open>simp_all add: Decoder_new_def\<close>)
  next
    case Lzma
    with rte show ?thesis
      by (auto simp: Decoder_new_def buffered_Panic and_then_eq_Panic decode_zip_lzma_no_panic)
  next
    case Xz
    with rte show ?thesis
      by (auto simp: Decoder_new_def buffered_Panic and_then_eq_Panic run_one_shot_no_panic)
  qed (simp_all add: Decoder_new_def)
qed

lemma Decoder_new_streams:
  assumes "Decoder_new L rd sizes meth n s = Some (Ok d)"
  shows "d = StoredDecoder r \<Longrightarrow> r = s" and "d = DeflateDecoder x \<Longrightarrow> x = deflate_new L s"
    and "d = Deflate64Decoder x \<Longrightarrow> x = deflate64_new L s"
  using assms by (auto simp: Decoder_new_def buffered_def split: compression_method.splits outcome.splits)

text \<open>
  So what a decoder of an entry can still return is bounded: by its input when it streams, by the cap when
  it is buffered.
\<close>

lemma decoder_quiet:
  assumes rd: "quiet_reader rd good budget" and L: "codec_quiet L"
  shows "\<exists>J B. quiet_reader (decoder_read L rd) J B \<and>
    (\<forall>sizes meth n s. good s \<longrightarrow> (\<exists>v. Decoder_new L rd sizes meth n s = Some v \<and> v \<noteq> Panic \<and>
      (\<forall>d. v = Ok d \<longrightarrow> J d \<and> B d \<le> 2 ^ 16 * (budget s + 1) + 2 ^ 32)))"
proof -
  from codec_quietD [OF L rd] obtain J1 B1 J2 B2 where
    q1: "quiet_reader (deflate_read L rd) J1 B1"
    and n1: "\<And>s. good s \<Longrightarrow> J1 (deflate_new L s) \<and> B1 (deflate_new L s) \<le> 2 ^ 16 * (budget s + 1)"
    and q2: "quiet_reader (deflate64_read L rd) J2 B2"
    and n2: "\<And>s. good s \<Longrightarrow> J2 (deflate64_new L s) \<and> B2 (deflate64_new L s) \<le> 2 ^ 16 * (budget s + 1)"
    by metis
  let ?J = "decoder_good good J1 J2" and ?B = "decoder_budget budget B1 B2"
  have "?J d \<and> ?B d \<le> 2 ^ 16 * (budget s + 1) + 2 ^ 32"
    if s: "good s" and d: "Decoder_new L rd sizes meth n s = Some (Ok d)" for sizes meth n s d
  proof (cases d)
    case (BufferedDecoder c)
    with buffered_decoder_small d show ?thesis
      by (fastforce simp: decoder_good_def decoder_budget_def ahead_def unat_MAX_BUFFERED_DECODE)
  next
    case (StoredDecoder r)
    with Decoder_new_streams(1) [OF d] s show ?thesis by (simp add: decoder_good_def decoder_budget_def)
  next
    case (DeflateDecoder x)
    with Decoder_new_streams(2) [OF d] n1 [OF s] show ?thesis by (simp add: decoder_good_def decoder_budget_def)
  next
    case (Deflate64Decoder x)
    with Decoder_new_streams(3) [OF d] n2 [OF s] show ?thesis by (simp add: decoder_good_def decoder_budget_def)
  qed
  with decoder_read_quiet [OF rd q1 q2] Decoder_new_returns [OF rd L] show ?thesis
    by (intro exI [of _ ?J] exI [of _ ?B] conjI allI impI) fastforce+
qed

section \<open>Opened entries\<close>

lemma zip_file_read_quiet:
  fixes E :: "('h, 'c, 'm, 'd, 'x) externals"
  assumes "quiet_reader (decoder_read (x_codec E) (boxed_read E)) J B"
  shows "quiet_reader (zip_file_read E) (\<lambda>f. J (zf_decoder f) \<and> unat (zf_bytes_out f) + B (zf_decoder f) < 2 ^ 64)
    (\<lambda>f. B (zf_decoder f))"
proof
  fix f :: "('h, 'c, 'm, 'd, 'x) zip_file" and n
  assume f: "J (zf_decoder f) \<and> unat (zf_bytes_out f) + B (zf_decoder f) < 2 ^ 64"
  from quiet_reader.quiet [OF assms, of "zf_decoder f" n] f consider
      e d where "decoder_read (x_codec E) (boxed_read E) n (zf_decoder f) = (Err e, d)"
    | bs d where "decoder_read (x_codec E) (boxed_read E) n (zf_decoder f) = (Ok bs, d)"
        "length bs \<le> n" "length bs + B d \<le> B (zf_decoder f)" "J d"
    by blast
  then show "(\<exists>e f'. zip_file_read E n f = (Err e, f')) \<or> (\<exists>bs f'. zip_file_read E n f = (Ok bs, f') \<and>
      length bs \<le> n \<and> length bs + B (zf_decoder f') \<le> B (zf_decoder f) \<and>
      J (zf_decoder f') \<and> unat (zf_bytes_out f') + B (zf_decoder f') < 2 ^ 64)"
  proof cases
    case (1 e d)
    then show ?thesis by (simp add: zip_file_read_Err)
  next
    case (2 bs d)
    show ?thesis
    proof (cases "bs = []")
      case True
      with 2 f show ?thesis by (auto simp: zip_file_read_def Let_def)
    next
      case False
      from 2(3) f have small: "unat (zf_bytes_out f) + length bs < 2 ^ 64" by simp
      then have "unat (of_nat (length bs) :: u64) = length bs" by (simp add: unat_of_nat64)
      with small have "unat (zf_bytes_out f + of_nat (length bs)) = unat (zf_bytes_out f) + length bs"
        by (simp add: unat_add64)
      with zip_file_read_data [OF 2(1) False small] 2 f show ?thesis by simp
    qed
  qed
qed

lemma entry_data_fine:
  assumes "length (cu_data c) < 2 ^ 63"
  shows "entry_data m c \<noteq> Panic"
    and "entry_data m c = Ok (ds, t) \<Longrightarrow> length (ahead (tk_inner t)) \<le> length (cu_data c)"
proof -
  show "entry_data m c \<noteq> Panic"
    using read_lfh_fields_fine [OF assms, of "ce_lfh_offset m"]
    by (auto simp: entry_data_def seq_eq_Panic fine_def seek_start_def)
  assume "entry_data m c = Ok (ds, t)"
  then obtain l c' where rd: "read_lfh_fields (ce_lfh_offset m) c = (Ok (l, ds), c')"
    and t: "tk_inner t = c'\<lparr>cu_pos := unat ds\<rparr>"
    by (cases "read_lfh_fields (ce_lfh_offset m) c")
      (auto simp: entry_data_def seq_def with_err_def seek_start_def take_new_def split: outcome.splits)
  from keeps_dataD [OF keeps_data_read_lfh rd] t show "length (ahead (tk_inner t)) \<le> length (cu_data c)" by simp
qed

lemma make_zip_file_quiet:
  fixes E :: "('h, 'c, 'm, 'd, 'x) externals"
  assumes "quiet_reader (boxed_read E) G K" and "codec_quiet (x_codec E)"
  shows "\<exists>Q B. quiet_reader (zip_file_read E) Q B \<and>
    (\<forall>m ds meth verify b. G b \<and> K b < 2 ^ 47 \<longrightarrow>
      (\<exists>v. make_zip_file E m ds meth verify b = Some v \<and> v \<noteq> Panic \<and> (\<forall>f. v = Ok f \<longrightarrow> Q f)))"
proof -
  from decoder_quiet [OF assms] obtain J B where
    q: "quiet_reader (decoder_read (x_codec E) (boxed_read E)) J B"
    and n: "\<And>sizes meth n s. G s \<Longrightarrow> \<exists>v. Decoder_new (x_codec E) (boxed_read E) sizes meth n s = Some v \<and>
      v \<noteq> Panic \<and> (\<forall>d. v = Ok d \<longrightarrow> J d \<and> B d \<le> 2 ^ 16 * (K s + 1) + 2 ^ 32)"
    by blast
  have "\<exists>v. make_zip_file E m ds meth verify b = Some v \<and> v \<noteq> Panic \<and>
      (\<forall>f. v = Ok f \<longrightarrow> J (zf_decoder f) \<and> unat (zf_bytes_out f) + B (zf_decoder f) < 2 ^ 64)"
    if b: "G b" "K b < 2 ^ 47" for m ds meth verify b
  proof -
    from n [OF b(1), of "x_sizes E" meth "ce_uncompressed_size m"] obtain v where
      v: "Decoder_new (x_codec E) (boxed_read E) (x_sizes E) meth (ce_uncompressed_size m) b = Some v"
      "v \<noteq> Panic" "\<And>d. v = Ok d \<Longrightarrow> J d \<and> B d \<le> 2 ^ 16 * (K b + 1) + 2 ^ 32" by blast
    have "J d \<and> B d < 2 ^ 64" if "v = Ok d" for d using v(3) [OF that] b(2) by simp
    with v(1,2) show ?thesis by (auto simp: make_zip_file_def and_then_eq_Panic)
  qed
  with zip_file_read_quiet [OF q] show ?thesis by blast
qed

text \<open>An opened archive still reads the file it was opened from.\<close>

lemma opened_data:
  assumes "ZipArchive_new (cursor_new data) = Ok a"
  shows "cu_data (za_reader a) = data"
proof -
  have keep: "keeps_data (parse_central_directory flen)" for flen
    unfolding parse_central_directory_def by (intro keeps_data_seq keeps_data_locate keeps_data_read)
  from assms obtain es s where "parse_central_directory (of_nat (length data)) (at_end data) = (Ok (es, s), za_reader a)"
    by (auto simp: ZipArchive_new_eq split: prod.splits outcome.splits)
  from keeps_dataD [OF keep this] show ?thesis by simp
qed

text \<open>Opening an entry without a password, and reading it, end without a panic.\<close>

lemma check_local_disk_no_panic: "check_local_disk m d s \<noteq> Panic"
  by (simp add: check_local_disk_def)

lemma bind_opt_returns:
  assumes "w \<noteq> Panic" and "\<And>a. w = Ok a \<Longrightarrow> \<exists>v. g a = Some v \<and> v \<noteq> Panic \<and> (\<forall>f. v = Ok f \<longrightarrow> Q f)"
  shows "\<exists>v. bind_opt w g = Some v \<and> v \<noteq> Panic \<and> (\<forall>f. v = Ok f \<longrightarrow> Q f)"
  using assms by (cases w) auto

lemma entry_at_no_panic: "entry_at a i \<noteq> Panic" "entry_named a name \<noteq> Panic"
  by (simp_all add: entry_at_def entry_named_def)

lemma archive_open_quiet:
  assumes "\<And>m ds meth verify t. length (window t) < 2 ^ 47 \<Longrightarrow>
      \<exists>v. make_zip_file E m ds meth verify (BoxTake t) = Some v \<and> v \<noteq> Panic \<and> (\<forall>f. v = Ok f \<longrightarrow> Q f)"
    and "length (cu_data (za_reader a)) < 2 ^ 47"
  shows "\<exists>v. archive_open E a m = Some v \<and> v \<noteq> Panic \<and> (\<forall>f. v = Ok f \<longrightarrow> Q f)"
  unfolding archive_open_def
proof (intro bind_opt_returns check_local_disk_no_panic)
  have len63: "length (cu_data (za_reader a)) < 2 ^ 63" using assms(2) by simp
  have "\<exists>v. (case p of (ds, t) \<Rightarrow> make_zip_file E m ds (ce_method m) True (BoxTake t)) = Some v \<and>
      v \<noteq> Panic \<and> (\<forall>f. v = Ok f \<longrightarrow> Q f)" if p: "entry_data m (za_reader a) = Ok p" for p
  proof -
    obtain ds t where pt: "p = (ds, t)" by (rule prod.exhaust)
    with entry_data_fine(2) [OF len63] p have "length (ahead (tk_inner t)) \<le> length (cu_data (za_reader a))" by blast
    with assms(2) have "length (window t) < 2 ^ 47" by simp
    from assms(1) [OF this] pt show ?thesis by simp
  qed
  then have "\<exists>v. bind_opt (entry_data m (za_reader a)) (\<lambda>(ds, t). make_zip_file E m ds (ce_method m) True (BoxTake t)) =
      Some v \<and> v \<noteq> Panic \<and> (\<forall>f. v = Ok f \<longrightarrow> Q f)"
    by (intro bind_opt_returns entry_data_fine(1) [OF len63]) blast
  then show "\<exists>v. (if has_bits (ce_flags m) 1 then Some (Err (EncryptedNoPassword (ce_name m)))
      else bind_opt (entry_data m (za_reader a)) (\<lambda>(ds, t). make_zip_file E m ds (ce_method m) True (BoxTake t))) = Some v \<and>
      v \<noteq> Panic \<and> (\<forall>f. v = Ok f \<longrightarrow> Q f)"
    by simp
qed

lemma entries_quiet:
  assumes "codec_quiet (x_codec E)"
  shows "\<exists>Q B. quiet_reader (zip_file_read E) Q B \<and>
    (\<forall>a i. length (cu_data (za_reader a)) < 2 ^ 47 \<longrightarrow>
      (\<exists>v. by_index E a i = Some v \<and> v \<noteq> Panic \<and> (\<forall>f. v = Ok f \<longrightarrow> Q f)))"
proof -
  from make_zip_file_quiet [OF boxed_read_quiet assms] obtain Q B where
    q: "quiet_reader (zip_file_read E) Q B" and
    make: "\<And>m ds meth verify b. from_file b \<Longrightarrow> box_budget b < 2 ^ 47 \<Longrightarrow>
      \<exists>v. make_zip_file E m ds meth verify b = Some v \<and> v \<noteq> Panic \<and> (\<forall>f. v = Ok f \<longrightarrow> Q f)" by blast
  have "\<exists>v. by_index E a i = Some v \<and> v \<noteq> Panic \<and> (\<forall>f. v = Ok f \<longrightarrow> Q f)"
    if "length (cu_data (za_reader a)) < 2 ^ 47" for a i
    unfolding by_index_def using that
    by (intro bind_opt_returns entry_at_no_panic archive_open_quiet make) (simp_all add: from_file_def box_budget_def)
  with q show ?thesis by blast
qed

lemma codec_quiet_sample: "codec_quiet (x_codec sample_externals)"
  by (simp add: sample_externals_def codec_quiet_raw)

end
