(* ===== verification/AnyPassword.thy ===== *)
theory AnyPassword
  imports NoPanic SampleArchive
begin

text \<open>
  The decrypting readers are quiet over a quiet reader (\<open>ZipCryptoReader\<close>, \<open>AesReader\<close>,
  \<open>StrongAesReader\<close>), so opening any entry of any archive with any password, or with none, and reading it
  to the end returns a result and never panics.
\<close>

section \<open>The decrypting readers\<close>

lemma length_decrypt_bytes: "length (fst (decrypt_bytes k cs)) = length cs"
  by (induction k cs rule: decrypt_bytes.induct) (auto split: prod.split)

definition strong_staged :: "('s, 'd) strong_reader \<Rightarrow> bool" where
  "strong_staged r \<longleftrightarrow> sr_block_pos r \<le> sr_block_len r \<and> sr_block_len r \<le> length (sr_block r)"

lemma strong_deliver_staged:
  assumes "strong_staged r"
  shows "\<exists>bs r'. strong_deliver n r = (Ok bs, r') \<and> length bs \<le> n \<and> strong_staged r' \<and> sr_inner r' = sr_inner r \<and>
    length bs + (sr_block_len r' - sr_block_pos r') = sr_block_len r - sr_block_pos r"
proof -
  define k where "k = min (sr_block_len r - sr_block_pos r) n"
  have k: "k \<le> n" "sr_block_pos r + k \<le> sr_block_len r" "sr_block_len r \<le> length (sr_block r)"
    using assms by (auto simp: strong_staged_def k_def)
  then have "slice (sr_block r) (sr_block_pos r) (sr_block_pos r + k) =
      (Ok (take k (drop (sr_block_pos r) (sr_block r))) :: (u8 list, io_error) outcome)"
    by (simp add: slice_OkI)
  then have "strong_deliver n r = (Ok (take k (drop (sr_block_pos r) (sr_block r))), r\<lparr>sr_block_pos := sr_block_pos r + k\<rparr>)"
    by (simp only: strong_deliver_def Let_def k_def [symmetric] outcome.case)
  with k show ?thesis by (simp add: strong_staged_def)
qed

context quiet_reader
begin

lemma zipcrypto_quiet: "quiet_reader (zipcrypto_read rd) (\<lambda>r. inv (zr_inner r)) (\<lambda>r. budget (zr_inner r))"
proof
  fix r :: "'s zipcrypto_reader" and n
  assume "inv (zr_inner r)"
  then show "(\<exists>e r'. zipcrypto_read rd n r = (Err e, r')) \<or> (\<exists>bs r'. zipcrypto_read rd n r = (Ok bs, r') \<and>
      length bs \<le> n \<and> length bs + budget (zr_inner r') \<le> budget (zr_inner r) \<and> inv (zr_inner r'))"
  proof (cases rule: quiet_cases [where n = n])
    case (data bs s')
    obtain ps k where "decrypt_bytes (zr_keys r) bs = (ps, k)" by (rule prod.exhaust)
    moreover from this length_decrypt_bytes [of "zr_keys r" bs] have "length ps = length bs" by simp
    ultimately show ?thesis using data by (simp add: zipcrypto_read_def)
  qed (simp add: zipcrypto_read_def)
qed

lemma zipcrypto_new_quiet:
  assumes "inv s"
  shows "ZipCryptoReader_new rd s password check entry \<noteq> Panic"
    and "ZipCryptoReader_new rd s password check entry = Ok r \<Longrightarrow> inv (zr_inner r) \<and> budget (zr_inner r) \<le> budget s"
  using read_exact_quiet [OF assms, of 12]
  by (auto simp: ZipCryptoReader_new_def split: prod.splits if_splits)

lemma aes_finish_quiet:
  assumes "aes_lib_ok L" and "inv (ar_inner r)"
  shows "(\<exists>e r'. aes_finish L rd r = (Err e, r')) \<or>
    (\<exists>r'. aes_finish L rd r = (Ok (), r') \<and> inv (ar_inner r') \<and> budget (ar_inner r') \<le> budget (ar_inner r))"
  using read_exact_quiet [OF assms(2), of 10] aes_lib_okD(6) [OF assms(1), of "ar_hmac r"]
  by (auto simp: aes_finish_def slice_OkI)

lemma aes_quiet:
  assumes "aes_lib_ok L"
  shows "quiet_reader (aes_read L rd) (\<lambda>r. inv (ar_inner r)) (\<lambda>r. budget (ar_inner r))"
proof
  fix r :: "('s, 'a, 'b) aes_reader" and n
  assume i: "inv (ar_inner r)"
  show "(\<exists>e r'. aes_read L rd n r = (Err e, r')) \<or> (\<exists>bs r'. aes_read L rd n r = (Ok bs, r') \<and>
      length bs \<le> n \<and> length bs + budget (ar_inner r') \<le> budget (ar_inner r) \<and> inv (ar_inner r'))"
  proof (cases "ar_remaining r = 0")
    case True
    show ?thesis
    proof (cases "ar_done r")
      case False
      from i aes_finish_quiet [OF assms, of "r\<lparr>ar_done := True\<rparr>"] consider
          e r' where "aes_finish L rd (r\<lparr>ar_done := True\<rparr>) = (Err e, r')"
        | r' where "aes_finish L rd (r\<lparr>ar_done := True\<rparr>) = (Ok (), r')" "inv (ar_inner r')"
            "budget (ar_inner r') \<le> budget (ar_inner r)"
        by auto
      then show ?thesis using True False by cases (simp_all add: aes_read_def)
    qed (use i True in \<open>simp add: aes_read_def\<close>)
  next
    case False
    from i show ?thesis
    proof (cases rule: quiet_cases [where n = "min n (unat (ar_remaining r))"])
      case (data bs s')
      have "length bs < 18446744073709551616"
        by (rule le_less_trans [OF _ unat_lt64 [of "ar_remaining r"]]) (use data(2) in simp)
      then have "unat (of_nat (length bs) :: u64) = length bs" by (rule unat_of_nat64)
      then have "sub64 (ar_remaining r) (of_nat (length bs)) =
          (Ok (ar_remaining r - of_nat (length bs)) :: (u64, io_error) outcome)"
        using data(2) by (simp add: sub64_def word_le_nat_alt)
      with False data show ?thesis
        using aes_lib_okD(2) [OF assms, of "ar_cipher r" bs]
        by (auto simp: aes_read_def split: prod.split)
    qed (simp add: aes_read_def False)
  qed
qed

lemma aes_new_quiet:
  assumes "aes_lib_ok L" and "inv s"
  shows "AesReader_new L rd s password info clen entry \<noteq> Panic"
    and "AesReader_new L rd s password info clen entry = Ok r \<Longrightarrow> inv (ar_inner r) \<and> budget (ar_inner r) \<le> budget s"
proof -
  from read_exact_quiet [OF assms(2), of "salt_len (strength info)"] consider
      e s1 where "read_exact rd (salt_len (strength info)) s = (Err e, s1)"
    | salt s1 where "read_exact rd (salt_len (strength info)) s = (Ok salt, s1)" "inv s1" "budget s1 \<le> budget s"
    by auto
  then have "AesReader_new L rd s password info clen entry \<noteq> Panic \<and>
    (AesReader_new L rd s password info clen entry = Ok r \<longrightarrow> inv (ar_inner r) \<and> budget (ar_inner r) \<le> budget s)"
  proof cases
    case (1 e s1)
    then show ?thesis by (simp add: AesReader_new_def Let_def with_err_def)
  next
    case (2 salt s1)
    with read_exact_quiet [OF 2(2), of 2] show ?thesis
      by (auto simp: AesReader_new_def Let_def with_err_def seq_def and_then_eq_Panic slice_Panic_iff
        aes_lib_okD(1) [OF assms(1)] split: if_splits)
  qed
  then show "AesReader_new L rd s password info clen entry \<noteq> Panic"
    "AesReader_new L rd s password info clen entry = Ok r \<Longrightarrow> inv (ar_inner r) \<and> budget (ar_inner r) \<le> budget s" by blast+
qed

lemma strong_quiet:
  assumes "strong_lib_ok L"
  shows "quiet_reader (strong_read L rd) (\<lambda>r. inv (sr_inner r) \<and> strong_staged r)
    (\<lambda>r. budget (sr_inner r) + (sr_block_len r - sr_block_pos r))"
proof
  fix r :: "('s, 'a) strong_reader" and n
  assume r: "inv (sr_inner r) \<and> strong_staged r"
  show "(\<exists>e r'. strong_read L rd n r = (Err e, r')) \<or> (\<exists>bs r'. strong_read L rd n r = (Ok bs, r') \<and>
      length bs \<le> n \<and> length bs + (budget (sr_inner r') + (sr_block_len r' - sr_block_pos r')) \<le>
        budget (sr_inner r) + (sr_block_len r - sr_block_pos r) \<and> inv (sr_inner r') \<and> strong_staged r')"
  proof (cases "sr_block_len r \<le> sr_block_pos r")
    case False
    with strong_deliver_staged [of r n] r show ?thesis by (auto simp: strong_read_def)
  next
    case True
    show ?thesis
    proof (cases "sr_remaining r = 0")
      case False
      from r read_exact_quiet [of "sr_inner r" AES_BLOCK] consider
          e i where "read_exact rd AES_BLOCK (sr_inner r) = (Err e, i)"
        | blk i where "read_exact rd AES_BLOCK (sr_inner r) = (Ok blk, i)" "length blk = 16"
            "16 + budget i \<le> budget (sr_inner r)" "inv i"
        by auto
      then show ?thesis
      proof cases
        case (1 e i)
        with True False show ?thesis by (simp add: strong_read_def)
      next
        case (2 blk i)
        obtain plain c where cb: "cbc_block L (sr_cipher r) blk = (plain, c)" by (rule prod.exhaust)
        with assms 2(2) have "length plain = 16" unfolding strong_lib_ok_def by (metis fst_conv)
        define r1 where "r1 = r\<lparr>sr_inner := i, sr_cipher := c, sr_block := plain, sr_block_pos := 0,
          sr_block_len := AES_BLOCK, sr_remaining := saturating_sub64 (sr_remaining r) (of_nat AES_BLOCK)\<rparr>"
        have "strong_staged r1" "sr_inner r1 = i" "sr_block_len r1 - sr_block_pos r1 = 16"
          using \<open>length plain = 16\<close> by (simp_all add: r1_def strong_staged_def)
        moreover have "strong_read L rd n r = strong_deliver n r1"
          using True False 2(1) cb by (simp add: strong_read_def r1_def)
        ultimately show ?thesis using strong_deliver_staged [of r1 n] 2(3,4) by fastforce
      qed
    qed (use r True in \<open>auto simp: strong_read_def\<close>)
  qed
qed

end

section \<open>Opening with a password\<close>

text \<open>The five boxed readers of an entry.\<close>

fun boxed_fit :: "('c, 'm, 'd) boxed \<Rightarrow> bool" where
  "boxed_fit (BoxStrong r) = strong_staged r"
| "boxed_fit (BoxStrongTake t) = strong_staged (tk_inner t)"
| "boxed_fit _ = True"

fun boxed_left :: "('c, 'm, 'd) boxed \<Rightarrow> nat" where
  "boxed_left (BoxTake t) = length (window t)"
| "boxed_left (BoxZipCrypto r) = length (window (zr_inner r))"
| "boxed_left (BoxAes r) = length (window (ar_inner r))"
| "boxed_left (BoxStrong r) = length (window (sr_inner r)) + (sr_block_len r - sr_block_pos r)"
| "boxed_left (BoxStrongTake t) = min (unat (tk_limit t))
     (length (window (sr_inner (tk_inner t))) + (sr_block_len (tk_inner t) - sr_block_pos (tk_inner t)))"

lemma boxed_quiet:
  fixes E :: "('h, 'c, 'm, 'd, 'x) externals"
  assumes "aes_lib_ok (x_aes E)" and "strong_lib_ok (x_strong E)"
  shows "quiet_reader (boxed_read E) boxed_fit boxed_left"
proof
  fix b :: "('c, 'm, 'd) boxed" and n
  note zip_crypto = quiet_reader.quiet [OF quiet_take.zipcrypto_quiet, OF TrueI]
  note aes = quiet_reader.quiet [OF quiet_take.aes_quiet [OF assms(1)], OF TrueI]
  note strong = quiet_take.strong_quiet [OF assms(2)]
  assume b: "boxed_fit b"
  show "(\<exists>e b'. boxed_read E n b = (Err e, b')) \<or> (\<exists>bs b'. boxed_read E n b = (Ok bs, b') \<and>
      length bs \<le> n \<and> length bs + boxed_left b' \<le> boxed_left b \<and> boxed_fit b')"
  proof (cases b)
    case (BoxTake t)
    with quiet_take.quiet [OF TrueI, where n = n and s = t] show ?thesis
      by (auto simp: boxed_read_def lift_read_def)
  next
    case (BoxZipCrypto r)
    with zip_crypto [where n = n and s = r] show ?thesis by (auto simp: boxed_read_def lift_read_def)
  next
    case (BoxAes r)
    with aes [where n = n and s = r] show ?thesis by (auto simp: boxed_read_def lift_read_def)
  next
    case (BoxStrong r)
    with b quiet_reader.quiet [OF strong, where n = n and s = r] show ?thesis
      by (auto simp: boxed_read_def lift_read_def)
  next
    case (BoxStrongTake t)
    with b quiet_reader.quiet [OF quiet_reader.take_quiet [OF strong], where n = n and s = t] show ?thesis
      by (auto simp: boxed_read_def lift_read_def)
  qed
qed

text \<open>\<open>opens Q v\<close>: opening returned, without a panic, and a file it gives satisfies \<open>Q\<close>.\<close>

definition opens :: "('f \<Rightarrow> bool) \<Rightarrow> ('f, 'e) outcome option \<Rightarrow> bool" where
  "opens Q w \<longleftrightarrow> (\<exists>v. w = Some v \<and> v \<noteq> Panic \<and> (\<forall>f. v = Ok f \<longrightarrow> Q f))"

lemma opens_Err: "opens Q (Some (Err e))"
  by (simp add: opens_def)

lemma opens_bind: "v \<noteq> Panic \<Longrightarrow> (\<And>a. v = Ok a \<Longrightarrow> opens Q (g a)) \<Longrightarrow> opens Q (bind_opt v g)"
  unfolding opens_def by (rule bind_opt_returns)

lemma opens_if: "(P \<Longrightarrow> opens Q v) \<Longrightarrow> (\<not> P \<Longrightarrow> opens Q w) \<Longrightarrow> opens Q (if P then v else w)"
  by simp

lemma open_strong_quiet:
  assumes make: "\<And>m ds meth verify b. boxed_fit b \<Longrightarrow> boxed_left b < 2 ^ 47 \<Longrightarrow>
      opens Q (make_zip_file E m ds meth verify b)"
    and "strong_lib_ok (x_strong E)" and "length (cu_data (za_reader a)) < 2 ^ 47"
  shows "opens Q (open_strong_decrypt E a m password)"
  unfolding open_strong_decrypt_def
proof (rule opens_bind)
  have len63: "length (cu_data (za_reader a)) < 2 ^ 63" using assms(3) by simp
  then show "entry_data m (za_reader a) \<noteq> Panic" by (rule entry_data_fine)
  fix p assume "entry_data m (za_reader a) = Ok p"
  then obtain ds t where p: "p = (ds, t)" "entry_data m (za_reader a) = Ok (ds, t)" by (cases p) auto
  with entry_data_fine(2) [OF len63 p(2)] assms(3) have w: "length (window t) < 2 ^ 47" by simp
  let ?read = "read_strong_header (x_strong E) (x_crc E) file_read password (ce_crc32 m) (ce_uncompressed_size m) (ce_name m) t"
  note cases = win.read_strong_header_cases [OF TrueI assms(2), where H = "x_crc E" and password = password
      and crc = "ce_crc32 m" and sz = "ce_uncompressed_size m" and entry = "ce_name m" and s = t]
  show "opens Q (case p of (data_start, tk) \<Rightarrow> case read_strong_header (x_strong E) (x_crc E) file_read password
      (ce_crc32 m) (ce_uncompressed_size m) (ce_name m) tk of
        (Ok hdr, tk') \<Rightarrow> let enc_len = saturating_sub64 (ce_compressed_size m) (sh_header_len hdr) in
           bind_opt (StrongAesReader_new (x_strong E) tk' (sh_file_key hdr) (sh_iv hdr) enc_len (ce_name m))
             (\<lambda>strong. make_zip_file E m data_start (ce_method m) True
               (if ce_method m = Stored then BoxStrongTake (take_new strong (ce_uncompressed_size m))
                else BoxStrong strong))
      | (Err e, _) \<Rightarrow> Some (Err e) | (Panic, _) \<Rightarrow> Some Panic)"
  proof (cases ?read)
    case (Pair v t')
    show ?thesis
    proof (cases v)
      case (Ok hdr)
      with cases Pair w have w': "length (window t') < 2 ^ 47" by auto
      have "opens Q (bind_opt (StrongAesReader_new (x_strong E) t' key iv len name) (\<lambda>strong.
          make_zip_file E m ds meth True (if meth = Stored then BoxStrongTake (take_new strong k) else BoxStrong strong)))"
        for key iv len name meth k
        using w'
        by (intro opens_bind make)
          (auto simp: StrongAesReader_new_def CbcDec_new_def Let_def and_then_eq_Panic strong_staged_def take_new_def
            split: if_splits)
      then show ?thesis by (simp add: p(1) Pair Ok Let_def)
    qed (use cases Pair p(1) in \<open>auto simp: opens_Err\<close>)
  qed
qed

lemma open_decrypt_quiet:
  assumes make: "\<And>m ds meth verify b. boxed_fit b \<Longrightarrow> boxed_left b < 2 ^ 47 \<Longrightarrow>
      opens Q (make_zip_file E m ds meth verify b)"
    and L: "aes_lib_ok (x_aes E)" "strong_lib_ok (x_strong E)" and len: "length (cu_data (za_reader a)) < 2 ^ 47"
  shows "opens Q (open_decrypt E a m password)"
proof -
  have len63: "length (cu_data (za_reader a)) < 2 ^ 63" using len by simp
  have plain: "opens Q (archive_open E a m)"
    using make len unfolding opens_def by (intro archive_open_quiet) auto
  have decrypt: "opens Q (case p of (data_start, tk) \<Rightarrow>
       (case ce_aes m of
          Some aes \<Rightarrow>
            bind_opt (AesReader_new (x_aes E) file_read tk password aes (ce_compressed_size m) (ce_name m))
              (\<lambda>r. make_zip_file E m data_start (method_from_u16 (actual_method aes)) (\<not> is_ae2 aes) (BoxAes r))
        | None \<Rightarrow>
            bind_opt (ZipCryptoReader_new file_read tk password
                (zipcrypto_check_byte (ce_flags m) (ce_crc32 m) (ce_last_mod_time m)) (ce_name m))
              (\<lambda>r. make_zip_file E m data_start (ce_method m) True (BoxZipCrypto r))))"
    if "entry_data m (za_reader a) = Ok p" for p
  proof -
    from that obtain ds t where p: "p = (ds, t)" "entry_data m (za_reader a) = Ok (ds, t)" by (cases p) auto
    with entry_data_fine(2) [OF len63 p(2)] len have w: "length (window t) < 2 ^ 47" by simp
    note aes = quiet_take.aes_new_quiet [OF L(1) TrueI, where s = t]
      and zc = quiet_take.zipcrypto_new_quiet [OF TrueI, where s = t]
    show ?thesis
    proof (cases "ce_aes m")
      case None
      have "opens Q (bind_opt (ZipCryptoReader_new file_read t password cb name) (\<lambda>r.
          make_zip_file E m ds meth True (BoxZipCrypto r)))" for cb name meth
      proof (intro opens_bind make zc(1))
        fix r assume "ZipCryptoReader_new file_read t password cb name = Ok r"
        with le_less_trans [OF conjunct2 [OF zc(2)] w] show "boxed_left (BoxZipCrypto r) < 2 ^ 47" by simp
      qed simp
      with None p show ?thesis by simp
    next
      case (Some info)
      have "opens Q (bind_opt (AesReader_new (x_aes E) file_read t password info cl name) (\<lambda>r.
          make_zip_file E m ds meth v (BoxAes r)))" for cl name meth v
      proof (intro opens_bind make aes(1))
        fix r assume "AesReader_new (x_aes E) file_read t password info cl name = Ok r"
        with le_less_trans [OF conjunct2 [OF aes(2)] w] show "boxed_left (BoxAes r) < 2 ^ 47" by simp
      qed simp
      with Some p show ?thesis by simp
    qed
  qed
  show ?thesis
    unfolding open_decrypt_def
    by (intro opens_bind opens_if check_local_disk_no_panic plain opens_Err decrypt entry_data_fine(1) [OF len63]
        open_strong_quiet [OF make L(2) len])
qed

text \<open>
  C7: Opening any entry of an archive read from fewer than \<open>2 ^ 47\<close> bytes, by index or by name, without a
  password or with any, returns and does not panic, and neither does reading the opened entry to its end,
  whatever buffers are offered, through the decrypting reader, the decoder and the integrity check:
  whatever the headers, the encryption data and the compressed stream say, the result is bytes or an error.
  Of the crates it asks what their documentation promises: the sizes of digests, keys and blocks, and
  decoders that do not panic themselves and whose output their input bounds.
\<close>

theorem entry_reads_return:
  assumes "codec_quiet (x_codec E)" and "aes_lib_ok (x_aes E)" and "strong_lib_ok (x_strong E)"
    and "ZipArchive_new (cursor_new data) = Ok a" and "length data < 2 ^ 47"
    and "w \<in> {by_index E a i, by_name E a name, by_index_decrypt E a i password, by_name_decrypt E a name password}"
  shows "\<exists>v. w = Some v \<and> v \<noteq> Panic \<and> (\<forall>f. v = Ok f \<longrightarrow> (\<exists>r. read_entry E f = Some r \<and> r \<noteq> Panic))"
proof -
  from make_zip_file_quiet [OF boxed_quiet [OF assms(2,3)] assms(1)] obtain Q B where
    q: "quiet_reader (zip_file_read E) Q B" and
    make: "\<And>m ds meth verify b. boxed_fit b \<Longrightarrow> boxed_left b < 2 ^ 47 \<Longrightarrow> opens Q (make_zip_file E m ds meth verify b)"
    unfolding opens_def by blast
  have len: "length (cu_data (za_reader a)) < 2 ^ 47" using opened_data [OF assms(4)] assms(5) by simp
  have plain: "opens Q (archive_open E a m)" for m
    using make len unfolding opens_def by (intro archive_open_quiet) auto
  note decrypt = open_decrypt_quiet [OF make assms(2,3) len]
  from assms(6) plain decrypt have "opens Q w"
    by (auto simp: by_index_def by_name_def by_index_decrypt_def by_name_decrypt_def
      intro!: opens_bind entry_at_no_panic)
  moreover have "\<exists>r. read_entry E f = Some r \<and> r \<noteq> Panic" if "Q f" for f
    using quiet_reader.read_to_end_quiet [OF q that, of "x_sizes E" 0 "[]"] by (auto simp: read_entry_def)
  ultimately show ?thesis by (auto simp: opens_def)
qed

lemma crc_archive_short: "length (crc_archive crc) < 2 ^ 47"
  by (simp add: crc_archive_def encode_archive_def directory_def length_encode_header length_archive_eocd
      extract_local_def extract_header_def sample_header_def)

theorem entry_reads_return_witness:
  "\<exists>a v w. ZipArchive_new (cursor_new (crc_archive 7)) = Ok a \<and>
    by_index sample_externals a 0 = Some v \<and> v \<noteq> Panic \<and>
    by_name_decrypt sample_externals a [97, 46, 98] [1] = Some w \<and> w \<noteq> Panic"
proof -
  from crc_archive_opens [of 7] obtain a where a: "ZipArchive_new (cursor_new (crc_archive 7)) = Ok a" by blast
  have L: "aes_lib_ok (x_aes sample_externals)" "strong_lib_ok (x_strong sample_externals)"
    by (simp_all add: counter_lib_ok chain_lib_ok)
  note returns = entry_reads_return [OF codec_quiet_sample L a crc_archive_short, where i = 0
      and name = "[97, 46, 98]" and password = "[1]"]
  from returns [of "by_index sample_externals a 0"] returns [of "by_name_decrypt sample_externals a [97, 46, 98] [1]"] a
  show ?thesis by blast
qed

end
