(* ===== verification/Cli.thy ===== *)
theory Cli
  imports Forensic
begin

text \<open>
  The command line, from \<open>cli/src/lib.rs\<close> and \<open>cli/src/main.rs\<close>: the dispatch of the arguments, the
  \<open>list\<close> and \<open>audit\<close> subcommands, and the exit code of the binary. The output sink (\<open>dyn Write\<close>) and the
  files behind paths are parameters.
\<close>

section \<open>Errors\<close>

datatype cli_error = Usage rstring | CliIo io_error | CliZip zip_core_error

definition USAGE :: rstring where
  "USAGE = lit ''usage: zip4n6 <list|audit> <file.zip>''"

fun display_cli_error :: "cli_error \<Rightarrow> rstring" where
  "display_cli_error (Usage u) = u"
| "display_cli_error (CliIo e) = lit ''I/O error: '' @ display_io_error e"
| "display_cli_error (CliZip e) = lit ''zip error: '' @ display_zip_error e"

section \<open>Subcommands\<close>

text \<open>\<open>writeln!\<close> to the sink: the line with its newline, and the sink it leaves.\<close>

type_synonym 'w sink = "rstring \<Rightarrow> ('w, unit, io_error) act"

definition writeln :: "'w sink \<Rightarrow> rstring \<Rightarrow> ('w, unit, cli_error) act" where
  "writeln W line = with_err CliIo (W (line @ [0x0A]))"

text \<open>\<open>{:>10}\<close>: at least ten characters wide, padded with spaces on the left.\<close>

definition align_right :: "nat \<Rightarrow> rstring \<Rightarrow> rstring" where
  "align_right w s = replicate (w - length s) 0x20 @ s"

definition entry_line :: "('h, 'c, 'm, 'd, 'x) zip_file \<Rightarrow> rstring" where
  "entry_line e = align_right 10 (fmt_dec (unat (zf_size e))) @ lit ''  '' @ debug_method (zf_compression e) @
     lit ''  '' @ zf_name e"

fun list_from ::
  "('h, 'c, 'm, 'd, 'x) externals \<Rightarrow> 'w sink \<Rightarrow> zip_archive \<Rightarrow> usize list \<Rightarrow> 'w
     \<Rightarrow> ((unit, cli_error) outcome \<times> 'w) option" where
  "list_from E W archive [] out = Some (Ok (), out)"
| "list_from E W archive (i # is) out =
     (case by_index E archive i of
        None \<Rightarrow> None
      | Some (Err e) \<Rightarrow> Some (Err (CliZip e), out)
      | Some Panic \<Rightarrow> Some (Panic, out)
      | Some (Ok e) \<Rightarrow>
          (case writeln W (entry_line e) out of
             (Ok _, out') \<Rightarrow> list_from E W archive is out'
           | (Err err, out') \<Rightarrow> Some (Err err, out')
           | (Panic, out') \<Rightarrow> Some (Panic, out')))"

definition cli_list ::
  "('h, 'c, 'm, 'd, 'x) externals \<Rightarrow> (rstring \<Rightarrow> (u8 list, io_error) outcome) \<Rightarrow> 'w sink \<Rightarrow> rstring \<Rightarrow> 'w
     \<Rightarrow> ((unit, cli_error) outcome \<times> 'w) option" where
  "cli_list E fs W path out =
     (case and_then (map_err CliIo (fs path)) (\<lambda>contents. map_err CliZip (ZipArchive_new (cursor_new contents))) of
        Ok archive \<Rightarrow> list_from E W archive [0..<archive_len archive] out
      | Err e \<Rightarrow> Some (Err e, out)
      | Panic \<Rightarrow> Some (Panic, out))"

fun debug_severity :: "severity \<Rightarrow> rstring" where
  "debug_severity High = lit ''High''"
| "debug_severity Medium = lit ''Medium''"
| "debug_severity Low = lit ''Low''"

definition finding_line :: "anomaly \<Rightarrow> rstring" where
  "finding_line a = lit ''['' @ debug_severity (an_severity a) @ lit ''] '' @ an_code a @ lit '': '' @ an_note a"

fun write_lines :: "'w sink \<Rightarrow> rstring list \<Rightarrow> ('w, unit, cli_error) act" where
  "write_lines W [] = ret ()"
| "write_lines W (l # ls) = seq (writeln W l) (\<lambda>_. write_lines W ls)"

definition cli_audit ::
  "('h, 'c, 'm, 'd, 'x) externals \<Rightarrow> (rstring \<Rightarrow> rstring) \<Rightarrow> (rstring \<Rightarrow> (u8 list, io_error) outcome) \<Rightarrow> 'w sink
     \<Rightarrow> rstring \<Rightarrow> 'w \<Rightarrow> ((unit, cli_error) outcome \<times> 'w) option" where
  "cli_audit E debug_str fs W path out =
     (case audit_path E debug_str fs path of
        None \<Rightarrow> None
      | Some (Err e) \<Rightarrow> Some (Err (CliZip e), out)
      | Some Panic \<Rightarrow> Some (Panic, out)
      | Some (Ok findings) \<Rightarrow>
          Some (if findings = [] then writeln W (lit ''no anomalies found'') out
            else write_lines W (map finding_line findings) out))"

section \<open>Dispatch\<close>

definition dispatch ::
  "('h, 'c, 'm, 'd, 'x) externals \<Rightarrow> (rstring \<Rightarrow> rstring) \<Rightarrow> (rstring \<Rightarrow> (u8 list, io_error) outcome) \<Rightarrow> 'w sink
     \<Rightarrow> rstring list \<Rightarrow> 'w \<Rightarrow> ((unit, cli_error) outcome \<times> 'w) option" where
  "dispatch E debug_str fs W args out =
     (case args of
        _ # cmd # path # _ \<Rightarrow>
          if cmd = lit ''list'' then cli_list E fs W path out
          else if cmd = lit ''audit'' then cli_audit E debug_str fs W path out
          else Some (Err (Usage USAGE), out)
      | _ \<Rightarrow> Some (Err (Usage USAGE), out))"

text \<open>\<open>main\<close>: the exit code and what goes to the standard error. A panic exits with 101.\<close>

fun exit_of :: "(unit, cli_error) outcome \<Rightarrow> nat \<times> rstring option" where
  "exit_of (Ok _) = (0, None)"
| "exit_of (Err e) = (2, Some (display_cli_error e))"
| "exit_of Panic = (101, None)"

definition cli_main ::
  "('h, 'c, 'm, 'd, 'x) externals \<Rightarrow> (rstring \<Rightarrow> rstring) \<Rightarrow> (rstring \<Rightarrow> (u8 list, io_error) outcome) \<Rightarrow> 'w sink
     \<Rightarrow> rstring list \<Rightarrow> 'w \<Rightarrow> ((nat \<times> rstring option) \<times> 'w) option" where
  "cli_main E debug_str fs W args out = map_option (\<lambda>(r, out'). (exit_of r, out')) (dispatch E debug_str fs W args out)"

section \<open>What is printed\<close>

text \<open>A sink that keeps the text, such as the \<open>Vec\<close> of the tests.\<close>

definition text_sink :: "rstring sink" where
  "text_sink s out = (Ok (), out @ s)"

lemma writeln_text [simp]: "writeln text_sink l out = (Ok (), out @ l @ [0x0A])"
  by (simp add: writeln_def with_err_def text_sink_def)

lemma write_lines_text: "write_lines text_sink ls out = (Ok (), out @ concat (map (\<lambda>l. l @ [0x0A]) ls))"
  by (induction ls arbitrary: out) (simp_all add: seq_def)

lemma list_from_text:
  assumes "\<And>i. i \<in> set is \<Longrightarrow> by_index E a i = Some (Ok (f i))"
  shows "list_from E text_sink a (is @ js) out =
    list_from E text_sink a js (out @ concat (map (\<lambda>i. entry_line (f i) @ [0x0A]) is))"
  using assms by (induction "is" arbitrary: out) simp_all

text \<open>
  C40: \<open>zip4n6 list\<close> prints one line per entry in directory order up to the first entry that does not open
  without a password, an encrypted one for instance, where it stops with that entry's error and exit code
  2; with no such entry it prints them all and exits with 0.
\<close>

theorem cli_list_output:
  assumes "fs path = Ok contents" and "ZipArchive_new (cursor_new contents) = Ok a" and "k \<le> archive_len a"
    and "\<And>i. i < k \<Longrightarrow> by_index E a i = Some (Ok (f i))"
    and "k < archive_len a \<Longrightarrow> by_index E a k = Some (Err e)"
  shows "cli_main E debug_str fs text_sink [prog, lit ''list'', path] out =
    Some (if k = archive_len a then (0, None) else (2, Some (lit ''zip error: '' @ display_zip_error e)),
      out @ concat (map (\<lambda>i. entry_line (f i) @ [0x0A]) [0..<k]))"
proof -
  have split: "[0..<archive_len a] = [0..<k] @ [k..<archive_len a]"
    using upt_add_eq_append [of 0 k "archive_len a - k"] assms(3) by simp
  let ?printed = "out @ concat (map (\<lambda>i. entry_line (f i) @ [0x0A]) [0..<k])"
  have start: "list_from E text_sink a [0..<archive_len a] out =
      list_from E text_sink a [k..<archive_len a] ?printed"
    unfolding split by (rule list_from_text) (simp add: assms(4))
  have stop: "list_from E text_sink a [k..<archive_len a] ?printed =
      Some (if k = archive_len a then Ok () else Err (CliZip e), ?printed)"
  proof (cases "k < archive_len a")
    case True
    then show ?thesis unfolding upt_conv_Cons [OF True] by (simp add: assms(5))
  next
    case False
    then show ?thesis using assms(3) by simp
  qed
  have "cli_list E fs text_sink path out = Some (if k = archive_len a then Ok () else Err (CliZip e), ?printed)"
    unfolding cli_list_def assms(1) by (simp add: assms(2) start stop)
  then show ?thesis by (simp add: cli_main_def dispatch_def)
qed

lemma one_line_archive:
  "\<exists>a f. ZipArchive_new (cursor_new (crc_archive 0xFF000000)) = Ok a \<and> archive_len a = 1 \<and>
    by_index sample_externals a 0 = Some (Ok f)"
proof -
  from crc_archive_opens [of "0xFF000000"] obtain a m where a: "ZipArchive_new (cursor_new (crc_archive 0xFF000000)) = Ok a"
    "za_entries a = [m]" "placed (za_reader a) m [0xFF]" "on_one_disk a m" "ce_flags m = 0" "ce_method m = Stored" by blast
  from archive_open_stored [OF a(3,4), of sample_externals] a(5,6) obtain f where
    "archive_open sample_externals a m = Some (Ok f)"
    by (auto simp: has_bits_def crc_chunked_bytewise)
  with a(1,2) show ?thesis by (auto simp: by_index_def entry_at_def archive_len_def)
qed

theorem cli_list_output_witness:
  "\<exists>a f. by_index sample_externals a 0 = Some (Ok f) \<and>
    cli_main sample_externals (\<lambda>s. s) (\<lambda>_. Ok (crc_archive 0xFF000000)) text_sink [[], lit ''list'', []] [] =
    Some ((0, None), entry_line f @ [0x0A])"
proof -
  from one_line_archive obtain a f where a: "ZipArchive_new (cursor_new (crc_archive 0xFF000000)) = Ok a"
    "archive_len a = 1" "by_index sample_externals a 0 = Some (Ok f)" by blast
  have first: "by_index sample_externals a i = Some (Ok f)" if "i < 1" for i
    using a(3) that by (cases i) simp_all
  have bounds: "1 \<le> archive_len a" "\<not> 1 < archive_len a" unfolding a(2) by simp_all
  have "cli_main sample_externals (\<lambda>s. s) (\<lambda>_. Ok (crc_archive 0xFF000000)) text_sink [[], lit ''list'', []] [] =
      Some (if 1 = archive_len a then (0, None) else (2, Some (lit ''zip error: '' @ display_zip_error (IndexOutOfBounds 0))),
        [] @ concat (map (\<lambda>i. entry_line f @ [0x0A]) [0..<1]))"
    by (rule cli_list_output [OF refl a(1) bounds(1) first]) (simp_all add: a(2))
  then have "cli_main sample_externals (\<lambda>s. s) (\<lambda>_. Ok (crc_archive 0xFF000000)) text_sink [[], lit ''list'', []] [] =
      Some ((0, None), entry_line f @ [0x0A])"
    unfolding a(2) by simp
  with a(3) show ?thesis by blast
qed

text \<open>
  \<open>zip4n6 audit\<close> prints one line per finding of the audit of the file, with severity, code and note, or
  one line that there is none, and exits with 0; when the audit fails it prints nothing and exits with 2.
\<close>

theorem cli_audit_output:
  "cli_main E debug_str fs text_sink [prog, lit ''audit'', path] out =
    map_option (\<lambda>r. case r of
        Ok findings \<Rightarrow> ((0, None), out @
          (if findings = [] then lit ''no anomalies found'' @ [0x0A]
           else concat (map (\<lambda>a. finding_line a @ [0x0A]) findings)))
      | Err e \<Rightarrow> ((2, Some (lit ''zip error: '' @ display_zip_error e)), out)
      | Panic \<Rightarrow> ((101, None), out))
    (audit_path E debug_str fs path)"
proof -
  have "lit ''audit'' \<noteq> lit ''list''" by (simp add: lit_def)
  then show ?thesis
    by (auto simp: cli_main_def dispatch_def cli_audit_def write_lines_text comp_def
        split: option.split outcome.split)
qed

end
