(* ===== verification/Fuzz.thy ===== *)
theory Fuzz
  imports AnyPassword Cli
begin

text \<open>
  The three fuzz targets of \<open>fuzz/fuzz_targets\<close> (\<open>archive.rs\<close>, \<open>entry_decode.rs\<close>, \<open>forensic.rs\<close>), each a
  function of the input bytes that returns or panics, and what they can find: the only panic any of them
  reaches is the one of opening the archive.
\<close>

section \<open>The targets\<close>

text \<open>A target throws its results away, so an error is a return as well.\<close>

fun discard :: "('a, 'e) outcome \<Rightarrow> (unit, unit) outcome" where
  "discard (Ok a) = Ok ()"
| "discard (Err e) = Ok ()"
| "discard Panic = Panic"

definition fuzz_archive :: "u8 list \<Rightarrow> (unit, unit) outcome" where
  "fuzz_archive data =
     (case ZipArchive_new (cursor_new data) of
        Ok archive \<Rightarrow>
          (case structural_view archive of
             (Panic, _) \<Rightarrow> Panic
           | (_, archive') \<Rightarrow> (let _ = length (file_names archive') in Ok ()))
      | Err e \<Rightarrow> Ok ()
      | Panic \<Rightarrow> Panic)"

text \<open>
  \<open>io::copy\<close> of the entry, capped with \<open>take(1 << 20)\<close>, into the sink: it reads to the end and keeps only
  how that went. \<open>None\<close> is a decoder that never ends.
\<close>

definition drain_capped ::
  "('h, 'c, 'm, 'd, 'x) externals \<Rightarrow> ('h, 'c, 'm, 'd, 'x) zip_file \<Rightarrow> (u8 list, io_error) outcome option" where
  "drain_capped E entry =
     map_option fst (read_to_end (take_read (zip_file_read E)) (x_sizes E) 0 [] (take_new entry (push_bit 20 1)))"

fun decode_from ::
  "('h, 'c, 'm, 'd, 'x) externals \<Rightarrow> zip_archive \<Rightarrow> usize list \<Rightarrow> (unit, unit) outcome option" where
  "decode_from E archive [] = Some (Ok ())"
| "decode_from E archive (i # is) =
     (case by_index E archive i of
        None \<Rightarrow> None
      | Some Panic \<Rightarrow> Some Panic
      | Some (Err e) \<Rightarrow> decode_from E archive is
      | Some (Ok entry) \<Rightarrow>
          (case drain_capped E entry of
             None \<Rightarrow> None
           | Some v \<Rightarrow> bind_opt (discard v) (\<lambda>_. decode_from E archive is)))"

definition fuzz_entry_decode ::
  "('h, 'c, 'm, 'd, 'x) externals \<Rightarrow> u8 list \<Rightarrow> (unit, unit) outcome option" where
  "fuzz_entry_decode E data =
     (case ZipArchive_new (cursor_new data) of
        Ok archive \<Rightarrow> decode_from E archive [0..<archive_len archive]
      | Err e \<Rightarrow> Some (Ok ())
      | Panic \<Rightarrow> Some Panic)"

definition fuzz_forensic ::
  "('h, 'c, 'm, 'd, 'x) externals \<Rightarrow> (rstring \<Rightarrow> rstring) \<Rightarrow> u8 list \<Rightarrow> (unit, unit) outcome option" where
  "fuzz_forensic E debug_str data = map_option discard (audit_reader E debug_str (cursor_new data))"

section \<open>After opening, nothing panics\<close>

lemma discard_Panic [simp]: "discard v = Panic \<longleftrightarrow> v = Panic"
  by (cases v) auto

lemma discard_Ok: "v \<noteq> Panic \<Longrightarrow> discard v = Ok ()"
  by (cases v) auto

lemma structural_view_fine:
  assumes "length (cu_data (za_reader a)) < 2 ^ 63"
  shows "fst (structural_view a) \<noteq> Panic"
  using structural_loop_fine [OF assms, of 0 "za_entries a"]
  by (auto simp: structural_view_def fine_def split: prod.split)

lemma decode_from_returns:
  assumes "codec_quiet (x_codec E)" and "length (cu_data (za_reader a)) < 2 ^ 47"
  shows "decode_from E a is = Some (Ok ())"
proof -
  from entries_quiet [OF assms(1)] assms(2) obtain Q B where
    q: "quiet_reader (zip_file_read E) Q B"
    and open_v: "\<And>i. \<exists>v. by_index E a i = Some v \<and> v \<noteq> Panic \<and> (\<forall>f. v = Ok f \<longrightarrow> Q f)" by blast
  have drain: "\<exists>v. drain_capped E f = Some v \<and> v \<noteq> Panic" if "Q f" for f
    using quiet_reader.read_to_end_quiet [OF quiet_reader.take_quiet [OF q], of "take_new f (push_bit 20 1)" "x_sizes E" 0 "[]"] that
    by (auto simp: drain_capped_def take_new_def)
  show ?thesis
  proof (induction "is")
    case (Cons i "is")
    from open_v [of i] obtain v where v: "by_index E a i = Some v" "v \<noteq> Panic" "\<And>f. v = Ok f \<Longrightarrow> Q f" by blast
    show ?case
    proof (cases v)
      case (Ok f)
      from drain [OF v(3) [OF this]] obtain w where "drain_capped E f = Some w" "w \<noteq> Panic" by blast
      with v(1) Ok Cons show ?thesis by (simp add: discard_Ok)
    qed (use v Cons in simp_all)
  qed simp
qed

lemma audit_data_returns:
  assumes "codec_quiet (x_codec E)" and "length (cu_data (za_reader a)) < 2 ^ 47"
  shows "\<exists>found. audit_data E a rows = Some (Ok found)"
proof -
  from entries_quiet [OF assms(1)] assms(2) obtain Q B where
    q: "quiet_reader (zip_file_read E) Q B"
    and open_v: "\<And>i. \<exists>v. by_index E a i = Some v \<and> v \<noteq> Panic \<and> (\<forall>f. v = Ok f \<longrightarrow> Q f)" by blast
  have reads: "\<exists>v. read_entry E f = Some v \<and> v \<noteq> Panic" if "Q f" for f
    using quiet_reader.read_to_end_quiet [OF q that, of "x_sizes E" 0 "[]"] by (auto simp: read_entry_def)
  show ?thesis
  proof (induction rows)
    case (Cons row rows)
    obtain i e where row: "row = (i, e)" by (rule prod.exhaust)
    from Cons obtain found where found: "audit_data E a rows = Some (Ok found)" by blast
    from open_v [of i] obtain v where v: "by_index E a i = Some v" "v \<noteq> Panic" "\<And>f. v = Ok f \<Longrightarrow> Q f" by blast
    show ?case
    proof (cases v)
      case (Ok f)
      from reads [OF v(3) [OF this]] obtain w where "read_entry E f = Some w" "w \<noteq> Panic" by blast
      with v(1) Ok found show ?thesis by (cases w) (simp_all add: row)
    qed (use v found row in simp_all)
  qed simp
qed

lemma audit_reader_returns:
  assumes "codec_quiet (x_codec E)" and "length data < 2 ^ 47"
  shows "\<exists>v. audit_reader E debug_str (cursor_new data) = Some v \<and>
    (v = Panic \<longleftrightarrow> ZipArchive_new (cursor_new data) = Panic)"
proof (cases "ZipArchive_new (cursor_new data)")
  case (Ok a)
  obtain v b where sv: "structural_view a = (v, b)" by (rule prod.exhaust)
  note data = opened_data [OF Ok] structural_view_data(3) [OF sv]
  then have "length (cu_data (za_reader b)) < 2 ^ 47" using assms(2) by simp
  note audit = audit_data_returns [OF assms(1) this]
  from data(1) assms(2) structural_view_fine [of a] sv have "v \<noteq> Panic" by simp
  with Ok sv show ?thesis
  proof (cases v)
    case (Ok rows)
    from audit [of "enumerate 0 rows"] obtain found where "audit_data E b (enumerate 0 rows) = Some (Ok found)" by blast
    with \<open>ZipArchive_new _ = Ok a\<close> sv Ok show ?thesis by (simp add: audit_reader_def Let_def)
  qed (simp_all add: audit_reader_def)
qed (simp_all add: audit_reader_def)

text \<open>
  C8: On every input shorter than \<open>2 ^ 47\<close> bytes, and with decoder crates that do not panic themselves and
  do not expand without bound, each of the three fuzz targets returns or panics, whatever buffers are
  offered, and all three panic on exactly the inputs whose opening as an archive panics: the structural
  view, the decoding of every entry with its integrity check, and the whole audit add no panic of their
  own, and none of them runs forever.
\<close>

theorem fuzz_targets_panic_iff_open:
  assumes "codec_quiet (x_codec E)" and "length data < 2 ^ 47"
  shows "let verdict = discard (ZipArchive_new (cursor_new data)) in
    fuzz_archive data = verdict \<and> fuzz_entry_decode E data = Some verdict \<and>
    fuzz_forensic E debug_str data = Some verdict"
proof (cases "ZipArchive_new (cursor_new data)")
  case (Ok a)
  from opened_data [OF Ok] assms(2) have len: "length (cu_data (za_reader a)) < 2 ^ 47" by simp
  then have "fst (structural_view a) \<noteq> Panic" by (intro structural_view_fine) simp
  then have "fuzz_archive data = Ok ()"
    by (auto simp: fuzz_archive_def Ok split: prod.splits outcome.splits)
  moreover have "fuzz_entry_decode E data = Some (Ok ())"
    using decode_from_returns [OF assms(1) len] by (simp add: fuzz_entry_decode_def Ok)
  moreover obtain v where "audit_reader E debug_str (cursor_new data) = Some v" "v \<noteq> Panic"
    using audit_reader_returns [OF assms, of debug_str] Ok by auto
  ultimately show ?thesis by (simp add: Ok fuzz_forensic_def discard_Ok)
qed (simp_all add: fuzz_archive_def fuzz_entry_decode_def fuzz_forensic_def audit_reader_def)

text \<open>The sample archives: one that opens, and one whose opening overflows.\<close>

abbreviation wrap_archive :: "u8 list" where
  "wrap_archive \<equiv> encode_archive [1] [2, 3] [wrap_header] []"

lemma wrap_archive_short: "length wrap_archive < 2 ^ 47"
  by (simp add: encode_archive_def directory_def length_encode_header length_archive_eocd
      sample_header_def wrap_header_def extra_record_def)

theorem fuzz_targets_panic_iff_open_witness:
  "fuzz_archive (crc_archive 7) = Ok () \<and> fuzz_entry_decode sample_externals (crc_archive 7) = Some (Ok ()) \<and>
   fuzz_forensic sample_externals (\<lambda>s. s) (crc_archive 7) = Some (Ok ()) \<and>
   fuzz_archive wrap_archive = Panic \<and> fuzz_entry_decode sample_externals wrap_archive = Some Panic"
proof -
  from crc_archive_opens [of 7] obtain a where "ZipArchive_new (cursor_new (crc_archive 7)) = Ok a" by blast
  then show ?thesis
    using fuzz_targets_panic_iff_open [OF codec_quiet_sample crc_archive_short, where debug_str = "\<lambda>s. s" and crc1 = 7]
      fuzz_targets_panic_iff_open [OF codec_quiet_sample wrap_archive_short, where debug_str = "\<lambda>s. s"] archive_prefix_overflow_witness
    by (simp add: Let_def)
qed

section \<open>The command line\<close>

lemma list_from_returns:
  assumes "codec_quiet (x_codec E)" and "length (cu_data (za_reader a)) < 2 ^ 47"
    and "\<And>s w. fst (W s w) \<noteq> Panic"
  shows "\<exists>v out'. list_from E W a ks out = Some (v, out') \<and> v \<noteq> Panic"
proof (induction ks arbitrary: out)
  case (Cons i ks)
  from entries_quiet [OF assms(1)] assms(2) obtain v where v: "by_index E a i = Some v" "v \<noteq> Panic" by meson
  show ?case
  proof (cases v)
    case (Ok f)
    obtain w out' where w: "writeln W (entry_line f) out = (w, out')" by (rule prod.exhaust)
    then have "w \<noteq> Panic" using assms(3) [of "entry_line f @ [0x0A]" out]
      by (auto simp: writeln_def with_err_def split: prod.splits)
    with v(1) Ok w Cons show ?thesis by (cases w) auto
  qed (use v in simp_all)
qed simp

lemma write_lines_fine:
  assumes "\<And>s w. fst (W s w) \<noteq> Panic"
  shows "fine (write_lines W ls) w"
proof (induction ls arbitrary: w)
  case (Cons l ls)
  have "fine (writeln W l) w" using assms [of "l @ [0x0A]" w] by (simp add: writeln_def fine_def)
  with Cons show ?case by (simp add: seq_fine)
qed simp

definition opening_panics :: "(rstring \<Rightarrow> (u8 list, io_error) outcome) \<Rightarrow> rstring \<Rightarrow> bool" where
  "opening_panics fs path \<longleftrightarrow>
     (case fs path of Ok contents \<Rightarrow> ZipArchive_new (cursor_new contents) = Panic | _ \<Rightarrow> False)"

lemma cli_audit_returns:
  assumes "codec_quiet (x_codec E)" and "\<And>s w. fst (W s w) \<noteq> Panic" and "\<And>p. fs p \<noteq> Panic"
    and "\<And>p contents. fs p = Ok contents \<Longrightarrow> length contents < 2 ^ 47"
  shows "\<exists>v out'. cli_audit E debug_str fs W path out = Some (v, out') \<and> (v = Panic \<longleftrightarrow> opening_panics fs path)"
proof (cases "fs path")
  case (Ok contents)
  from audit_reader_returns [OF assms(1) assms(4) [OF this], of debug_str] obtain v where
    v: "audit_reader E debug_str (cursor_new contents) = Some v" "v = Panic \<longleftrightarrow> opening_panics fs path"
    by (auto simp: Ok opening_panics_def)
  have lines: "fst (writeln W l out) \<noteq> Panic" "fst (write_lines W ls out) \<noteq> Panic" for l ls
    using assms(2) [of "l @ [0x0A]" out] fineD [OF write_lines_fine [of W, OF assms(2)]] by (simp_all add: writeln_def)
  show ?thesis
  proof (cases v)
    case found: (Ok found)
    obtain w out' where w: "(if found = [] then writeln W (lit ''no anomalies found'') out
        else write_lines W (map finding_line found) out) = (w, out')" by (rule prod.exhaust)
    with lines have "w \<noteq> Panic" by (metis fst_conv)
    with v found w Ok show ?thesis by (simp add: cli_audit_def audit_path_def)
  qed (use v Ok in \<open>simp_all add: cli_audit_def audit_path_def\<close>)
qed (use assms(3) in \<open>simp_all add: cli_audit_def audit_path_def opening_panics_def\<close>)

lemma cli_list_returns:
  assumes "codec_quiet (x_codec E)" and "\<And>s w. fst (W s w) \<noteq> Panic" and "\<And>p. fs p \<noteq> Panic"
    and "\<And>p contents. fs p = Ok contents \<Longrightarrow> length contents < 2 ^ 47"
  shows "\<exists>v out'. cli_list E fs W path out = Some (v, out') \<and> (v = Panic \<longleftrightarrow> opening_panics fs path)"
proof (cases "fs path")
  case (Ok contents)
  show ?thesis
  proof (cases "ZipArchive_new (cursor_new contents)")
    case a: (Ok a)
    from assms(4) [OF Ok] opened_data [OF a] have "length (cu_data (za_reader a)) < 2 ^ 47" by simp
    from list_from_returns [OF assms(1) this assms(2), where ks = "[0..<archive_len a]" and out = out] Ok a show ?thesis
      by (auto simp: cli_list_def opening_panics_def)
  qed (simp_all add: cli_list_def opening_panics_def Ok)
qed (use assms(3) in \<open>simp_all add: cli_list_def opening_panics_def\<close>)

text \<open>
  C39: On files shorter than \<open>2 ^ 47\<close> bytes, over a sink and files that do not panic and decoder crates as
  above, every command line returns an exit code, and it is the code of a panic exactly when the arguments
  name \<open>list\<close> or \<open>audit\<close> and a readable file whose opening as an archive panics.
\<close>

theorem cli_panics_iff_open:
  assumes "codec_quiet (x_codec E)" and "\<And>s w. fst (W s w) \<noteq> Panic" and "\<And>p. fs p \<noteq> Panic"
    and "\<And>p contents. fs p = Ok contents \<Longrightarrow> length contents < 2 ^ 47"
  shows "\<exists>code err out'. cli_main E debug_str fs W args out = Some ((code, err), out') \<and>
    (code = 101 \<longleftrightarrow> (\<exists>prog cmd path rest. args = prog # cmd # path # rest \<and>
       cmd \<in> {lit ''list'', lit ''audit''} \<and> opening_panics fs path))"
proof -
  have code: "fst (exit_of v) = 101 \<longleftrightarrow> v = Panic" for v by (cases v) simp_all
  have "\<exists>v out'. dispatch E debug_str fs W args out = Some (v, out') \<and> (v = Panic \<longleftrightarrow>
      (\<exists>prog cmd path rest. args = prog # cmd # path # rest \<and> cmd \<in> {lit ''list'', lit ''audit''} \<and>
        opening_panics fs path))"
  proof (cases "\<exists>prog cmd path rest. args = prog # cmd # path # rest")
    case True
    then obtain prog cmd path rest where args: "args = prog # cmd # path # rest" by blast
    with cli_audit_returns [OF assms, where path = path and out = out and debug_str = debug_str]
      cli_list_returns [OF assms, where path = path and out = out]
    show ?thesis by (auto simp: dispatch_def)
  next
    case False
    then have "dispatch E debug_str fs W args out = Some (Err (Usage USAGE), out)"
      by (auto simp: dispatch_def split: list.split)
    with False show ?thesis by simp
  qed
  then obtain v out' where d: "dispatch E debug_str fs W args out = Some (v, out')" "v = Panic \<longleftrightarrow>
      (\<exists>prog cmd path rest. args = prog # cmd # path # rest \<and> cmd \<in> {lit ''list'', lit ''audit''} \<and>
        opening_panics fs path)" by blast
  have "cli_main E debug_str fs W args out = Some ((fst (exit_of v), snd (exit_of v)), out')"
    by (simp add: cli_main_def d(1))
  then show ?thesis using code [of v, unfolded d(2)] by blast
qed

theorem cli_panics_iff_open_witness:
  "(\<exists>code err out. cli_main sample_externals (\<lambda>s. s) (\<lambda>_. Ok (crc_archive 7)) text_sink [[], lit ''list'', []] [] =
      Some ((code, err), out) \<and> code \<noteq> 101) \<and>
   (\<exists>err out. cli_main sample_externals (\<lambda>s. s) (\<lambda>_. Ok wrap_archive) text_sink [[], lit ''audit'', []] [] =
      Some ((101, err), out))"
proof -
  have sink: "fst (text_sink s w) \<noteq> Panic" for s w by (simp add: text_sink_def)
  from crc_archive_opens [of 7] obtain a where a: "ZipArchive_new (cursor_new (crc_archive 7)) = Ok a" by blast
  have "\<exists>code err out. cli_main sample_externals (\<lambda>s. s) (\<lambda>_. Ok (crc_archive 7)) text_sink [[], lit ''list'', []] [] =
      Some ((code, err), out) \<and> code \<noteq> 101"
    using cli_panics_iff_open [where E = sample_externals and fs = "\<lambda>_. Ok (crc_archive 7)" and W = text_sink
        and debug_str = "\<lambda>s. s" and args = "[[], lit ''list'', []]" and out = "[]"] codec_quiet_sample sink crc_archive_short a
    by (auto simp: opening_panics_def)
  moreover have "\<exists>err out. cli_main sample_externals (\<lambda>s. s) (\<lambda>_. Ok wrap_archive) text_sink [[], lit ''audit'', []] [] =
      Some ((101, err), out)"
    using cli_panics_iff_open [where E = sample_externals and fs = "\<lambda>_. Ok wrap_archive" and W = text_sink
        and debug_str = "\<lambda>s. s" and args = "[[], lit ''audit'', []]" and out = "[]"] codec_quiet_sample sink wrap_archive_short
      archive_prefix_overflow_witness
    by (auto simp: opening_panics_def)
  ultimately show ?thesis ..
qed

end
