(* ===== verification/AuditReport.thy ===== *)
theory AuditReport
  imports Forensic Strings "HOL-Library.Product_Lexorder"
begin

text \<open>
  What an audit of \<open>forensic/src/lib.rs\<close> reports, stated without its code: for every kind of anomaly, when
  it is warranted by the rows of the structural view, the summary of the archive and the reads of its
  entries. Names are described by the characters around a component, data ranges by natural numbers, and
  overlaps by the order of the data starts; the anomalies of an audit are exactly the warranted ones.
\<close>

section \<open>When an anomaly is warranted\<close>

definition separator :: "rchar \<Rightarrow> bool" where
  "separator c \<longleftrightarrow> c = 0x2F \<or> c = 0x5C"

text \<open>\<open>w\<close> stands in the name between separators or its ends.\<close>

definition component_of :: "rstring \<Rightarrow> rstring \<Rightarrow> bool" where
  "component_of w name \<longleftrightarrow> (\<forall>c \<in> set w. \<not> separator c) \<and>
     (\<exists>pre post. name = pre @ w @ post \<and> (pre = [] \<or> separator (last pre)) \<and> (post = [] \<or> separator (hd post)))"

definition rooted :: "rstring \<Rightarrow> bool" where
  "rooted name \<longleftrightarrow> name \<noteq> [] \<and> separator (hd name) \<or>
     (\<exists>c rest. name = c # 0x3A # rest \<and> (0x41 \<le> c \<and> c \<le> 0x5A \<or> 0x61 \<le> c \<and> c \<le> 0x7A))"

text \<open>The fields of the two headers of an entry that may differ, as they are reported.\<close>

definition disagreement :: "header_fields \<Rightarrow> header_fields \<Rightarrow> rstring \<times> rstring \<times> rstring \<Rightarrow> bool" where
  "disagreement c l d \<longleftrightarrow>
     d = (lit ''name'', hf_name c, hf_name l) \<and> hf_name c \<noteq> hf_name l \<or>
     d = (lit ''method'', debug_method (hf_method c), debug_method (hf_method l)) \<and> hf_method c \<noteq> hf_method l \<or>
     \<not> bit (hf_flags l) 3 \<and>
       (d = (lit ''crc32'', fmt_hex_width 10 (unat (hf_crc32 c)), fmt_hex_width 10 (unat (hf_crc32 l))) \<and>
          hf_crc32 c \<noteq> hf_crc32 l \<or>
        d = (lit ''compressed_size'', fmt_dec (unat (hf_compressed_size c)), fmt_dec (unat (hf_compressed_size l))) \<and>
          hf_compressed_size c \<noteq> hf_compressed_size l \<and> unat (hf_compressed_size l) \<noteq> 2 ^ 32 - 1 \<or>
        d = (lit ''uncompressed_size'', fmt_dec (unat (hf_uncompressed_size c)), fmt_dec (unat (hf_uncompressed_size l))) \<and>
          hf_uncompressed_size c \<noteq> hf_uncompressed_size l \<and> unat (hf_uncompressed_size l) \<noteq> 2 ^ 32 - 1)"

text \<open>The entries in the order of their data starts, those of one start in the order of the directory.\<close>

definition starts_before :: "entry_layout list \<Rightarrow> usize \<Rightarrow> usize \<Rightarrow> bool" where
  "starts_before L i j \<longleftrightarrow> i < length L \<and> j < length L \<and>
     (el_data_start (L ! i) < el_data_start (L ! j) \<or> el_data_start (L ! i) = el_data_start (L ! j) \<and> i < j)"

definition starts_next :: "entry_layout list \<Rightarrow> usize \<Rightarrow> usize \<Rightarrow> bool" where
  "starts_next L i j \<longleftrightarrow> starts_before L i j \<and> \<not> (\<exists>k. starts_before L i k \<and> starts_before L k j)"

definition data_end :: "entry_layout \<Rightarrow> nat" where
  "data_end e = min (unat (el_data_start e) + unat (hf_compressed_size (el_central e))) (2 ^ 64 - 1)"

definition spanned :: "u32 \<Rightarrow> bool" where
  "spanned d \<longleftrightarrow> d \<noteq> 0 \<and> unat d \<noteq> 2 ^ 32 - 1"

abbreviation row_name :: "entry_layout list \<Rightarrow> usize \<Rightarrow> rstring" where
  "row_name L i \<equiv> hf_name (el_central (L ! i))"

fun warranted ::
  "('h, 'c, 'm, 'd, 'x) externals \<Rightarrow> zip_archive \<Rightarrow> entry_layout list \<Rightarrow> anomaly_kind \<Rightarrow> bool" where
  "warranted E a L (PrependedData n) \<longleftrightarrow>
     0 < n \<and> (\<exists>e \<in> set L. el_lfh_offset e = n) \<and> (\<forall>e \<in> set L. n \<le> el_lfh_offset e)"
| "warranted E a L (TrailingData n) \<longleftrightarrow>
     0 < n \<and> unat (eocd_end_offset (za_summary a)) + unat n = unat (file_len (za_summary a))"
| "warranted E a L (SpanningAnomaly d c) \<longleftrightarrow>
     d = disk_number (za_summary a) \<and> c = cd_start_disk (za_summary a) \<and> (spanned d \<or> spanned c)"
| "warranted E a L (NameTraversal i n) \<longleftrightarrow> i < length L \<and> n = row_name L i \<and> component_of [0x2E, 0x2E] n"
| "warranted E a L (NameAbsolute i n) \<longleftrightarrow> i < length L \<and> n = row_name L i \<and> rooted n"
| "warranted E a L (NameBidi i n) \<longleftrightarrow> i < length L \<and> n = row_name L i \<and>
     (\<exists>c \<in> set n. c \<in> {0x200E, 0x200F} \<union> {0x202A..0x202E} \<union> {0x2066..0x2069})"
| "warranted E a L (NameControl i n) \<longleftrightarrow> i < length L \<and> n = row_name L i \<and>
     (\<exists>c \<in> set n. c \<in> {0..0x1F} \<union> {0x7F..0x9F})"
| "warranted E a L (CdLfhMismatch i n field c l) \<longleftrightarrow> i < length L \<and> n = row_name L i \<and>
     disagreement (el_central (L ! i)) (el_local (L ! i)) (field, c, l)"
| "warranted E a L (Overlap i j p) \<longleftrightarrow>
     starts_next L i j \<and> p = el_data_start (L ! j) \<and> unat p < data_end (L ! i)"
| "warranted E a L (CrcMismatch i n) \<longleftrightarrow> i < length L \<and> n = row_name L i \<and>
     (\<exists>f name recorded actual. by_index E a i = Some (Ok f) \<and>
        read_entry E f = Some (Err (IoOther (CrcMismatchError name recorded actual))))"

section \<open>Names\<close>

lemma separator_is_sep: "separator = is_sep"
  by (auto simp: separator_def is_sep_def)

lemma split_sep_first:
  assumes "\<forall>c \<in> set w. \<not> is_sep c" and "post = [] \<or> is_sep (hd post)"
  shows "w \<in> set (split_sep (w @ post))"
proof (cases post)
  case (Cons c q)
  with assms(2) have "is_sep c" by simp
  from split_sep_append [OF this, of w q] split_sep_plain [OF assms(1)] Cons show ?thesis by simp
qed (use split_sep_plain [OF assms(1)] in simp)

lemma split_sep_components: "w \<in> set (split_sep name) \<longleftrightarrow> component_of w name"
proof
  assume "component_of w name"
  then obtain pre post where s: "\<forall>c \<in> set w. \<not> is_sep c" "name = pre @ w @ post"
    "pre = [] \<or> is_sep (last pre)" "post = [] \<or> is_sep (hd post)"
    by (auto simp: component_of_def separator_is_sep)
  note first = split_sep_first [OF s(1,4)]
  show "w \<in> set (split_sep name)"
  proof (cases "pre = []")
    case False
    with s(3) have "is_sep (last pre)" "name = butlast pre @ last pre # w @ post" by (simp_all add: s(2))
    with split_sep_append [of "last pre" "butlast pre" "w @ post"] first show ?thesis by simp
  qed (use s(2) first in simp)
next
  have "(\<forall>c \<in> set w. \<not> is_sep c) \<and>
      (\<exists>pre post. name = pre @ w @ post \<and> (pre = [] \<or> is_sep (last pre)) \<and> (post = [] \<or> is_sep (hd post)))"
    if "w \<in> set (split_sep name)" using that
  proof (induction "length name" arbitrary: name rule: less_induct)
    case less
    let ?u = "takeWhile (\<lambda>c. \<not> is_sep c) name" and ?v = "dropWhile (\<lambda>c. \<not> is_sep c) name"
    have u: "\<forall>c \<in> set ?u. \<not> is_sep c" by (auto dest: set_takeWhileD)
    show ?case
    proof (cases ?v)
      case Nil
      then have "?u = name" by (metis append_Nil2 takeWhile_dropWhile_id)
      then have "\<forall>c \<in> set name. \<not> is_sep c" using u by simp
      with less.prems split_sep_plain [OF this] show ?thesis
        by (intro conjI exI [of _ "[]"]) simp_all
    next
      case (Cons c rest)
      then have c: "is_sep c" using hd_dropWhile [of "\<lambda>c. \<not> is_sep c" name] by auto
      have name: "name = ?u @ c # rest" using Cons by (metis takeWhile_dropWhile_id)
      have "split_sep name = ?u # split_sep rest"
        by (subst name) (simp only: split_sep_append [OF c] split_sep_plain [OF u], simp)
      with less.prems consider "w = ?u" | "w \<in> set (split_sep rest)" by auto
      then show ?thesis
      proof cases
        case 1
        with u c name show ?thesis by (metis append_Nil list.sel(1))
      next
        case 2
        have "length rest < length name" by (subst name) simp
        from less.hyps [OF this 2] obtain pre post where "\<forall>c \<in> set w. \<not> is_sep c" "rest = pre @ w @ post"
          "pre = [] \<or> is_sep (last pre)" "post = [] \<or> is_sep (hd post)" by blast
        with c name show ?thesis
          by (intro conjI exI [of _ "?u @ c # pre"] exI [of _ post]) auto
      qed
    qed
  qed
  then show "w \<in> set (split_sep name) \<Longrightarrow> component_of w name"
    by (simp add: component_of_def separator_is_sep)
qed

lemma has_traversal_component: "has_traversal name \<longleftrightarrow> component_of [0x2E, 0x2E] name"
proof -
  have "lit ''..'' = [0x2E, 0x2E]" by (simp add: lit_def)
  then show ?thesis by (simp add: has_traversal_def list_ex_iff split_sep_components [symmetric])
qed

text \<open>The first two bytes of a name are a letter and a colon exactly when its first two characters are.\<close>

lemma encode_utf8_hd:
  assumes "is_scalar c"
  shows "encode_utf8 c = [of_nat c] \<and> c < 0x80 \<or> (\<exists>b bs. encode_utf8 c = b # bs \<and> 0xC0 \<le> b \<and> 0x80 \<le> c)"
proof (cases "c < 0x80")
  case False
  have "c div 262144 < 16" using assms by (simp add: is_scalar_def) linarith
  then have "0xC0 \<le> hd (encode_utf8 c)"
    using assms False by (simp add: is_scalar_def encode_utf8_def word_le_nat_alt unat_of_nat8 div_less_iff_less_mult del: of_nat_add)
  with False show ?thesis by (cases "encode_utf8 c") auto
qed (simp add: encode_utf8_def)

lemma drive_prefix_chars:
  assumes "scalars name"
  shows "has_drive_prefix name \<longleftrightarrow>
    (\<exists>c rest. name = c # 0x3A # rest \<and> (0x41 \<le> c \<and> c \<le> 0x5A \<or> 0x61 \<le> c \<and> c \<le> 0x7A))"
proof (cases name)
  case (Cons c cs)
  have sc: "is_scalar c" "scalars cs" using assms Cons by simp_all
  show ?thesis
  proof (cases "c < 0x80")
    case False
    with encode_utf8_hd [OF sc(1)] obtain b bs where "encode_utf8 c = b # bs" "0xC0 \<le> b" by auto
    then show ?thesis
      using False by (auto simp: has_drive_prefix_def Cons is_ascii_alphabetic_def word_le_nat_alt)
  next
    case True
    then have c: "as_bytes name = of_nat c # as_bytes cs" "unat (of_nat c :: u8) = c"
      by (simp_all add: Cons encode_utf8_def unat_of_nat8)
    show ?thesis
    proof (cases cs)
      case Nil
      with c show ?thesis by (simp add: has_drive_prefix_def Cons)
    next
      case (Cons d ds)
      from encode_utf8_hd [of d] sc(2) have d: "(hd (as_bytes cs) = 0x3A) \<longleftrightarrow> d = 0x3A"
        by (auto simp: Cons word_le_nat_alt word_eq_iff_unsigned [where ?'a = nat] unat_of_nat8)
      have "as_bytes cs \<noteq> []" by (simp add: Cons)
      then have "2 \<le> length (as_bytes name) \<and> as_bytes name ! 1 = hd (as_bytes cs)"
        using c(1) by (cases "as_bytes cs") simp_all
      with c d show ?thesis
        by (auto simp: has_drive_prefix_def \<open>name = c # cs\<close> Cons is_ascii_alphabetic_def word_le_nat_alt)
    qed
  qed
qed (simp add: has_drive_prefix_def)

lemma is_absolute_rooted: "scalars name \<Longrightarrow> is_absolute name \<longleftrightarrow> rooted name"
  using drive_prefix_chars [of name]
  by (cases name) (auto simp: is_absolute_def rooted_def separator_def)

lemma audit_names_set:
  assumes "scalars (hf_name (el_central e))"
  shows "set (audit_names e) = {k. \<exists>n. n = hf_name (el_central e) \<and>
    (k = NameTraversal (el_index e) n \<and> component_of [0x2E, 0x2E] n \<or>
     k = NameAbsolute (el_index e) n \<and> rooted n \<or>
     k = NameBidi (el_index e) n \<and> (\<exists>c \<in> set n. c \<in> {0x200E, 0x200F} \<union> {0x202A..0x202E} \<union> {0x2066..0x2069}) \<or>
     k = NameControl (el_index e) n \<and> (\<exists>c \<in> set n. c \<in> {0..0x1F} \<union> {0x7F..0x9F}))}"
proof -
  have "is_bidi c \<longleftrightarrow> c \<in> {0x200E, 0x200F} \<union> {0x202A..0x202E} \<union> {0x2066..0x2069}" for c
    by (auto simp: is_bidi_def)
  then have bidi: "has_bidi_override n \<longleftrightarrow> (\<exists>c \<in> set n. c \<in> {0x200E, 0x200F} \<union> {0x202A..0x202E} \<union> {0x2066..0x2069})" for n
    unfolding has_bidi_override_def list_ex_iff by blast
  have "is_control c \<longleftrightarrow> c \<in> {0..0x1F} \<union> {0x7F..0x9F}" for c
    by (auto simp: is_control_def)
  then have control: "has_control_chars n \<longleftrightarrow> (\<exists>c \<in> set n. c \<in> {0..0x1F} \<union> {0x7F..0x9F})" for n
    unfolding has_control_chars_def list_ex_iff by blast
  show ?thesis
    unfolding audit_names_def Let_def bidi control has_traversal_component is_absolute_rooted [OF assms] by auto
qed

section \<open>The two copies of a header\<close>

lemma bit3_set: "has_bits flags 0x0008 \<longleftrightarrow> bit flags 3"
  using and_exp_eq_0_iff_not_bit [of flags 3] by (simp add: has_bits_def)

lemma audit_copies_set:
  "set (audit_copies e) = {mismatch e field c l | field c l. disagreement (el_central e) (el_local e) (field, c, l)}"
proof -
  have s: "unat (hf_compressed_size l) \<noteq> 2 ^ 32 - 1 \<longleftrightarrow> hf_compressed_size l \<noteq> 0xFFFFFFFF"
    "unat (hf_uncompressed_size l) \<noteq> 2 ^ 32 - 1 \<longleftrightarrow> hf_uncompressed_size l \<noteq> 0xFFFFFFFF" for l
    by (simp_all add: word_eq_iff_unsigned [where ?'a = nat])
  show ?thesis
    unfolding audit_copies_def Let_def compare_size_def disagreement_def s bit3_set by auto
qed

section \<open>Overlaps\<close>

text \<open>
  A stable sort orders the entries by start and position; its neighbours are the pairs with nothing
  between them.
\<close>

lemma sort_key_positions:
  fixes f :: "'a \<Rightarrow> 'b::linorder"
  shows "sort_key f xs = map snd (sort_key (\<lambda>p. (f (snd p), fst p)) (enumerate 0 xs))" (is "_ = map snd ?zs")
proof (rule properties_for_sort_key)
  show "mset (map snd ?zs) = mset xs" by (metis map_snd_enumerate mset_map mset_sort)
next
  have "sorted_wrt (\<lambda>p q. (f (snd p), fst p) \<le> (f (snd q), fst q)) ?zs"
    using sorted_sort_key [of "\<lambda>p. (f (snd p), fst p)" "enumerate 0 xs"] by (simp only: sorted_map)
  then have "sorted_wrt (\<lambda>p q. f (snd p) \<le> f (snd q)) ?zs"
    by (rule sorted_wrt_mono_rel [rotated]) auto
  then show "sorted (map f (map snd ?zs))" by (simp only: sorted_map sorted_wrt_map)
next
  fix k
  let ?P = "\<lambda>p :: nat \<times> 'a. f k = f (snd p)"
  have "sorted (map (\<lambda>p. (f (snd p), fst p)) (filter ?P (enumerate n xs)))" for n
  proof (induction xs arbitrary: n)
    case (Cons x xs)
    have "\<forall>p \<in> set (enumerate (Suc n) xs). n \<le> fst p" by (auto simp: in_set_enumerate_eq)
    with Cons [of "Suc n"] show ?case by auto
  qed simp
  then have "filter ?P ?zs = filter ?P (enumerate 0 xs)"
    by (simp only: filter_sort sort_key_id_if_sorted)
  then have "map snd (filter ?P ?zs) = map snd (filter ?P (enumerate 0 xs))" by simp
  then show "filter (\<lambda>x. f k = f x) (map snd ?zs) = filter (\<lambda>x. f k = f x) xs"
    using filter_map [of "\<lambda>x. f k = f x" snd ?zs] filter_map [of "\<lambda>x. f k = f x" snd "enumerate 0 xs"]
    by (simp add: comp_def)
qed

text \<open>The neighbours of a list whose keys increase strictly.\<close>

fun neighbours :: "'a list \<Rightarrow> ('a \<times> 'a) list" where
  "neighbours (x # y # zs) = (x, y) # neighbours (y # zs)"
| "neighbours _ = []"

lemma neighbours_map: "neighbours (map f xs) = map (\<lambda>(x, y). (f x, f y)) (neighbours xs)"
  by (induction xs rule: neighbours.induct) auto

lemma overlap_windows_neighbours:
  "overlap_windows ys = concat (map (\<lambda>(x, y). if span_start y < span_end x
     then [Overlap (fst x) (fst y) (span_start y)] else []) (neighbours ys))"
  by (induction ys rule: overlap_windows.induct) auto

lemma neighbours_between:
  fixes g :: "'a \<Rightarrow> 'b::linorder"
  assumes "sorted_wrt (\<lambda>x y. g x < g y) xs"
  shows "(x, y) \<in> set (neighbours xs) \<longleftrightarrow>
    x \<in> set xs \<and> y \<in> set xs \<and> g x < g y \<and> \<not> (\<exists>z \<in> set xs. g x < g z \<and> g z < g y)"
  using assms
proof (induction xs rule: neighbours.induct)
  case (1 a b zs)
  have ab: "\<forall>z \<in> set (b # zs). g a < g z" "\<forall>z \<in> set zs. g b < g z" using 1(2) by auto
  have IH: "(x, y) \<in> set (neighbours (b # zs)) \<longleftrightarrow>
    x \<in> set (b # zs) \<and> y \<in> set (b # zs) \<and> g x < g y \<and> \<not> (\<exists>z \<in> set (b # zs). g x < g z \<and> g z < g y)"
    by (rule 1(1)) (use 1(2) in simp)
  show ?case
  proof (cases "x = a")
    case True
    have "a \<notin> set (b # zs)" using ab(1) by blast
    then have "(x, y) \<in> set (neighbours (a # b # zs)) \<longleftrightarrow> y = b" using IH True by auto
    also have "\<dots> \<longleftrightarrow> y \<in> set (a # b # zs) \<and> g a < g y \<and> \<not> (\<exists>z \<in> set (a # b # zs). g a < g z \<and> g z < g y)"
      using ab by (auto dest: order.asym)
    finally show ?thesis using True by simp
  next
    case False
    then have "(x, y) \<in> set (neighbours (a # b # zs)) \<longleftrightarrow> (x, y) \<in> set (neighbours (b # zs))" by simp
    with IH ab(1) False show ?thesis by (auto dest: order.asym)
  qed
qed auto

lemma sorted_spans_neighbours:
  defines "zs \<equiv> \<lambda>L. sort_key (\<lambda>p. (span_start (snd p), fst p)) (enumerate 0 (map span_of L))"
  shows "(x, y) \<in> set (neighbours (zs L)) \<longleftrightarrow>
    (\<exists>i j. x = (i, span_of (L ! i)) \<and> y = (j, span_of (L ! j)) \<and> starts_next L i j)"
proof -
  let ?key = "\<lambda>p :: nat \<times> usize \<times> u64 \<times> u64. (span_start (snd p), fst p)" and ?P = "\<lambda>i. (i, span_of (L ! i))"
  have set: "set (zs L) = ?P ` {..<length L}"
    by (auto simp: zs_def in_set_enumerate_eq image_iff)
  have "mset (map fst (zs L)) = mset [0..<length L]"
    unfolding zs_def mset_map mset_sort by (simp flip: mset_map)
  then have "distinct (map fst (zs L))" by (metis distinct_upt mset_eq_imp_distinct_iff)
  have "inj_on ?key (set (zs L))" unfolding set by (auto simp: inj_on_def)
  moreover have "distinct (zs L)" using \<open>distinct (map fst (zs L))\<close> by (simp add: distinct_map)
  ultimately have "distinct (map ?key (zs L))" by (simp add: distinct_map)
  then have "sorted_wrt (<) (map ?key (zs L))" by (simp add: strict_sorted_iff zs_def)
  then have "sorted_wrt (\<lambda>p q. ?key p < ?key q) (zs L)" by (simp only: sorted_wrt_map)
  note between = neighbours_between [OF this, of x y]
  have before: "i < length L \<and> j < length L \<and> ?key (?P i) < ?key (?P j) \<longleftrightarrow> starts_before L i j" for i j
    by (auto simp: starts_before_def span_of_def less_prod_def)
  show ?thesis
    unfolding between set starts_next_def before [symmetric] by auto
qed

lemma in_concat_pairs:
  "k \<in> set (concat (map (\<lambda>(x, y). if P x y then [f x y] else []) ps)) \<longleftrightarrow>
    (\<exists>x y. (x, y) \<in> set ps \<and> P x y \<and> k = f x y)"
  by (induction ps) auto

lemma audit_overlaps_set:
  assumes "\<And>i. i < length L \<Longrightarrow> el_index (L ! i) = i"
  shows "set (audit_overlaps L) = {Overlap i j p | i j p.
    starts_next L i j \<and> p = el_data_start (L ! j) \<and> unat p < data_end (L ! i)}"
proof -
  let ?zs = "sort_key (\<lambda>p. (span_start (snd p), fst p)) (enumerate 0 (map span_of L))"
  have eq: "audit_overlaps L = concat (map (\<lambda>(x, y). if span_start (snd y) < span_end (snd x)
      then [Overlap (fst (snd x)) (fst (snd y)) (span_start (snd y))] else []) (neighbours ?zs))"
    by (simp add: audit_overlaps_def case_prod_beta' sort_key_positions [of span_start]
        overlap_windows_neighbours neighbours_map comp_def cong: if_cong)
  have inside: "p < span_end (span_of e) \<longleftrightarrow> unat p < data_end e" for p e
    by (simp add: span_of_def data_end_def unat_saturating_add64 word_less_nat_alt)
  have found: "k \<in> set (audit_overlaps L) \<longleftrightarrow> (\<exists>x y. (x, y) \<in> set (neighbours ?zs) \<and>
      span_start (snd y) < span_end (snd x) \<and> k = Overlap (fst (snd x)) (fst (snd y)) (span_start (snd y)))" for k
    unfolding eq by (rule in_concat_pairs)
  have "k \<in> set (audit_overlaps L) \<longleftrightarrow> (\<exists>i j. starts_next L i j \<and>
      el_data_start (L ! j) < span_end (span_of (L ! i)) \<and>
      k = Overlap (el_index (L ! i)) (el_index (L ! j)) (el_data_start (L ! j)))" for k
    unfolding found sorted_spans_neighbours by (simp add: span_of_def)
  moreover have "el_index (L ! i) = i \<and> el_index (L ! j) = j" if "starts_next L i j" for i j
    using that assms by (simp add: starts_next_def starts_before_def)
  ultimately have "k \<in> set (audit_overlaps L) \<longleftrightarrow> (\<exists>i j. starts_next L i j \<and>
      unat (el_data_start (L ! j)) < data_end (L ! i) \<and> k = Overlap i j (el_data_start (L ! j)))" for k
    unfolding inside by (metis (lifting))
  then show ?thesis by auto
qed

section \<open>The audit\<close>

lemma foldr_min_minimum:
  fixes x :: "'a::linorder"
  shows "foldr min xs x \<in> set (x # xs) \<and> (\<forall>y \<in> set (x # xs). foldr min xs x \<le> y)"
  by (induction xs) (auto simp: min_def)

lemma audit_prepended_set:
  "k \<in> set (audit_prepended L) \<longleftrightarrow> (\<exists>n. k = PrependedData n \<and>
     0 < n \<and> (\<exists>e \<in> set L. el_lfh_offset e = n) \<and> (\<forall>e \<in> set L. n \<le> el_lfh_offset e))"
proof (cases L)
  case (Cons e es)
  let ?first = "foldr min (map el_lfh_offset es) (el_lfh_offset e)"
  have "(\<exists>e \<in> set L. el_lfh_offset e = ?first) \<and> (\<forall>e \<in> set L. ?first \<le> el_lfh_offset e)"
    using foldr_min_minimum [of "map el_lfh_offset es" "el_lfh_offset e"] Cons by auto
  then have "(\<exists>e \<in> set L. el_lfh_offset e = n) \<and> (\<forall>e \<in> set L. n \<le> el_lfh_offset e) \<longleftrightarrow> n = ?first" for n
    by (metis order.antisym)
  moreover have "k \<in> set (audit_prepended L) \<longleftrightarrow> k = PrependedData ?first \<and> 0 < ?first"
    by (simp add: audit_prepended_def Cons Let_def)
  ultimately show ?thesis by auto
qed (simp add: audit_prepended_def)

lemma audit_container_set:
  "an_kind ` set (audit_container debug_str s L) =
     {TrailingData n | n. 0 < n \<and> unat (eocd_end_offset s) + unat n = unat (file_len s)} \<union>
     {SpanningAnomaly d c | d c. d = disk_number s \<and> c = cd_start_disk s \<and> (spanned d \<or> spanned c)}"
proof -
  have "spans d \<longleftrightarrow> spanned d" for d
    by (simp add: spans_def spanned_def word_eq_iff_unsigned [where ?'a = nat])
  moreover have "0 < n \<and> unat (eocd_end_offset s) + unat n = unat (file_len s) \<longleftrightarrow>
      eocd_end_offset s < file_len s \<and> n = file_len s - eocd_end_offset s" for n
  proof
    assume n: "0 < n \<and> unat (eocd_end_offset s) + unat n = unat (file_len s)"
    then have "eocd_end_offset s < file_len s" by (auto simp: word_less_nat_alt)
    moreover have "unat n = unat (file_len s - eocd_end_offset s)"
      using n unat_sub [OF order.strict_implies_order [OF calculation]] by linarith
    ultimately show "eocd_end_offset s < file_len s \<and> n = file_len s - eocd_end_offset s"
      by (simp add: word_eq_iff_unsigned [where ?'a = nat])
  next
    assume n: "eocd_end_offset s < file_len s \<and> n = file_len s - eocd_end_offset s"
    then have "unat n = unat (file_len s) - unat (eocd_end_offset s)"
      using unat_sub [OF order.strict_implies_order, of "eocd_end_offset s" "file_len s"] by simp
    with n show "0 < n \<and> unat (eocd_end_offset s) + unat n = unat (file_len s)"
      by (simp add: word_less_nat_alt)
  qed
  ultimately show ?thesis unfolding audit_container_def by auto
qed

lemma crc_findings_member:
  "k \<in> set (crc_findings E a (i, e)) \<longleftrightarrow> (\<exists>f name recorded actual. by_index E a i = Some (Ok f) \<and>
     read_entry E f = Some (Err (IoOther (CrcMismatchError name recorded actual))) \<and>
     k = CrcMismatch i (hf_name (el_central e)))"
proof -
  have "is_crc_mismatch err \<longleftrightarrow> (\<exists>name recorded actual. err = IoOther (CrcMismatchError name recorded actual))" for err
    by (cases err rule: is_crc_mismatch.cases) auto
  then show ?thesis
    by (cases "by_index E a i")
      (auto simp: crc_findings_def eq_commute [of "Some _" "read_entry E _"] split: option.split outcome.split)
qed

lemma audit_entries_set:
  assumes "\<And>i. i < length L \<Longrightarrow> el_index (L ! i) = i \<and> scalars (row_name L i)"
  shows "k \<in> set (concat (map audit_entry L)) \<longleftrightarrow>
    (\<exists>i n. (k = NameTraversal i n \<or> k = NameAbsolute i n \<or> k = NameBidi i n \<or> k = NameControl i n \<or>
      (\<exists>field c l. k = CdLfhMismatch i n field c l)) \<and> warranted E a L k)"
proof -
  have row: "k \<in> set (audit_entry (L ! i)) \<longleftrightarrow>
    (\<exists>n. (k = NameTraversal i n \<or> k = NameAbsolute i n \<or> k = NameBidi i n \<or> k = NameControl i n \<or>
      (\<exists>field c l. k = CdLfhMismatch i n field c l)) \<and> warranted E a L k)" if "i < length L" for i
  proof -
    from assms [OF that] have i: "el_index (L ! i) = i" "scalars (row_name L i)" by auto
    show ?thesis
      unfolding audit_entry_def set_append audit_copies_set audit_names_set [OF i(2)] i(1) mismatch_def
      using that by auto
  qed
  have "k \<in> set (concat (map audit_entry L)) \<longleftrightarrow> (\<exists>i < length L. k \<in> set (audit_entry (L ! i)))"
    by (auto simp: in_set_conv_nth) (metis nth_mem)+
  also have "\<dots> \<longleftrightarrow> (\<exists>i n. (k = NameTraversal i n \<or> k = NameAbsolute i n \<or> k = NameBidi i n \<or> k = NameControl i n \<or>
      (\<exists>field c l. k = CdLfhMismatch i n field c l)) \<and> warranted E a L k)"
    using row by fastforce
  finally show ?thesis .
qed

text \<open>
  C27: An audit that returns has opened the archive and paired its headers, and the anomalies it reports are
  exactly those warranted by the rows of this view, the summary and the reads of the entries, each with the
  severity, code and note of its kind: the least local-header offset when it is not zero, the bytes after
  the end record, the spanning disk numbers, the names with a parent component, a root or drive, a
  bidirectional control or a control character, every compared header field whose two copies differ, every
  overlap of an entry with the next one in the order of the data starts, and every entry whose read to the
  end fails with a CRC mismatch.
\<close>

theorem audit_reader_reports:
  assumes "audit_reader E debug_str c = Some (Ok out)"
  shows "\<exists>archive0 layout archive. ZipArchive_new c = Ok archive0 \<and> structural_view archive0 = (Ok layout, archive) \<and>
    set out = Anomaly_new debug_str ` {k. warranted E archive layout k}"
proof -
  from assms obtain archive0 where a0: "ZipArchive_new c = Ok archive0"
    by (cases "ZipArchive_new c") (auto simp: audit_reader_def)
  obtain v archive where sv: "structural_view archive0 = (v, archive)" by (rule prod.exhaust)
  from assms a0 sv obtain layout where v: "v = Ok layout"
    by (cases v) (auto simp: audit_reader_def)
  with assms a0 sv obtain found where found: "audit_data E archive (enumerate 0 layout) = Some (Ok found)"
    "out = (audit_layout debug_str layout @ audit_container debug_str (za_summary archive) layout) @
      map (Anomaly_new debug_str) found"
    by (auto simp: audit_reader_def Let_def)
  note rows = structural_view_rows [OF sv [unfolded v]]
  have row: "el_index (layout ! i) = i \<and> scalars (row_name layout i)" if "i < length layout" for i
    using rows(2) [OF that] rows(1) that archive_string_entry [OF a0, of "za_entries archive0 ! i"]
    by (simp add: string_entry_def central_fields_def)
  then have index: "\<And>i. i < length layout \<Longrightarrow> el_index (layout ! i) = i" by blast
  have kinds: "an_kind ` set out = set (audit_prepended layout) \<union> set (concat (map audit_entry layout)) \<union>
      set (audit_overlaps layout) \<union> an_kind ` set (audit_container debug_str (za_summary archive) layout) \<union>
      {k. \<exists>i < length layout. k \<in> set (crc_findings E archive (i, layout ! i))}"
  proof -
    have "an_kind ` set (map (Anomaly_new debug_str) ks) = set ks" for ks by (simp add: image_image)
    moreover have "set found = {k. \<exists>i < length layout. k \<in> set (crc_findings E archive (i, layout ! i))}"
      unfolding audit_data_Ok [OF found(1)] by (auto simp: in_enumerate) (metis in_enumerate)
    ultimately show ?thesis
      unfolding found(2) audit_layout_def set_append image_Un by (simp only: set_append Un_assoc)
  qed
  have overlaps: "set (audit_overlaps layout) = {Overlap i j p | i j p.
      starts_next layout i j \<and> p = el_data_start (layout ! j) \<and> unat p < data_end (layout ! i)}"
    by (rule audit_overlaps_set) (rule index)
  have entries: "k \<in> set (concat (map audit_entry layout)) \<longleftrightarrow>
    (\<exists>i n. (k = NameTraversal i n \<or> k = NameAbsolute i n \<or> k = NameBidi i n \<or> k = NameControl i n \<or>
      (\<exists>field c l. k = CdLfhMismatch i n field c l)) \<and> warranted E archive layout k)" for k
    by (rule audit_entries_set) (rule row)
  have "k \<in> an_kind ` set out \<longleftrightarrow> warranted E archive layout k" for k
    unfolding kinds Un_iff audit_prepended_set audit_container_set overlaps entries mem_Collect_eq crc_findings_member
    by (cases k; simp) blast
  moreover have "x = Anomaly_new debug_str (an_kind x)" if "x \<in> set out" for x
  proof -
    have "y = Anomaly_new debug_str (an_kind y)" if "y \<in> set (map (Anomaly_new debug_str) ks)" for y ks
      using that by auto
    with that show ?thesis
      unfolding found(2) audit_layout_def audit_container_def set_append Un_iff by blast
  qed
  ultimately have "set out = Anomaly_new debug_str ` {k. warranted E archive layout k}"
    by (auto simp: image_iff) (metis imageI)+
  with a0 sv v show ?thesis by blast
qed

text \<open>The sample archive with a wrong checksum: prepended data, and its one entry corrupt.\<close>

theorem audit_reader_reports_witness:
  "\<exists>out. audit_reader sample_externals (\<lambda>s. s) (cursor_new corrupt_archive) = Some (Ok out) \<and>
    Anomaly_new (\<lambda>s. s) (CrcMismatch 0 [97, 46, 98]) \<in> set out \<and>
    (\<forall>i n. Anomaly_new (\<lambda>s. s) (NameTraversal i n) \<notin> set out)"
proof -
  from corrupt_audit [of "\<lambda>s. s"] obtain out where
    out: "audit_reader sample_externals (\<lambda>s. s) (cursor_new corrupt_archive) = Some (Ok out)" by blast
  from audit_reader_reports [OF this] obtain a layout a' where
    a: "ZipArchive_new (cursor_new corrupt_archive) = Ok a" "structural_view a = (Ok layout, a')"
    and all: "set out = Anomaly_new (\<lambda>s. s) ` {k. warranted sample_externals a' layout k}" by blast
  from corrupt_opens a obtain m where m: "za_entries a = [m]" "placed (za_reader a) m [0xFF]" "on_one_disk a m"
    "ce_flags m = 0" "ce_method m = Stored" "ce_crc32 m = 7" "ce_name m = [97, 46, 98]" by auto
  note same = structural_view_data [OF a(2)] and rows = structural_view_rows [OF a(2)]
  have "placed (za_reader a') m [0xFF]" "on_one_disk a' m"
    using m(2,3) same by (simp_all add: placed_def on_one_disk_def)
  from archive_open_stored [OF this, of sample_externals] m(4,5) obtain f where
    f: "archive_open sample_externals a' m = Some (Ok f)"
    "read_entry sample_externals f = Some (crc_verdict sample_externals m True [0xFF])"
    by (auto simp: has_bits_def crc_chunked_bytewise)
  have row: "length layout = 1" "row_name layout 0 = [97, 46, 98]"
    using rows m(1,7) by (simp_all add: central_fields_def)
  have "warranted sample_externals a' layout (CrcMismatch 0 [97, 46, 98])"
    using f row m(1,6) same by (simp add: by_index_def entry_at_def crc_verdict_def crc_sample)
  then have "Anomaly_new (\<lambda>s. s) (CrcMismatch 0 [97, 46, 98]) \<in> set out" unfolding all by blast
  moreover have "Anomaly_new (\<lambda>s. s) (NameTraversal i n) \<notin> set out" for i n
  proof
    assume "Anomaly_new (\<lambda>s. s) (NameTraversal i n) \<in> set out"
    then have "warranted sample_externals a' layout (NameTraversal i n)"
      unfolding all by (metis an_kind_new imageE mem_Collect_eq)
    with row have "component_of [0x2E, 0x2E] [97, 46, 98]" by auto
    then show False by (simp flip: split_sep_components add: is_sep_def)
  qed
  ultimately show ?thesis using out by blast
qed

end
