(* ===== verification/Names.thy ===== *)
theory Names
  imports Roundtrip
begin

text \<open>
  Entry names from the writer's side: a name is stored either in UTF-8 under the flag bit 11, or, without the
  flag, in the code page 437, whose codes are listed here by character (the source has the reverse table, by
  code). An archive written with such names opens to the names.
\<close>

section \<open>Writing names\<close>

text \<open>The characters above ASCII that the code page has, in the order of their code points, with their codes.\<close>

definition cp437_codes :: "(rchar \<times> u8) list" where
  "cp437_codes = [
    (0xA0, 0xFF), (0xA1, 0xAD), (0xA2, 0x9B), (0xA3, 0x9C),
    (0xA5, 0x9D), (0xAA, 0xA6), (0xAB, 0xAE), (0xAC, 0xAA),
    (0xB0, 0xF8), (0xB1, 0xF1), (0xB2, 0xFD), (0xB5, 0xE6),
    (0xB7, 0xFA), (0xBA, 0xA7), (0xBB, 0xAF), (0xBC, 0xAC),
    (0xBD, 0xAB), (0xBF, 0xA8), (0xC4, 0x8E), (0xC5, 0x8F),
    (0xC6, 0x92), (0xC7, 0x80), (0xC9, 0x90), (0xD1, 0xA5),
    (0xD6, 0x99), (0xDC, 0x9A), (0xDF, 0xE1), (0xE0, 0x85),
    (0xE1, 0xA0), (0xE2, 0x83), (0xE4, 0x84), (0xE5, 0x86),
    (0xE6, 0x91), (0xE7, 0x87), (0xE8, 0x8A), (0xE9, 0x82),
    (0xEA, 0x88), (0xEB, 0x89), (0xEC, 0x8D), (0xED, 0xA1),
    (0xEE, 0x8C), (0xEF, 0x8B), (0xF1, 0xA4), (0xF2, 0x95),
    (0xF3, 0xA2), (0xF4, 0x93), (0xF6, 0x94), (0xF7, 0xF6),
    (0xF9, 0x97), (0xFA, 0xA3), (0xFB, 0x96), (0xFC, 0x81),
    (0xFF, 0x98), (0x192, 0x9F), (0x393, 0xE2), (0x398, 0xE9),
    (0x3A3, 0xE4), (0x3A6, 0xE8), (0x3A9, 0xEA), (0x3B1, 0xE0),
    (0x3B4, 0xEB), (0x3B5, 0xEE), (0x3C0, 0xE3), (0x3C3, 0xE5),
    (0x3C4, 0xE7), (0x3C6, 0xED), (0x207F, 0xFC), (0x20A7, 0x9E),
    (0x2219, 0xF9), (0x221A, 0xFB), (0x221E, 0xEC), (0x2229, 0xEF),
    (0x2248, 0xF7), (0x2261, 0xF0), (0x2264, 0xF3), (0x2265, 0xF2),
    (0x2310, 0xA9), (0x2320, 0xF4), (0x2321, 0xF5), (0x2500, 0xC4),
    (0x2502, 0xB3), (0x250C, 0xDA), (0x2510, 0xBF), (0x2514, 0xC0),
    (0x2518, 0xD9), (0x251C, 0xC3), (0x2524, 0xB4), (0x252C, 0xC2),
    (0x2534, 0xC1), (0x253C, 0xC5), (0x2550, 0xCD), (0x2551, 0xBA),
    (0x2552, 0xD5), (0x2553, 0xD6), (0x2554, 0xC9), (0x2555, 0xB8),
    (0x2556, 0xB7), (0x2557, 0xBB), (0x2558, 0xD4), (0x2559, 0xD3),
    (0x255A, 0xC8), (0x255B, 0xBE), (0x255C, 0xBD), (0x255D, 0xBC),
    (0x255E, 0xC6), (0x255F, 0xC7), (0x2560, 0xCC), (0x2561, 0xB5),
    (0x2562, 0xB6), (0x2563, 0xB9), (0x2564, 0xD1), (0x2565, 0xD2),
    (0x2566, 0xCB), (0x2567, 0xCF), (0x2568, 0xD0), (0x2569, 0xCA),
    (0x256A, 0xD8), (0x256B, 0xD7), (0x256C, 0xCE), (0x2580, 0xDF),
    (0x2584, 0xDC), (0x2588, 0xDB), (0x258C, 0xDD), (0x2590, 0xDE),
    (0x2591, 0xB0), (0x2592, 0xB1), (0x2593, 0xB2), (0x25A0, 0xFE)]"

definition cp437_encode :: "rchar \<Rightarrow> u8 option" where
  "cp437_encode c = (if c < 0x80 then Some (of_nat c) else map_of cp437_codes c)"

definition name_written :: "u16 \<Rightarrow> u8 list \<Rightarrow> rstring \<Rightarrow> bool" where
  "name_written flags bytes s \<longleftrightarrow>
     (if bit flags 11 then list_all is_scalar s \<and> bytes = as_bytes s
      else map Some bytes = map cp437_encode s)"

section \<open>Reading them back\<close>

lemma cp437_codes_decode: "map (\<lambda>(c, b). cp437_decode b) cp437_codes = map fst cp437_codes"
  by (simp add: cp437_codes_def cp437_decode_def HIGH_def)

lemma cp437_encode_decode:
  assumes "Some b = cp437_encode c"
  shows "cp437_decode b = c"
proof (cases "c < 0x80")
  case True
  with assms have "b = of_nat c" by (simp add: cp437_encode_def)
  moreover have "unat (of_nat c :: u8) = c" using True by (intro unat_of_nat8) simp
  ultimately show ?thesis using True by (simp add: cp437_decode_ascii word_less_nat_alt)
next
  case False
  with assms have "(c, b) \<in> set cp437_codes" by (simp add: cp437_encode_def map_of_SomeD)
  with cp437_codes_decode show ?thesis by (auto simp: map_eq_conv)
qed

text \<open>Every byte is the code of a character, so every name of bytes can be written.\<close>

lemma cp437_codes_complete: "sort (map snd cp437_codes) = map of_nat [128..<256]"
  by (simp add: cp437_codes_def upt_rec)

lemma name_written_decoded:
  assumes "name_written flags bytes s"
  shows "decode_name bytes flags = s"
proof (cases "bit flags 11")
  case True
  then have "has_bits flags 0x0800" using and_exp_eq_0_iff_not_bit [of flags 11] by (simp add: has_bits_def)
  with assms True show ?thesis by (simp add: name_written_def decode_name_utf8)
next
  case False
  then have "\<not> has_bits flags 0x0800" using and_exp_eq_0_iff_not_bit [of flags 11] by (simp add: has_bits_def)
  moreover have "map cp437_decode bytes = s"
    using assms False unfolding name_written_def
    by (auto simp: list_eq_iff_nth_eq intro!: cp437_encode_decode)
  ultimately show ?thesis by (simp add: decode_name_cp437)
qed

lemma entry_of_name: "entry_of h = Ok e \<Longrightarrow> ce_name e = decode_name (h_name h) (h_flags h)"
  by (auto simp: entry_of_def make_entry_def fixed_of_def)

lemma entries_of_names: "entries_of hs = Ok es \<Longrightarrow> map ce_name es = map (\<lambda>h. decode_name (h_name h) (h_flags h)) hs"
  by (induction hs arbitrary: es) (auto simp: entry_of_name)

text \<open>
  C29: The names of an archive are the names it was written with: of headers whose names are written in
  UTF-8 under the flag, or in the code page 437 without it, the archive opens, and its listing has exactly
  these names in the order of the directory.
\<close>

theorem archive_names_roundtrip:
  assumes "archive_ok pre body hs comment" and "entries_of hs = Ok es"
    and "\<forall>e \<in> set es. unat (ce_lfh_offset e) + length pre < 2 ^ 64"
    and "list_all2 (\<lambda>h s. name_written (h_flags h) (h_name h) s) hs names"
  shows "\<exists>a. ZipArchive_new (cursor_new (encode_archive pre body hs comment)) = Ok a \<and> file_names a = names"
proof -
  have "shift_entries (of_nat (length pre)) es =
      Ok (map (\<lambda>e. e\<lparr>ce_lfh_offset := ce_lfh_offset e + of_nat (length pre)\<rparr>) es)"
    using assms(3) by (simp only: shift_entries_Ok unat_length_pre [OF assms(1)])
  with open_encoded [OF assms(1,2)] obtain a where
    "ZipArchive_new (cursor_new (encode_archive pre body hs comment)) = Ok a"
    "za_entries a = map (\<lambda>e. e\<lparr>ce_lfh_offset := ce_lfh_offset e + of_nat (length pre)\<rparr>) es" by auto
  moreover have "map (\<lambda>h. decode_name (h_name h) (h_flags h)) hs = names"
    using assms(4) by (induction rule: list_all2_induct) (simp_all add: name_written_decoded)
  ultimately show ?thesis using entries_of_names [OF assms(2)] by (auto simp: file_names_def comp_def)
qed

text \<open>Two entries, the first named in the code page, the second in UTF-8 with a character outside it.\<close>

definition named_headers :: "cd_header list" where
  "named_headers = [sample_header\<lparr>h_name := [0x80, 0x2E, 0xE1]\<rparr>,
     sample_header\<lparr>h_flags := 0x0800, h_name := [0xE2, 0x82, 0xAC]\<rparr>]"

lemma named_ok: "archive_ok [1] [2, 3] named_headers []"
  by (simp add: archive_ok_def comment_ok_def header_ok_def encode_archive_def directory_def
      archive_eocd_def encode_eocd_def encode_header_def encode_fixed_def sample_header_def
      named_headers_def le_eval)

theorem archive_names_roundtrip_witness:
  "\<exists>a. ZipArchive_new (cursor_new (encode_archive [1] [2, 3] named_headers [])) = Ok a \<and>
    file_names a = [[0xC7, 0x2E, 0xDF], [0x20AC]]"
proof -
  obtain es where es: "entries_of named_headers = Ok es" "\<forall>e \<in> set es. ce_lfh_offset e = 0"
    by (simp add: named_headers_def entry_of_plain sample_header_def)
  moreover have "list_all2 (\<lambda>h s. name_written (h_flags h) (h_name h) s) named_headers [[0xC7, 0x2E, 0xDF], [0x20AC]]"
    by (simp add: named_headers_def sample_header_def name_written_def cp437_encode_def cp437_codes_def
        as_bytes_def encode_utf8_def is_scalar_def)
  ultimately show ?thesis by (intro archive_names_roundtrip [OF named_ok es(1)]) simp_all
qed

end
