(* ===== verification/StrongEntry.thy ===== *)
theory StrongEntry
  imports Decoded
begin

text \<open>
  The PKWARE strong encryption end to end: a stored entry written as decryption header and CBC
  ciphertext is opened with a password and read to the end.
\<close>

section \<open>The decryption header as written\<close>

text \<open>An explicit initialization vector or none, then the remainder \<open>p\<close> behind its length.\<close>

definition iv_field :: "u8 list option \<Rightarrow> u8 list" where
  "iv_field civ = (case civ of None \<Rightarrow> le16 0 | Some v \<Rightarrow> le16 16 @ v)"

definition encode_strong :: "u8 list option \<Rightarrow> u8 list \<Rightarrow> u8 list" where
  "encode_strong civ p = iv_field civ @ le32 (of_nat (length p)) @ p"

definition strong_head_ok :: "u8 list option \<Rightarrow> u8 list \<Rightarrow> bool" where
  "strong_head_ok civ p \<longleftrightarrow> pred_option (\<lambda>v. length v = 16) civ \<and> 16 \<le> length p \<and> length p \<le> MAX_STRONG_REM"

text \<open>The vector the keys are derived with, and how much of it: absent, it is made of checksum and size.\<close>

definition strong_iv :: "u8 list option \<Rightarrow> u32 \<Rightarrow> u64 \<Rightarrow> u8 list" where
  "strong_iv civ crc sz = (case civ of None \<Rightarrow> le32 crc @ le64 sz @ replicate 4 0 | Some v \<Rightarrow> v)"

definition strong_iv_used :: "u8 list option \<Rightarrow> usize" where
  "strong_iv_used civ = (case civ of None \<Rightarrow> 12 | Some v \<Rightarrow> 16)"

lemma strong_iv_bounds:
  "pred_option (\<lambda>v. length v = 16) civ \<Longrightarrow> length (strong_iv civ crc sz) = 16 \<and> strong_iv_used civ \<le> 16"
  by (cases civ) (simp_all add: strong_iv_def strong_iv_used_def)

lemma length_iv_field:
  "pred_option (\<lambda>v. length v = 16) civ \<Longrightarrow> length (iv_field civ) \<le> 18"
  by (cases civ) (simp_all add: iv_field_def)

context read_stream
begin

lemma read_exact_prefix:
  assumes "inv s" and "content s = bs @ rest"
  obtains s' where "read_exact rd (length bs) s = (Ok bs, s')" "content s' = rest" "inv s'"
  using read_exact_enough [OF assms(1), of "length bs"] assms(2) by auto

lemma read_strong_iv_encoded:
  assumes "inv s" and "content s = iv_field civ @ rest" and "pred_option (\<lambda>v. length v = 16) civ"
  shows "\<exists>s'. read_strong_iv rd crc sz entry s =
      (Ok (strong_iv civ crc sz, strong_iv_used civ, of_nat (length (iv_field civ))), s') \<and>
    content s' = rest \<and> inv s'"
proof (cases civ)
  case None
  from read_exact_prefix [OF assms(1), of "le16 0" rest] assms(2) obtain s' where
    s': "read_exact rd 2 s = (Ok (le16 0), s')" "content s' = rest" "inv s'"
    by (auto simp: None iv_field_def)
  then show ?thesis
    by (simp add: read_strong_iv_def None strong_iv_def strong_iv_used_def iv_field_def)
next
  case (Some v)
  from read_exact_prefix [OF assms(1), of "le16 16" "v @ rest"] assms(2) obtain s1 where
    s1: "read_exact rd 2 s = (Ok (le16 16), s1)" "content s1 = v @ rest" "inv s1"
    by (auto simp: Some iv_field_def)
  from read_exact_prefix [OF s1(3,2)] assms(3) obtain s2 where
    s2: "read_exact rd 16 s1 = (Ok v, s2)" "content s2 = rest" "inv s2"
    by (auto simp: Some)
  from s1(1) s2 assms(3) show ?thesis
    by (simp add: read_strong_iv_def Some strong_iv_def strong_iv_used_def iv_field_def)
qed

lemma read_strong_header_encoded:
  assumes "inv s" and "content s = encode_strong civ p @ rest" and "strong_head_ok civ p"
  shows "\<exists>s'. read_strong_header L H rd password crc sz entry s =
      (and_then (strong_file_key L H p (strong_iv civ crc sz) (strong_iv_used civ) password entry) (\<lambda>key.
         Ok \<lparr> sh_iv = drop (length p - 16) p, sh_file_key = key,
              sh_header_len = of_nat (length (encode_strong civ p)) \<rparr>), s') \<and>
    content s' = rest \<and> inv s'"
proof -
  have civ: "pred_option (\<lambda>v. length v = 16) civ" and p: "16 \<le> length p" "length p \<le> MAX_STRONG_REM"
    using assms(3) by (simp_all add: strong_head_ok_def)
  from read_strong_iv_encoded [where crc = crc and sz = sz and entry = entry and
      rest = "le32 (of_nat (length p)) @ p @ rest", OF assms(1) _ civ] assms(2) obtain s1 where
    s1: "read_strong_iv rd crc sz entry s =
      (Ok (strong_iv civ crc sz, strong_iv_used civ, of_nat (length (iv_field civ))), s1)"
    "content s1 = le32 (of_nat (length p)) @ p @ rest" "inv s1"
    by (auto simp: encode_strong_def)
  from read_exact_prefix [OF s1(3,2)] obtain s2 where
    s2: "read_exact rd 4 s1 = (Ok (le32 (of_nat (length p))), s2)" "content s2 = p @ rest" "inv s2" by auto
  from read_exact_prefix [OF s2(3,2)] obtain s3 where
    s3: "read_exact rd (length p) s2 = (Ok p, s3)" "content s3 = rest" "inv s3" .
  have n: "unat (of_nat (length p) :: u32) = length p"
    using p(2) by (simp add: unat_of_nat take_bit_nat_eq_self)
  have sl: "slice p (length p - AES_BLOCK) (length p) = (Ok (drop (length p - 16) p) :: (u8 list, zip_core_error) outcome)"
    using p(1) by (simp add: slice_OkI)
  have "read_strong_header L H rd password crc sz entry s =
      (and_then (strong_file_key L H p (strong_iv civ crc sz) (strong_iv_used civ) password entry) (\<lambda>key.
         Ok \<lparr> sh_iv = drop (length p - 16) p, sh_file_key = key,
              sh_header_len = of_nat (length (iv_field civ)) + 4 + of_nat (length p) \<rparr>), s3)"
    using s1(1) s2(1) s3(1) p n sl
    by (cases "strong_file_key L H p (strong_iv civ crc sz) (strong_iv_used civ) password entry")
      (simp_all add: read_strong_header_def Let_def)
  then show ?thesis using s3(2,3) by (auto simp: encode_strong_def add.assoc)
qed

end

section \<open>Extraction\<close>

lemma strong_file_key_length:
  assumes "strong_lib_ok L" and "strong_head_ok civ p"
    and "strong_file_key L H p (strong_iv civ crc sz) (strong_iv_used civ) password entry = Ok key"
  shows "length key \<in> {16, 24, 32}"
  using strong_file_key_cases [where H = H and p = p and iv = "strong_iv civ crc sz" and
      iv_used = "strong_iv_used civ" and password = password and entry = entry, OF assms(1)] assms(2,3) strong_iv_bounds [of civ crc sz] by (simp add: strong_head_ok_def)

text \<open>The decrypting reader, cut at the declared size, over a window that is the ciphertext.\<close>

lemma strong_reads:
  assumes "strong_lib_ok L" and "CbcDec_new L key iv entry = Ok dec" and "window t = ct"
    and "length ct mod 16 = 0" and "length ct < 2 ^ 64" and "\<And>j. 0 < sizes j"
  shows "\<exists>r r'. StrongAesReader_new L t key iv (of_nat (length ct)) entry = Ok r \<and>
    read_to_end (take_read (strong_read L file_read)) sizes 0 [] (take_new r n) =
      Some (Ok (take (unat n) (cbc_chunks L dec ct)), r')"
proof -
  obtain r where new: "StrongAesReader_new L t key iv (of_nat (length ct)) entry = Ok r"
    using assms(2) by (simp add: StrongAesReader_new_def)
  have u: "unat (of_nat (length ct) :: u64) = length ct" using assms(5) by (simp add: unat_of_nat64)
  with strong_new_ok [OF new] assms(4) have r: "strong_ok r" "staged r = []" "sr_inner r = t"
    "unat (sr_remaining r) = length ct" "CbcDec_new L key iv entry = Ok (sr_cipher r)" by simp_all
  let ?inv = "\<lambda>r. strong_ok r \<and> True \<and> unat (sr_remaining r) \<le> length (window (sr_inner r))"
  have "?inv (tk_inner (take_new r n))" using r assms(3) by (simp add: take_new_def)
  from read_stream.read_to_end_content [OF read_stream.take_stream [OF win.strong_stream [OF assms(1)]] this,
      of sizes 0 "[]"] assms(6)
  have "\<exists>r'. read_to_end (take_read (strong_read L file_read)) sizes 0 [] (take_new r n) =
      Some (Ok (take (unat n) (staged r @ cbc_chunks L (sr_cipher r) (take (unat (sr_remaining r)) (window (sr_inner r))))), r')"
    by (auto simp: take_new_def)
  with r assms(2,3) have "\<exists>r'. read_to_end (take_read (strong_read L file_read)) sizes 0 [] (take_new r n) =
      Some (Ok (take (unat n) (cbc_chunks L dec ct)), r')" by simp
  with new show ?thesis by blast
qed

lemma open_decrypt_strong:
  assumes "on_one_disk a m" and "has_bits (ce_flags m) 1" and "ce_aes m = None"
    and "\<not> has_bits (ce_flags m) 0x2000" and "has_bits (ce_flags m) 0x0040"
  shows "open_decrypt E a m password = open_strong_decrypt E a m password"
  using assms by (simp add: open_decrypt_def check_local_disk_one)

text \<open>Once the header is read, the file over the ciphertext, and what reading it gives.\<close>

lemma strong_file_reads:
  assumes "strong_lib_ok (x_strong E)" and "crc_chunked (x_crc E)" and "\<And>j. 0 < x_sizes E j"
    and "CbcDec_new (x_strong E) key iv (ce_name m) = Ok dec" and "window t = ct"
    and "length ct mod 16 = 0" and "unat (ce_compressed_size m) = hlen + length ct" and "hlen + length ct < 2 ^ 63"
  shows "\<exists>r. StrongAesReader_new (x_strong E) t key iv (saturating_sub64 (ce_compressed_size m) (of_nat hlen)) (ce_name m) = Ok r \<and>
    read_entry E (fresh_file E m ds True (StoredDecoder (BoxStrongTake (take_new r (ce_uncompressed_size m))))) =
      Some (crc_verdict E m True (take (unat (ce_uncompressed_size m)) (cbc_chunks (x_strong E) dec ct)))"
proof -
  let ?L = "x_strong E" and ?out = "take (unat (ce_uncompressed_size m)) (cbc_chunks (x_strong E) dec ct)"
  have u: "unat (of_nat hlen :: u64) = hlen" "unat (of_nat (length ct) :: u64) = length ct"
    using assms(8) by (simp_all add: unat_of_nat64)
  then have "saturating_sub64 (ce_compressed_size m) (of_nat hlen) = of_nat (length ct)"
    using assms(7) by (simp add: saturating_sub64_def word_le_nat_alt word_unat_eq_iff unat_sub)
  moreover from strong_reads [where sizes = "x_sizes E" and n = "ce_uncompressed_size m",
      OF assms(1,4,5,6) _ assms(3)] assms(8) obtain r r' where
    r: "StrongAesReader_new ?L t key iv (of_nat (length ct)) (ce_name m) = Ok r"
    "read_to_end (take_read (strong_read ?L file_read)) (x_sizes E) 0 [] (take_new r (ce_uncompressed_size m)) =
      Some (Ok ?out, r')" by auto
  moreover have "length ?out < 2 ^ 64" using assms(8) by (simp add: length_cbc_chunks [OF assms(1)])
  from read_fresh_file [OF stored_over_box [where F = BoxStrongTake, OF r(2) boxed_read_simps(5)] assms(2) this]
  have "read_entry E (fresh_file E m ds True (StoredDecoder (BoxStrongTake (take_new r (ce_uncompressed_size m))))) =
    Some (crc_verdict E m True ?out)" .
  ultimately show ?thesis by auto
qed

text \<open>A stored entry, by what the header yields: its file key, or the error of its first failing gate.\<close>

lemma strong_entry_read:
  assumes "placed (za_reader a) m (encode_strong civ p @ ct)" and "strong_head_ok civ p" and "length ct mod 16 = 0"
    and "i < length (za_entries a)" and "za_entries a ! i = m" and "on_one_disk a m"
    and "has_bits (ce_flags m) 1" and "ce_aes m = None" and "\<not> has_bits (ce_flags m) 0x2000"
    and "has_bits (ce_flags m) 0x0040" and "ce_method m = Stored"
    and "strong_lib_ok (x_strong E)" and "crc_chunked (x_crc E)" and "\<And>j. 0 < x_sizes E j"
  shows "case strong_file_key (x_strong E) (x_crc E) p (strong_iv civ (ce_crc32 m) (ce_uncompressed_size m))
      (strong_iv_used civ) password (ce_name m) of
    Ok key \<Rightarrow> \<exists>f dec. by_index_decrypt E a i password = Some (Ok f) \<and>
      CbcDec_new (x_strong E) key (drop (length p - 16) p) (ce_name m) = Ok dec \<and>
      read_entry E f = Some (crc_verdict E m True
        (take (unat (ce_uncompressed_size m)) (cbc_chunks (x_strong E) dec ct)))
  | Err e \<Rightarrow> by_index_decrypt E a i password = Some (Err e)
  | Panic \<Rightarrow> False"
proof -
  let ?L = "x_strong E" and ?iv = "strong_iv civ (ce_crc32 m) (ce_uncompressed_size m)"
  let ?key = "strong_file_key ?L (x_crc E) p ?iv (strong_iv_used civ) password (ce_name m)"
  from entry_data_placed [OF assms(1)] obtain ds t where t: "entry_data m (za_reader a) = Ok (ds, t)"
    "window t = encode_strong civ p @ ct" by blast
  from win.read_strong_header_encoded [where L = ?L and H = "x_crc E" and password = password and
      crc = "ce_crc32 m" and sz = "ce_uncompressed_size m" and entry = "ce_name m", OF TrueI t(2) assms(2)]
  obtain t' where head: "read_strong_header ?L (x_crc E) file_read password (ce_crc32 m) (ce_uncompressed_size m) (ce_name m) t =
      (and_then ?key (\<lambda>key. Ok \<lparr> sh_iv = drop (length p - 16) p, sh_file_key = key,
         sh_header_len = of_nat (length (encode_strong civ p)) \<rparr>), t')" "window t' = ct" by blast
  have open_: "by_index_decrypt E a i password = open_strong_decrypt E a m password"
    using assms(4,5) open_decrypt_strong [OF assms(6-10)] by (simp add: by_index_decrypt_at)
  have size: "unat (ce_compressed_size m) = length (encode_strong civ p) + length ct"
    and small: "length (encode_strong civ p) + length ct < 2 ^ 63" using assms(1) by (auto simp: placed_def)
  show ?thesis
  proof (cases ?key)
    case (Ok key)
    have iv: "length (drop (length p - 16) p) = 16" using assms(2) by (simp add: strong_head_ok_def)
    obtain dec where dec: "CbcDec_new ?L key (drop (length p - 16) p) (ce_name m) = Ok dec"
      using CbcDec_new_Ok [OF assms(12) strong_file_key_length [OF assms(12,2) Ok] iv] by blast
    from strong_file_reads [OF assms(12-14) dec head(2) assms(3) size small] obtain r where
      r: "StrongAesReader_new ?L t' key (drop (length p - 16) p)
        (saturating_sub64 (ce_compressed_size m) (of_nat (length (encode_strong civ p)))) (ce_name m) = Ok r"
      "read_entry E (fresh_file E m ds True (StoredDecoder (BoxStrongTake (take_new r (ce_uncompressed_size m))))) =
        Some (crc_verdict E m True (take (unat (ce_uncompressed_size m)) (cbc_chunks ?L dec ct)))" by blast
    have "by_index_decrypt E a i password = Some (Ok (fresh_file E m ds True
        (StoredDecoder (BoxStrongTake (take_new r (ce_uncompressed_size m))))))"
      using open_ t(1) head(1) Ok assms(11) r(1) by (simp add: open_strong_decrypt_def make_zip_file_Stored)
    with r(2) show ?thesis using dec Ok by simp
  next
    case (Err e)
    with open_ t(1) head(1) show ?thesis by (simp add: open_strong_decrypt_def)
  next
    case Panic
    with strong_file_key_cases [where H = "x_crc E" and p = p and iv = ?iv and iv_used = "strong_iv_used civ" and
        password = password and entry = "ce_name m", OF assms(12)]
      assms(2) strong_iv_bounds [of civ "ce_crc32 m" "ce_uncompressed_size m"]
    show ?thesis by (simp add: strong_head_ok_def)
  qed
qed

section \<open>Compressed entries\<close>

text \<open>
  An entry compressed with any supported method other than stored, under strong encryption: with a password
  that passes the gates it opens and reads to the data that the CBC decryption of its ciphertext, padding
  included, stands for.
\<close>

theorem strong_compressed_extracted:
  assumes "placed (za_reader a) m (encode_strong civ p @ ct)" and "strong_head_ok civ p" and "length ct mod 16 = 0"
    and "i < length (za_entries a)" and "za_entries a ! i = m" and "on_one_disk a m"
    and "has_bits (ce_flags m) 1" and "ce_aes m = None" and "\<not> has_bits (ce_flags m) 0x2000"
    and "has_bits (ce_flags m) 0x0040" and "ce_method m \<noteq> Stored"
    and "strong_lib_ok (x_strong E)" and "crc_chunked (x_crc E)" and "\<And>j. 0 < x_sizes E j"
    and "strong_file_key (x_strong E) (x_crc E) p (strong_iv civ (ce_crc32 m) (ce_uncompressed_size m))
      (strong_iv_used civ) password (ce_name m) = Ok key"
    and "CbcDec_new (x_strong E) key (drop (length p - 16) p) (ce_name m) = Ok dec"
    and "codec_decodes (x_codec E) D"
    and "entry_plain D (ce_method m) (ce_uncompressed_size m) (cbc_chunks (x_strong E) dec ct) = Some out"
    and "length out < 2 ^ 64"
  shows "\<exists>f. by_index_decrypt E a i password = Some (Ok f) \<and> read_entry E f = Some (crc_verdict E m True out)"
proof -
  let ?L = "x_strong E" and ?hlen = "length (encode_strong civ p)"
  from entry_data_placed [OF assms(1)] obtain ds t where t: "entry_data m (za_reader a) = Ok (ds, t)"
    "window t = encode_strong civ p @ ct" by blast
  from win.read_strong_header_encoded [where L = ?L and H = "x_crc E" and password = password and
      crc = "ce_crc32 m" and sz = "ce_uncompressed_size m" and entry = "ce_name m", OF TrueI t(2) assms(2)] assms(15)
  obtain t' where head: "read_strong_header ?L (x_crc E) file_read password (ce_crc32 m) (ce_uncompressed_size m) (ce_name m) t =
      (Ok \<lparr> sh_iv = drop (length p - 16) p, sh_file_key = key, sh_header_len = of_nat ?hlen \<rparr>, t')" "window t' = ct"
    by auto
  let ?len = "saturating_sub64 (ce_compressed_size m) (of_nat ?hlen)"
  have size: "unat (ce_compressed_size m) = ?hlen + length ct" and small: "?hlen + length ct < 2 ^ 63"
    using assms(1) by (auto simp: placed_def)
  then have len: "unat ?len = length ct"
    by (simp add: saturating_sub64_def word_le_nat_alt unat_of_nat64 unat_sub)
  from assms(16) obtain r where
    new: "StrongAesReader_new ?L t' key (drop (length p - 16) p) ?len (ce_name m) = Ok r"
    by (simp add: StrongAesReader_new_def)
  from strong_new_ok [OF new] len assms(3,16) have
    r: "strong_ok r" "staged r = []" "sr_inner r = t'" "sr_remaining r = ?len" "sr_cipher r = dec" by simp_all
  then have good: "strong_ok r \<and> True \<and> unat (sr_remaining r) \<le> length (window (sr_inner r))"
    using len head(2) by simp
  have "entry_plain D (ce_method m) (ce_uncompressed_size m)
      (staged r @ cbc_chunks ?L (sr_cipher r) (take (unat (sr_remaining r)) (window (sr_inner r)))) = Some out"
    using assms(18) r len head(2) by simp
  from make_zip_file_yields [where F = BoxStrong, OF win.strong_stream [OF assms(12)] good boxed_read_simps(4) _ assms(17) this
      assms(13,14,19)]
  obtain f where f: "make_zip_file E m ds (ce_method m) True (BoxStrong r) = Some (Ok f)"
    "read_entry E f = Some (crc_verdict E m True out)" by auto
  have "by_index_decrypt E a i password = Some (Ok f)"
    using open_decrypt_strong [OF assms(6-10), of E password] t(1) head(1) new f(1) assms(4,5,11)
    by (simp add: by_index_decrypt_at open_strong_decrypt_def Let_def)
  with f(2) show ?thesis by blast
qed

end
