(* ===== verification/StrongGates.thy ===== *)
theory StrongGates
  imports StrongEntry
begin

text \<open>
  The PKWARE strong encryption from the writer's side: the decryption header as its fields and blocks are
  written, the key derivation and the two gates of a password stated over these blocks, and a stored entry
  of such a header opened with any password.
\<close>

section \<open>Keys and blocks\<close>

text \<open>
  A key is the start of two digests: of the given digest, padded with zeros to 64 bytes and exclusive-ored
  with the inner and with the outer pad.
\<close>

definition padded_digest :: "('d, 'z) strong_lib_scheme \<Rightarrow> u8 list \<Rightarrow> u8 \<Rightarrow> u8 list" where
  "padded_digest L digest pad = sha1 L (map (\<lambda>b. xor b pad) (digest @ replicate 44 0))"

definition strong_key :: "('d, 'z) strong_lib_scheme \<Rightarrow> usize \<Rightarrow> u8 list \<Rightarrow> u8 list" where
  "strong_key L n secret = take n (padded_digest L (sha1 L secret) 0x36 @ padded_digest L (sha1 L secret) 0x5C)"

text \<open>What blocks of ciphertext decrypt to, one after the other.\<close>

fun run_blocks :: "('d, 'z) strong_lib_scheme \<Rightarrow> 'd \<Rightarrow> u8 list list \<Rightarrow> u8 list" where
  "run_blocks L d [] = []"
| "run_blocks L d (b # bs) = (case cbc_block L d b of (plain, d') \<Rightarrow> plain @ run_blocks L d' bs)"

definition cbc_plain :: "('d, 'z) strong_lib_scheme \<Rightarrow> u8 list \<Rightarrow> u8 list \<Rightarrow> u8 list list \<Rightarrow> u8 list" where
  "cbc_plain L key iv bs = (case cbc_new L key iv of None \<Rightarrow> [] | Some d \<Rightarrow> run_blocks L d bs)"

definition blocks_ok :: "u8 list list \<Rightarrow> bool" where
  "blocks_ok bs \<longleftrightarrow> bs \<noteq> [] \<and> (\<forall>b \<in> set bs. length b = 16) \<and> 16 * length bs < 65536"

lemma length_blocks: "\<forall>b \<in> set bs. length b = 16 \<Longrightarrow> length (concat bs) = 16 * length bs"
  by (induction bs) auto

lemma cbc_chunks_blocks: "\<forall>b \<in> set bs. length b = 16 \<Longrightarrow> cbc_chunks L d (concat bs) = run_blocks L d bs"
proof (induction bs arbitrary: d)
  case (Cons b bs)
  then show ?case by (subst cbc_chunks.simps) (simp add: case_prod_beta)
qed simp

section \<open>The header and its gates\<close>

text \<open>
  The remainder of the header: format 3, the algorithm and bit length of a key of \<open>n\<close> bytes, the flags, the
  encrypted random data, no recipients, the validation data.
\<close>

definition strong_remainder :: "usize \<Rightarrow> u16 \<Rightarrow> u8 list list \<Rightarrow> u8 list list \<Rightarrow> u8 list" where
  "strong_remainder n flags erd vdata =
     le16 3 @ le16 (if n = 16 then 0x660E else if n = 24 then 0x660F else 0x6610) @ le16 (of_nat (8 * n)) @ le16 flags @
     le16 (of_nat (16 * length erd)) @ concat erd @ le32 0 @ le16 (of_nat (16 * length vdata)) @ concat vdata"

definition remainder_ok :: "usize \<Rightarrow> u16 \<Rightarrow> u8 list list \<Rightarrow> u8 list list \<Rightarrow> bool" where
  "remainder_ok n flags erd vdata \<longleftrightarrow> n \<in> {16, 24, 32} \<and> bit flags 0 \<and> \<not> bit flags 1 \<and> \<not> bit flags 14 \<and>
     blocks_ok erd \<and> blocks_ok vdata"

text \<open>
  The random data under the key of the password must end in a block of padding; what is before it gives
  with the vector the file key; and under the file key the validation data must end in the checksum of what
  is before.
\<close>

definition random_data :: "('d, 'z) strong_lib_scheme \<Rightarrow> usize \<Rightarrow> u8 list \<Rightarrow> u8 list list \<Rightarrow> u8 list \<Rightarrow> u8 list" where
  "random_data L n iv erd password = cbc_plain L (strong_key L n password) iv erd"

definition file_key ::
  "('d, 'z) strong_lib_scheme \<Rightarrow> usize \<Rightarrow> u8 list \<Rightarrow> usize \<Rightarrow> u8 list list \<Rightarrow> u8 list \<Rightarrow> u8 list" where
  "file_key L n iv used erd password =
     strong_key L n (take used iv @ take (16 * (length erd - 1)) (random_data L n iv erd password))"

definition password_passes ::
  "('d, 'z) strong_lib_scheme \<Rightarrow> ('h, 'y) crc_lib_scheme \<Rightarrow> usize \<Rightarrow> u8 list \<Rightarrow> usize \<Rightarrow> u8 list list \<Rightarrow> u8 list list
     \<Rightarrow> u8 list \<Rightarrow> bool" where
  "password_passes L H n iv used erd vdata password \<longleftrightarrow>
     drop (16 * (length erd - 1)) (random_data L n iv erd password) = replicate 16 16 \<and>
     (\<exists>body. cbc_plain L (file_key L n iv used erd password) iv vdata = body @ le32 (crc_of H body))"

section \<open>The code derives the same\<close>

lemma derive_key_half_padded:
  assumes "length digest = 20"
  shows "derive_key_half L digest pad = padded_digest L digest pad"
proof -
  have "map2 xor (replicate 20 pad) digest = map (\<lambda>b. xor b pad) digest"
    using assms by (intro nth_equalityI) (simp_all add: xor.commute)
  then show ?thesis by (simp add: derive_key_half_def padded_digest_def Let_def)
qed

lemma crypt_derive_key_strong: "strong_lib_ok L \<Longrightarrow> crypt_derive_key L (sha1 L secret) n = strong_key L n secret"
  by (simp add: crypt_derive_key_def strong_key_def derive_key_half_padded strong_lib_ok_def)

lemma length_strong_key: "strong_lib_ok L \<Longrightarrow> n \<in> {16, 24, 32} \<Longrightarrow> length (strong_key L n secret) = n"
  by (auto simp: strong_key_def padded_digest_def strong_lib_ok_def)

lemma decrypted_blocks:
  assumes "strong_lib_ok L" and "length key \<in> {16, 24, 32}" and "length iv = 16" and "\<forall>b \<in> set bs. length b = 16"
  shows "cbc_decrypt_buffer L key iv (concat bs) entry = Ok (cbc_plain L key iv bs)"
    and "length (cbc_plain L key iv bs) = 16 * length bs"
    and "\<exists>d. CbcDec_new L key iv entry = Ok d \<and> cbc_chunks L d (concat bs) = cbc_plain L key iv bs"
proof -
  from CbcDec_new_Ok [OF assms(1-3), of entry] obtain d where
    d: "cbc_new L key iv = Some d" "CbcDec_new L key iv entry = Ok d" by blast
  then have eq: "cbc_chunks L d (concat bs) = cbc_plain L key iv bs"
    by (simp add: cbc_plain_def cbc_chunks_blocks [OF assms(4)])
  with d show "cbc_decrypt_buffer L key iv (concat bs) entry = Ok (cbc_plain L key iv bs)"
    "\<exists>d. CbcDec_new L key iv entry = Ok d \<and> cbc_chunks L d (concat bs) = cbc_plain L key iv bs"
    by (simp_all add: cbc_decrypt_buffer_def)
  show "length (cbc_plain L key iv bs) = 16 * length bs"
    using length_cbc_chunks [OF assms(1), of d "concat bs"] by (simp add: eq length_blocks [OF assms(4)])
qed

lemma strong_remainder_layout:
  assumes "remainder_ok n flags erd vdata"
  defines "p \<equiv> strong_remainder n flags erd vdata"
  shows "strong_shape p"
    and "strong_layout_of p = \<lparr> key_size = n, rd_size = 16 * length erd, valid_off = 16 + 16 * length erd,
      valid_size = 16 * length vdata \<rparr>"
    and "length p = 16 + 16 * length erd + 16 * length vdata"
proof -
  have n: "n \<in> {16, 24, 32}" and e: "length (concat erd) = 16 * length erd" "0 < length erd" "16 * length erd < 65536"
    and v: "length (concat vdata) = 16 * length vdata" "0 < length vdata" "16 * length vdata < 65536"
    using assms(1) by (auto simp: remainder_ok_def blocks_ok_def length_blocks)
  let ?alg = "(if n = 16 then 0x660E else if n = 24 then 0x660F else 0x6610) :: u16"
  have p: "p = le16 3 @ le16 ?alg @ le16 (of_nat (8 * n)) @ le16 flags @ le16 (of_nat (16 * length erd)) @
      concat erd @ le32 0 @ le16 (of_nat (16 * length vdata)) @ concat vdata"
    by (simp only: p_def strong_remainder_def)
  have u: "unat (of_nat (16 * length erd) :: u16) = 16 * length erd"
    "unat (of_nat (16 * length vdata) :: u16) = 16 * length vdata"
    using e(3) v(3) by (simp_all add: unat_of_nat take_bit_nat_eq_self del: of_nat_mult)
  have f: "field16 p 0 = 3" "field16 p 2 = ?alg" "field16 p 4 = of_nat (8 * n)" "field16 p 6 = flags"
    "field16 p 8 = of_nat (16 * length erd)"
    unfolding p by (simp_all add: field16_def del: of_nat_mult to_le_bytes.simps)
  have g: "field32 p (10 + 16 * length erd) = 0" "field16 p (14 + 16 * length erd) = of_nat (16 * length vdata)"
    unfolding p by (simp_all add: field16_def field32_def e(1) del: of_nat_mult to_le_bytes.simps)
  show len: "length p = 16 + 16 * length erd + 16 * length vdata" unfolding p by (simp add: e(1) v(1))
  have k: "unat (?alg - ALG_AES128) = (n - 16) div 8" "ALG_AES128 \<le> ?alg" "unat (of_nat (8 * n) :: u16) = 8 * n"
    "16 + (n - 16) div 8 * 8 = n" "(n - 16) div 8 \<le> 2"
    using n by auto
  have b: "has_bits flags 0x0001" "\<not> has_bits flags 0x0002" "\<not> has_bits flags 0x4000"
    using assms(1) and_exp_eq_0_iff_not_bit [of flags 0] and_exp_eq_0_iff_not_bit [of flags 1]
      and_exp_eq_0_iff_not_bit [of flags 14] by (simp_all add: has_bits_def remainder_ok_def)
  have pos: "Suc 0 \<le> length erd" "Suc 0 \<le> length vdata" using e(2) v(2) by linarith+
  show "strong_shape p"
    unfolding strong_shape_def Let_def f u g k using e v b len k pos by simp
  show "strong_layout_of p = \<lparr> key_size = n, rd_size = 16 * length erd, valid_off = 16 + 16 * length erd,
      valid_size = 16 * length vdata \<rparr>"
    unfolding strong_layout_of_def Let_def f u g k by simp
qed

lemma le32_suffix:
  assumes "length bs = k + 4"
  shows "from_le_bytes (drop k bs) = w \<and> take k bs = body \<longleftrightarrow> bs = body @ le32 w \<and> length body = k"
proof
  assume a: "from_le_bytes (drop k bs) = w \<and> take k bs = body"
  have "length (drop k bs) = 4" using assms by simp
  from to_le_bytes_from_le_bytes [of "drop k bs", where ?'a = 32] this have "le32 w = drop k bs" using a by simp
  with a assms show "bs = body @ le32 w \<and> length body = k" by (metis append_take_drop_id length_take min.absorb2 le_add1)
next
  assume "bs = body @ le32 w \<and> length body = k"
  then show "from_le_bytes (drop k bs) = w \<and> take k bs = body" by (simp del: to_le_bytes.simps)
qed

lemma crc_suffix:
  assumes "length bs = k + 4"
  shows "c (take k bs) = from_le_bytes (drop k bs) \<longleftrightarrow> (\<exists>body. bs = body @ le32 (c body))"
proof
  assume "c (take k bs) = from_le_bytes (drop k bs)"
  with le32_suffix [OF assms, of "c (take k bs)" "take k bs"] show "\<exists>body. bs = body @ le32 (c body)"
    by (intro exI [of _ "take k bs"]) simp
next
  assume "\<exists>body. bs = body @ le32 (c body)"
  then obtain body where body: "bs = body @ le32 (c body)" by blast
  with arg_cong [OF body, of length] assms have "length body = k" by simp
  with le32_suffix [OF assms, of "c body" body] body show "c (take k bs) = from_le_bytes (drop k bs)" by simp
qed

lemma all_bytes_16:
  assumes "length xs = 16"
  shows "\<not> list_ex (\<lambda>b. unat b \<noteq> AES_BLOCK) xs \<longleftrightarrow> xs = replicate 16 (16 :: u8)"
proof -
  have "unat b = AES_BLOCK \<longleftrightarrow> b = 16" for b :: u8 by (simp add: word_eq_iff_unsigned [where ?'a = nat])
  then have "\<not> list_ex (\<lambda>b. unat b \<noteq> AES_BLOCK) xs \<longleftrightarrow> (\<forall>b \<in> set xs. b = 16)" by (simp add: list_ex_iff)
  also have "\<dots> \<longleftrightarrow> xs = replicate 16 16"
  proof
    assume "\<forall>b \<in> set xs. b = 16"
    then have "replicate (length xs) 16 = xs" by (rule replicate_length_same)
    with assms show "xs = replicate 16 16" by simp
  qed simp
  finally show ?thesis .
qed

text \<open>The key of the header: the file key, or the wrong-password error.\<close>

lemma strong_file_key_written:
  assumes L: "strong_lib_ok L" and r: "remainder_ok n flags erd vdata" and iv: "length iv = 16" "used \<le> 16"
  shows "strong_file_key L H (strong_remainder n flags erd vdata) iv used password entry =
    (if password_passes L H n iv used erd vdata password then Ok (file_key L n iv used erd password)
     else Err (WrongPassword entry))"
proof -
  let ?p = "strong_remainder n flags erd vdata" and ?lay = "\<lparr> key_size = n, rd_size = 16 * length erd,
    valid_off = 16 + 16 * length erd, valid_size = 16 * length vdata \<rparr>"
  let ?erd = "random_data L n iv erd password" and ?key = "file_key L n iv used erd password"
  let ?vd = "cbc_plain L ?key iv vdata" and ?k = "16 * length vdata - 4"
  note lay = strong_remainder_layout [OF r]
  have n: "n \<in> {16, 24, 32}" and e: "\<forall>b \<in> set erd. length b = 16" "16 * length erd < 65536" "0 < length erd"
    and v: "\<forall>b \<in> set vdata. length b = 16" "0 < length vdata" "16 * length vdata < 65536"
    using r by (auto simp: remainder_ok_def blocks_ok_def)
  have "16 \<le> length ?p" "length ?p < 2 ^ 64" using lay(3) e(2) v(3) by simp_all
  from parse_strong_layout_cases [OF this, of entry] lay(1,2) have
    parse: "parse_strong_layout ?p entry = Ok ?lay" by simp
  note kdf = crypt_derive_key_strong [OF L]
  have ks: "length (strong_key L n secret) \<in> {16, 24, 32}" for secret
    using length_strong_key [OF L n] n by simp
  have head: "?p = le16 3 @ le16 (if n = 16 then 0x660E else if n = 24 then 0x660F else 0x6610) @ le16 (of_nat (8 * n)) @
      le16 flags @ le16 (of_nat (16 * length erd)) @ concat erd @ le32 0 @ le16 (of_nat (16 * length vdata)) @ concat vdata"
    by (simp only: strong_remainder_def)
  have "take (16 * length erd) (drop 10 ?p) = concat erd" "take (16 * length vdata) (drop (16 + 16 * length erd) ?p) = concat vdata"
    unfolding head by (simp_all add: length_blocks [OF e(1)] length_blocks [OF v(1)] del: of_nat_mult to_le_bytes.simps)
  then have regions: "slice ?p 10 (10 + rd_size ?lay) = (Ok (concat erd) :: (u8 list, zip_core_error) outcome)"
    "slice ?p (valid_off ?lay) (valid_off ?lay + valid_size ?lay) = (Ok (concat vdata) :: (u8 list, zip_core_error) outcome)"
    using lay(3) length_blocks [OF e(1)] length_blocks [OF v(1)] by (simp_all add: slice_OkI)
  note d1 = decrypted_blocks [OF L ks iv(1) e(1)] and d2 = decrypted_blocks [OF L ks iv(1) v(1)]
  have erd: "cbc_decrypt_buffer L (crypt_derive_key L (sha1 L password) (key_size ?lay)) iv (concat erd) entry = Ok ?erd"
    "length ?erd = 16 * length erd"
    using d1(1,2) by (simp_all add: random_data_def kdf)
  have split: "rd_size ?lay - AES_BLOCK = 16 * (length erd - 1)" by (simp add: diff_mult_distrib2)
  have parts: "slice_from ?erd (16 * (length erd - 1)) = (Ok (drop (16 * (length erd - 1)) ?erd) :: (u8 list, zip_core_error) outcome)"
    "slice ?erd 0 (16 * (length erd - 1)) = (Ok (take (16 * (length erd - 1)) ?erd) :: (u8 list, zip_core_error) outcome)"
    "slice iv 0 used = (Ok (take used iv) :: (u8 list, zip_core_error) outcome)"
    using erd(2) iv by (simp_all add: slice_from_OkI slice_OkI)
  have pad: "\<not> list_ex (\<lambda>b. unat b \<noteq> AES_BLOCK) (drop (16 * (length erd - 1)) ?erd) \<longleftrightarrow>
      drop (16 * (length erd - 1)) ?erd = replicate 16 16"
    using erd(2) e(3) by (intro all_bytes_16) (cases erd; simp)
  have key: "crypt_derive_key L (sha1 L (take used iv @ take (16 * (length erd - 1)) ?erd)) (key_size ?lay) = ?key"
    by (simp add: kdf file_key_def)
  have vd: "cbc_decrypt_buffer L ?key iv (concat vdata) entry = Ok ?vd" "length ?vd = ?k + 4"
    using d2(1,2) v(2) by (simp_all add: file_key_def) (cases vdata; simp)
  have vparts: "u32_at ?vd (valid_size ?lay - 4) = (Ok (from_le_bytes (drop ?k ?vd)) :: (u32, zip_core_error) outcome)"
    "slice ?vd 0 (valid_size ?lay - 4) = (Ok (take ?k ?vd) :: (u8 list, zip_core_error) outcome)"
    using vd(2) by (simp_all add: u32_at_Ok slice_OkI)
  have crc: "crc_of H (take ?k ?vd) = from_le_bytes (drop ?k ?vd) \<longleftrightarrow> (\<exists>body. ?vd = body @ le32 (crc_of H body))"
    by (rule crc_suffix [OF vd(2)])
  have gates: "(if bad then e else if c \<noteq> w then e else k) = (if \<not> bad \<and> c = w then k else e)"
    for bad and c w :: u32 and e k :: "(u8 list, zip_core_error) outcome" by simp
  show ?thesis
    unfolding strong_file_key_def parse and_then.simps Let_def regions erd(1) split parts key vd(1) vparts
      password_passes_def pad [symmetric] crc [symmetric] by (rule gates)
qed

section \<open>An entry of such a header\<close>

text \<open>
  C24: A stored entry under PKWARE strong encryption, written as an optional vector, the remainder of a
  header for AES-128, -192 or -256 and whole blocks of ciphertext, opens with a password exactly when the
  password passes both gates: the random data decrypts under the key of the password to data that ends in a
  block of padding, and the validation data decrypts under the file key derived from that random data to data
  that ends in its checksum. Then reading it to the end gives the CBC decryption of the ciphertext under the
  file key and the last block of the header as vector, cut at the declared size, if its CRC-32 is the recorded
  one, and the mismatch error if not. With any other password it is refused with the wrong-password error.
\<close>

theorem strong_entry_extracted:
  assumes "remainder_ok n flags erd vdata" and "pred_option (\<lambda>v. length v = 16) civ"
    and "\<forall>b \<in> set blocks. length b = 16"
    and "placed (za_reader a) m (encode_strong civ (strong_remainder n flags erd vdata) @ concat blocks)"
    and "i < length (za_entries a)" and "za_entries a ! i = m" and "on_one_disk a m"
    and "has_bits (ce_flags m) 1" and "ce_aes m = None" and "\<not> has_bits (ce_flags m) 0x2000"
    and "has_bits (ce_flags m) 0x0040" and "ce_method m = Stored"
    and "strong_lib_ok (x_strong E)" and "crc_chunked (x_crc E)" and "\<And>j. 0 < x_sizes E j"
    and "iv = strong_iv civ (ce_crc32 m) (ce_uncompressed_size m)"
  shows "if password_passes (x_strong E) (x_crc E) n iv (strong_iv_used civ) erd vdata password
    then \<exists>f. by_index_decrypt E a i password = Some (Ok f) \<and>
      read_entry E f = Some (crc_verdict E m True (take (unat (ce_uncompressed_size m))
        (cbc_plain (x_strong E) (file_key (x_strong E) n iv (strong_iv_used civ) erd password) (last vdata) blocks)))
    else by_index_decrypt E a i password = Some (Err (WrongPassword (ce_name m)))"
proof -
  let ?p = "strong_remainder n flags erd vdata"
  let ?key = "file_key (x_strong E) n iv (strong_iv_used civ) erd password"
  have iv: "length iv = 16" "strong_iv_used civ \<le> 16" using strong_iv_bounds [OF assms(2)] by (simp_all add: assms(16))
  have head: "strong_head_ok civ ?p"
    using assms(1,2) strong_remainder_layout(3) [OF assms(1)] by (simp add: strong_head_ok_def remainder_ok_def blocks_ok_def)
  have "length (concat blocks) mod 16 = 0" by (simp add: length_blocks [OF assms(3)])
  note read = strong_entry_read [OF assms(4) head this assms(5-15), of password]
  note key = strong_file_key_written [OF assms(13,1) iv, where H = "x_crc E" and password = password and entry = "ce_name m"]
  show ?thesis
  proof (cases "password_passes (x_strong E) (x_crc E) n iv (strong_iv_used civ) erd vdata password")
    case True
    with read obtain f dec where f: "by_index_decrypt E a i password = Some (Ok f)"
      "CbcDec_new (x_strong E) ?key (drop (length ?p - 16) ?p) (ce_name m) = Ok dec"
      "read_entry E f = Some (crc_verdict E m True
        (take (unat (ce_uncompressed_size m)) (cbc_chunks (x_strong E) dec (concat blocks))))"
      unfolding assms(16) [symmetric] key by auto
    have v: "vdata \<noteq> []" "\<forall>b \<in> set vdata. length b = 16" using assms(1) by (simp_all add: remainder_ok_def blocks_ok_def)
    then have "length (last vdata) = 16" by simp
    moreover have "\<exists>x. ?p = x @ last vdata"
    proof -
      from v(1) have "concat vdata = concat (butlast vdata) @ last vdata"
        by (metis append_butlast_last_id append_Nil2 concat.simps concat_append)
      then show ?thesis unfolding strong_remainder_def by (metis append.assoc)
    qed
    ultimately have last: "drop (length ?p - 16) ?p = last vdata" "length (last vdata) = 16" by auto
    have "length ?key \<in> {16, 24, 32}"
      using length_strong_key [OF assms(13), of n] assms(1) by (auto simp: file_key_def remainder_ok_def)
    from decrypted_blocks(3) [OF assms(13) this last(2) assms(3), of "ce_name m"] f(2)
    have "cbc_chunks (x_strong E) dec (concat blocks) = cbc_plain (x_strong E) ?key (last vdata) blocks"
      by (simp add: last(1))
    with f(1,3) True show ?thesis by simp
  next
    case False
    with read show ?thesis unfolding assms(16) [symmetric] key by simp
  qed
qed

section \<open>A concrete entry\<close>

text \<open>
  One byte under AES-128 in the sample cipher, which xors with the previous block: the random data decrypts
  to the padding, the validation data to zeros, the ciphertext to \<open>0xFF\<close> and padding. The checksum
  library adds the bytes up.
\<close>

definition sum_crc :: "u32 crc_lib" where
  "sum_crc = \<lparr> crc_new = 0, crc_update = (\<lambda>h bs. fold (\<lambda>b c. c + ucast b) bs h), crc_finalize = (\<lambda>h. h) \<rparr>"

lemma crc_chunked_sum: "crc_chunked sum_crc"
  by (simp add: crc_chunked_def sum_crc_def)

text \<open>A single block, xored with the vector.\<close>

lemma chain_block:
  assumes "length b = 16" and "length iv = 16"
  shows "cbc_plain chain_lib key iv [b] = map2 xor b iv"
proof -
  have "map (\<lambda>i. xor (b ! i) (if i < length iv then iv ! i else 0)) [0..<length b] = map2 xor b iv"
    using assms by (intro nth_equalityI) simp_all
  then show ?thesis by (simp add: cbc_plain_def chain_lib_def)
qed

abbreviation sample_remainder_of :: "u8 list \<Rightarrow> u8 list" where
  "sample_remainder_of vdata \<equiv> strong_remainder 16 1 [replicate 16 17] [vdata]"

lemma sample_remainder_ok: "length v = 16 \<Longrightarrow> remainder_ok 16 1 [replicate 16 17] [v]"
  by (simp add: remainder_ok_def blocks_ok_def bit_1_iff)

lemma sample_random: "random_data chain_lib 16 (replicate 16 1) [replicate 16 17] password = replicate 16 16"
  by (simp add: random_data_def chain_block zip_replicate)

lemma sample_passes: "password_passes chain_lib sum_crc 16 (replicate 16 1) 16 [replicate 16 17] [replicate 16 1] password"
proof -
  have "replicate 16 (0 :: u8) = replicate 12 0 @ le32 (crc_of sum_crc (replicate 12 0))"
    by (simp add: crc_of_def sum_crc_def numeral_eq_Suc)
  then show ?thesis
    by (auto simp: password_passes_def sample_random chain_block zip_replicate simp del: to_le_bytes.simps)
qed

lemma sample_fails: "\<not> password_passes chain_lib sum_crc 16 (replicate 16 1) 16 [replicate 16 17] [replicate 15 1 @ [2]] password"
proof
  have eq: "map2 xor (replicate 15 1 @ [2]) (replicate 16 1) = replicate 12 0 @ [0, 0, 0, 3 :: u8]"
    by (simp add: numeral_eq_Suc)
  assume "password_passes chain_lib sum_crc 16 (replicate 16 1) 16 [replicate 16 17] [replicate 15 1 @ [2]] password"
  then obtain body where body: "replicate 12 0 @ [0, 0, 0, 3] = body @ le32 (crc_of sum_crc body)"
    by (auto simp: password_passes_def chain_block eq simp del: to_le_bytes.simps)
  have "length body = 12" using arg_cong [OF body, of length] by (simp del: to_le_bytes.simps)
  with body have "body = replicate 12 0" "[0, 0, 0, 3] = le32 (crc_of sum_crc body)"
    by (simp_all add: append_eq_append_conv del: to_le_bytes.simps)
  moreover have "crc_of sum_crc (replicate 12 0) = 0" by (simp add: crc_of_def sum_crc_def numeral_eq_Suc)
  ultimately show False by (simp add: le_eval)
qed

lemma last_single: "last [x] = x"
  by simp

definition strong_sample :: "u8 list \<Rightarrow> u8 list" where
  "strong_sample v = encode_strong (Some (replicate 16 1)) (sample_remainder_of v) @ concat [0xFE # replicate 15 0]"

abbreviation strong_sample_entry :: central_entry where
  "strong_sample_entry \<equiv> (one_entry 0x41 0xFF None 86)\<lparr>ce_uncompressed_size := 1\<rparr>"

lemma strong_sample_placed:
  assumes "length v = 16"
  shows "placed (za_reader (one_archive strong_sample_entry (strong_sample v))) strong_sample_entry (strong_sample v)"
proof -
  have "length (strong_sample v) = 86"
    using assms by (simp add: strong_sample_def encode_strong_def iv_field_def strong_remainder_def)
  then show ?thesis
    using one_placed [where data = "strong_sample v" and flags = "0x41" and crc = "0xFF" and aes = None]
    by (simp add: placed_def one_archive_def)
qed

text \<open>The right validation data, and validation data whose checksum is wrong.\<close>

theorem strong_entry_extracted_witness:
  "(\<exists>f. by_index_decrypt (sample_externals\<lparr>x_crc := sum_crc\<rparr>)
      (one_archive strong_sample_entry (strong_sample (replicate 16 1))) 0 [9] = Some (Ok f) \<and>
    read_entry (sample_externals\<lparr>x_crc := sum_crc\<rparr>) f = Some (Ok [0xFF])) \<and>
   by_index_decrypt (sample_externals\<lparr>x_crc := sum_crc\<rparr>)
      (one_archive strong_sample_entry (strong_sample (replicate 15 1 @ [2]))) 0 [9] = Some (Err (WrongPassword [97]))"
proof
  let ?E = "sample_externals\<lparr>x_crc := sum_crc\<rparr>" and ?m = strong_sample_entry
  have written: "if password_passes chain_lib sum_crc 16 (replicate 16 1) 16 [replicate 16 17] [v] [9]
      then \<exists>f. by_index_decrypt ?E (one_archive ?m (strong_sample v)) 0 [9] = Some (Ok f) \<and>
        read_entry ?E f = Some (crc_verdict ?E ?m True (take 1
          (cbc_plain chain_lib (file_key chain_lib 16 (replicate 16 1) 16 [replicate 16 17] [9]) v [0xFE # replicate 15 0])))
      else by_index_decrypt ?E (one_archive ?m (strong_sample v)) 0 [9] = Some (Err (WrongPassword [97]))"
    if "length v = 16" for v
  proof -
    let ?a = "one_archive ?m (encode_strong (Some (replicate 16 1)) (sample_remainder_of v) @ concat [0xFE # replicate 15 0])"
    have m: "ce_crc32 ?m = 0xFF" "ce_uncompressed_size ?m = 1" "ce_name ?m = [97]" "za_entries ?a = [?m]"
      "on_one_disk ?a ?m" "has_bits (ce_flags ?m) 1" "ce_aes ?m = None" "\<not> has_bits (ce_flags ?m) 0x2000"
      "has_bits (ce_flags ?m) 0x0040" "ce_method ?m = Stored"
      by (simp_all add: one_entry_def one_archive_def on_one_disk_def has_bits_def)
    have E: "x_strong ?E = chain_lib" "x_crc ?E = sum_crc" "\<And>j. 0 < x_sizes ?E j" by simp_all
    have "strong_iv (Some (replicate 16 1)) (ce_crc32 ?m) (ce_uncompressed_size ?m) = replicate 16 1"
      "strong_iv_used (Some (replicate 16 (1 :: u8))) = 16" "unat (ce_uncompressed_size ?m) = 1"
      by (simp_all add: strong_iv_def strong_iv_used_def m)
    note simps = this E(1,2) m(3) last_single
    have p: "pred_option (\<lambda>v. length v = 16) (Some (replicate 16 (1 :: u8)))"
      "\<forall>b \<in> set [0xFE # replicate 15 (0 :: u8)]. length b = 16" "0 < length (za_entries ?a)" "za_entries ?a ! 0 = ?m"
      "strong_lib_ok (x_strong ?E)" "crc_chunked (x_crc ?E)"
      by (simp_all add: m(4) chain_lib_ok crc_chunked_sum)
    show ?thesis
      using strong_entry_extracted [where E = ?E and password = "[9]" and blocks = "[0xFE # replicate 15 0]" and i = 0
          and civ = "Some (replicate 16 1)" and a = ?a and m = ?m, OF sample_remainder_ok [OF that] p(1,2)
          strong_sample_placed [OF that, unfolded strong_sample_def] p(3,4) m(5-10) p(5,6) E(3) refl]
      unfolding simps strong_sample_def .
  qed
  have "take 1 (cbc_plain chain_lib key (replicate 16 1) [0xFE # replicate 15 0]) = [0xFF]" for key
    by (simp add: chain_block numeral_eq_Suc)
  moreover have "crc_of sum_crc [0xFF] = 0xFF" by (simp add: crc_of_def sum_crc_def)
  ultimately show "\<exists>f. by_index_decrypt ?E (one_archive ?m (strong_sample (replicate 16 1))) 0 [9] = Some (Ok f) \<and>
      read_entry ?E f = Some (Ok [0xFF])"
    using written [of "replicate 16 1"] sample_passes [of "[9]"] by (simp add: crc_verdict_def one_entry_def)
  show "by_index_decrypt ?E (one_archive ?m (strong_sample (replicate 15 1 @ [2]))) 0 [9] = Some (Err (WrongPassword [97]))"
    using written [of "replicate 15 1 @ [2]"] sample_fails [of "[9]"] by simp
qed

end
