(* ===== verification/Spec2Isabelle.thy ===== *)
theory Spec2Isabelle
  imports WindowsRead WholeReads AesDecoded Fuzz AuditReport Names StrongGates
begin

text \<open>
  A verification development of the ZIP reader, its forensic auditor and its command line.

  \<^bold>\<open>The program.\<close> Three crates. \<open>core\<close> (\<open>src/core/src\<close>) parses a ZIP container from untrusted bytes and
  gives access to the entries: it finds the End Of Central Directory record, promotes it to Zip64,
  recovers the length of data prepended to the archive, reads the central directory, pairs each header
  with its local copy, decrypts (ZipCrypto, WinZip AES, PKWARE strong encryption), decodes, and checks
  the CRC-32 when an entry has been read to its end. Beside that sequential path it offers random access
  to one entry (\<open>open_entry\<close>, \<open>StoredZipEntry::read_at\<close>) and a read-only file system over the whole
  archive (\<open>ZipVfs\<close>). \<open>forensic\<close> audits an archive through that interface, and \<open>cli\<close> lists and audits
  archives named on the command line.

  \<^bold>\<open>How Rust is rendered.\<close> \<open>u8\<close> to \<open>u64\<close> are words of their width; \<open>usize\<close> is \<open>nat\<close>, as the lengths
  it measures are below \<open>2 ^ 63\<close> on the 64-bit targets. Every unchecked \<open>+\<close> and \<open>-\<close> that can overflow is
  a step that panics, as in a build with overflow checks; the saturating and checked forms are what
  they say. A fallible computation ends in \<open>Ok\<close>, \<open>Err\<close> or \<open>Panic\<close> (type \<open>outcome\<close>): a slice or index
  out of range, an overflow and a refused allocation are \<open>Panic\<close>, so that absence of panics is a
  theorem and not an assumption. Methods that take \<open>&mut self\<close> are functions of the state that
  return it (type \<open>act\<close>). A loop that can fail to end, because what it repeats is code of another
  crate or a reader that chooses how much to return, is a \<open>partial_function (option)\<close> whose \<open>None\<close>
  is not returning; no fuel is used anywhere, and where a component promises to return, that is proved.
  All other loops are total by structural recursion or a measure. A \<open>String\<close> is the list of its
  Unicode scalar values (\<open>rstring\<close>), a file the list of its bytes, read through a cursor with
  \<open>std::io\<close>'s \<open>take\<close>, \<open>read_exact\<close> and \<open>read_to_end\<close> written out, the buffer sizes of the latter a
  parameter.

  \<^bold>\<open>Theories and sources.\<close>
  \<^item> \<open>Prelude\<close>, \<open>Text\<close>: outcomes, actions, little-endian encodings, checked arithmetic; characters,
    UTF-8 and its lossy decoding, the number formats of \<open>format!\<close>.
  \<^item> \<open>ZipTypes\<close>: the error enums of \<open>core/src/lib.rs\<close> with their texts, and the entry, summary and
    header records of \<open>core/src/archive.rs\<close>.
  \<^item> \<open>Bytes\<close>: \<open>core/src/bytes.rs\<close>; \<open>Cp437\<close>: \<open>core/src/cp437.rs\<close>; \<open>Io\<close>: the parts of \<open>std::io\<close> used.
  \<^item> \<open>ExtraField\<close>, \<open>EntryName\<close>, \<open>CentralDir\<close>, \<open>LocalHeader\<close>: the parsers of \<open>core/src/archive.rs\<close>;
    \<open>Container\<close>, \<open>Strings\<close> and \<open>Roundtrip\<close> their properties; \<open>Names\<close> the names from the writer's side.
  \<^item> \<open>ZipCrypto\<close>, \<open>WinZipAes\<close>, \<open>StrongCrypto\<close>: \<open>core/src/crypto.rs\<close>; \<open>Codec\<close>: \<open>core/src/codec.rs\<close>.
  \<^item> \<open>Archive\<close>: opening and reading entries, from \<open>core/src/archive.rs\<close>; \<open>Extract\<close> and \<open>StrongEntry\<close>
    follow an entry from its bytes in the file to what a caller reads, \<open>StrongGates\<close> states the password
    gates of strong encryption from the format, \<open>Decoded\<close> and \<open>AesDecoded\<close> follow compressed entries;
    \<open>SampleArchive\<close> a concrete archive.
  \<^item> \<open>StoredBlocks\<close>, \<open>StoredEntry\<close>: the block index, \<open>open_entry\<close> and \<open>read_at\<close> of \<open>core/src/lib.rs\<close>;
    \<open>StoredStream\<close> the index against a reference decoder;
    \<open>Deflate64\<close> and \<open>Deflate64Props\<close>: \<open>core/src/deflate64_seek.rs\<close>; \<open>RandomAccess\<close> the contract the
    three layouts share; \<open>WindowsRead\<close> the Windows form of the positioned read.
  \<^item> \<open>Forensic\<close>: \<open>forensic/src/lib.rs\<close>; \<open>AuditReport\<close>: what warrants each kind of anomaly;
    \<open>WholeArchive\<close>: its verdict on whole archives.
  \<^item> \<open>VfsTree\<close>, \<open>Vfs\<close>: \<open>core/src/vfs.rs\<close>; \<open>VfsShape\<close>, \<open>VfsProps\<close>, \<open>VfsSize\<close>, \<open>VfsReads\<close> their properties.
  \<^item> \<open>WholeReads\<close>: a member of a whole archive read in all three ways.
  \<^item> \<open>Cli\<close>: \<open>cli/src/lib.rs\<close> and \<open>cli/src/main.rs\<close>.
  \<^item> \<open>NoPanic\<close>, \<open>AnyPassword\<close>: reading untrusted entries returns without a panic; \<open>Fuzz\<close>: the fuzz
    targets of \<open>fuzz/fuzz_targets\<close>, and the same for the command line.

  Definitions carry the source's names, with the type in front where a method name repeats
  (\<open>Reader_take\<close>, \<open>zip_file_read\<close>, \<open>entry_read_at\<close>), and record fields a two-letter prefix
  (\<open>za_entries\<close> for the \<open>entries\<close> of \<open>ZipArchive\<close>).

  \<^bold>\<open>Interfaces.\<close> Six contracts are locales, each interpreted on the model's own providers.
  \<open>byte_source\<close> is what a header parser asks of its input, met by the slice reader, by the cursor and,
  through \<open>read_exact\<close>, by every \<open>read_stream\<close>. \<open>read_stream\<close> is a reader with a known content, met by
  the file, by \<open>take\<close> of any such reader and by the decrypting readers over it, which is how a stack of
  readers gets its content. \<open>positioned\<close> is random access to a fixed byte string, met by stored blocks,
  by a Deflate64 index and by an opened entry under any layout. \<open>positioned_file\<close> is the system's
  \<open>seek_read\<close>. \<open>quiet_reader\<close> is a reader of untrusted data that never panics and has a bound on what it can
  still return, met by the file, by \<open>take\<close>, by the three decrypting readers, by the boxed reader of an
  entry, by the decoder over it and by \<open>ZipFile\<close>. \<open>read_some\<close> is what a decoder needs whose stream ends
  before its input does: some content by each read, and nothing about its end; \<open>AesReader\<close> meets it whatever
  follows the ciphertext.

  \<^bold>\<open>What is shown.\<close>
  \<^item> Container: an archive written field by field, with any prefix and comment, opens to exactly the
    entries written; what opens stays within the file and the entry cap; opening panics only when a
    prefix pushes a local-header offset past 64 bits; Zip64 values replace exactly the sentinel
    fields; the common extra fields are the times and strings written in them.
  \<^item> Names: an extraction path on Unix is a relative path of safe components, given for exactly the
    names that have one; on Windows a component can carry a drive prefix. Names written in UTF-8 under the
    flag or in the code page 437 without it are the names listed, and all strings of an archive are valid.
  \<^item> Extraction: entries under the seven supported methods, in the clear or under ZipCrypto, AES or strong
    encryption, read to exactly the data of the format; for stored ones with every password,
    authentication and checksum verdict; a strong entry opens exactly for the passwords under which its
    random data is padded and its validation data carries its checksum; an AE-2 entry is read without its
    authentication code where DEFLATE ends before the ciphertext; one-shot decoders are capped.
  \<^item> Random access: an index over stored blocks or Deflate64 checkpoints keeps its invariant and stays
    inside the entry, building it ends, and a read returns the slice of the decoded data; the block index
    exists for exactly the streams of stored blocks that a reference decoder accepts; an opened entry meets the
    contract under blocks and checkpoints, and under the fallback exactly when the entry decodes to as many
    bytes as it declares; a caller reading piece by piece gets everything; each read of a stored entry is
    determined, its overflow and the end of the file included.
  \<^item> File system: the node table of every archive that opens is a tree, small enough for its ids, and resolves
    a path to what the entry names prescribe;
    the decode cache is transparent; reads return slices of the entry. Extraction, random access and the
    file system give the same data.
  \<^item> Auditor: the report on an archive written member by member is exactly its prepended data and its
    corrupt members; the report on any archive is exactly the anomalies its view, summary and reads warrant,
    each kind stated on its own; corruption is reported exactly when the checksum differs; overlaps reported
    are real and some overlap is reported whenever there is one.
  \<^item> Command line: output and exit code of \<open>list\<close> and \<open>audit\<close>.
  \<^item> Absence of panics: on any bytes, opening any entry with or without a password and reading it to the
    end returns bytes or an error; the fuzz targets and the command line return, and panic exactly where
    opening the archive does.

  Several theorems record behaviour a reader of the code would not expect, among them the panics of
  positioned reads near \<open>2 ^ 64\<close>, the authentication code a decoder can leave unchecked, the window of
  a stored entry that ignores its compressed size, and the empty read that uses up the checksum test.

  \<^bold>\<open>Parameters.\<close> Code outside the repository is a parameter of the definitions that use it, and what is
  assumed of it is a named predicate with an instance: the CRC-32 hasher (\<open>crc_chunked\<close>), the AES, HMAC
  and PBKDF2 primitives (\<open>aes_lib_ok\<close>), SHA-1 and AES-CBC (\<open>strong_lib_ok\<close>), the decoders of
  \<open>codec.rs\<close> (\<open>codec_decodes\<close>: over well-formed input they yield the data it stands for; \<open>deflate_stored\<close>: a
  DEFLATE stream of stored blocks stands for the bytes of its blocks; \<open>stops_early\<close>: DEFLATE yields its data
  where more input follows its end; \<open>codec_quiet\<close>:
  they do not panic themselves and DEFLATE and Deflate64 expand at most \<open>2 ^ 16\<close>-fold), the checkpointing inflater (\<open>inflater_ok\<close>: it decodes its stream, makes progress
  and restores its checkpoints), the files named by paths, the output sink, and the \<open>{:?}\<close> print of
  strings, which needs Unicode tables.

  \<^bold>\<open>Bounds.\<close> The limits of the source are kept as they are: the 65,557-byte scan for the record at the
  end, 16,000,000 entries, the 4 GiB cap on one-shot decoding, the caps on decoding and on checkpoint
  memory of the Deflate64 index, and \<open>2 ^ 18\<close> bytes of strong-encryption header. Files are assumed
  shorter than \<open>2 ^ 63\<close> bytes where positions are computed, and than \<open>2 ^ 47\<close> bytes where the unchecked
  count of decoded bytes must stay below 64 bits.

  \<^bold>\<open>Not modelled.\<close> The mutex of \<open>ZipVfs\<close>, which each
  call holds from lookup to decoding, so that calls are steps of one state; a file that changes
  while it is read, and I/O errors of the file itself other than its end (so a path is readable or not:
  one that opens and then cannot be read, as a directory can, is here one that does not open); the failure
  of an allocation smaller than \<open>2 ^ 63\<close> bytes; of the \<open>forensic-vfs\<close> and
  report types only what this code builds or matches.
\<close>

end
